(* ===== verification/Prelude.thy ===== *)
theory Prelude
  imports Main "HOL-Library.Word" "HOL-Library.Multiset"
begin

text \<open>
  Shared vocabulary of the development: the fixed-width integers of \<open>types.h\<close>, pages and the
  64-bit cells inside a page, the outcome of code that may end in \<open>panic\<close>, and the lemmas on
  words, lists and pages that the component theories share.
\<close>

unbundle bit_operations_syntax

section \<open>Integer types\<close>

text \<open>The widths of \<open>types.h\<close> (LP64: \<open>size_t\<close> and pointers are 64 bits wide).\<close>

type_synonym u8 = "8 word"
type_synonym u16 = "16 word"
type_synonym u32 = "32 word"
type_synonym u64 = "64 word"
type_synonym addr = u64

abbreviation NULL :: addr where
  "NULL \<equiv> 0"

named_theorems state_updates \<open>the basic operations as updates of record fields, for frame lemmas\<close>
named_theorems wf_pres \<open>preservation of well-formedness\<close>

section \<open>Outcomes\<close>

text \<open>
  \<open>panic\<close> prints its message and never returns, so code that may call it either returns a value
  in a new state or is halted with the message in the state it had reached.
\<close>

datatype ('a, 's) outcome =
    Ret (ret_val: 'a) (end_state: 's)
  | Panic (panic_msg: string) (end_state: 's)

primrec returns :: "('a, 's) outcome \<Rightarrow> bool" where
  "returns (Ret v s) = True"
| "returns (Panic m s) = False"

primrec obind :: "('a, 's) outcome \<Rightarrow> ('a \<Rightarrow> 's \<Rightarrow> ('b, 's) outcome) \<Rightarrow> ('b, 's) outcome" where
  "obind (Ret v s) f = f v s"
| "obind (Panic m s) f = Panic m s"

lemma obind_assoc: "obind (obind x f) g = obind x (\<lambda>v s. obind (f v s) g)"
  by (cases x) simp_all

lemma obind_eq_Ret:
  "obind x f = Ret v s \<longleftrightarrow> (\<exists>w t. x = Ret w t \<and> f w t = Ret v s)"
  by (cases x) simp_all

section \<open>Words\<close>

lemma word_less_unat: "(a :: u64) < b \<longleftrightarrow> unat a < unat b"
  by (rule word_less_nat_alt)

lemma unat_add_small:
  fixes a b :: u64
  assumes "unat a + unat b < 2 ^ 64"
  shows "unat (a + b) = unat a + unat b"
  using assms by (simp add: unat_word_ariths)

lemma unat_mult_small:
  fixes a b :: u64
  assumes "unat a * unat b < 2 ^ 64"
  shows "unat (a * b) = unat a * unat b"
  using assms by (simp add: unat_word_ariths)

lemma unat_sub_le:
  fixes a b :: u64
  assumes "b \<le> a"
  shows "unat (a - b) = unat a - unat b"
  using assms by (simp add: unat_sub)

lemma unat_of_nat_small: "n < 2 ^ 64 \<Longrightarrow> unat (of_nat n :: u64) = n"
  by (simp add: unsigned_of_nat take_bit_nat_eq_self)

lemma unat_lt64: "unat (a :: u64) < 2 ^ 64"
  using unsigned_less [of a] by simp

lemma word_dec_unat: "(a :: u64) \<noteq> 0 \<Longrightarrow> unat (a - 1) = unat a - 1"
  by (simp add: unat_minus_one)

lemma word_inc_unat: "(a :: u64) < b \<Longrightarrow> unat (a + 1) = unat a + 1"
  using unat_lt64 [of b] by (subst unat_add_small) (simp_all add: word_less_nat_alt)

lemma and_not_mask_word: "x AND NOT (mask n) = (push_bit n (drop_bit n x) :: u64)"
  by (rule bit_eqI) (auto simp: bit_simps)

lemma and_not_4095: "x AND NOT 4095 = x div 4096 * (4096 :: u64)"
proof -
  have "(4095 :: u64) = mask 12" by (simp add: mask_eq_exp_minus_1)
  then show ?thesis
    by (simp only: and_not_mask_word) (simp add: push_bit_eq_mult drop_bit_eq_div)
qed

lemma and_not_7: "x AND NOT 7 = x div 8 * (8 :: u64)"
proof -
  have "(7 :: u64) = mask 3" by (simp add: mask_eq_exp_minus_1)
  then show ?thesis
    by (simp only: and_not_mask_word) (simp add: push_bit_eq_mult drop_bit_eq_div)
qed

lemma unat_div_mult:
  fixes x d :: u64
  shows "unat (x div d * d) = unat x div unat d * unat d"
proof -
  have "unat (x div d) * unat d \<le> unat x" by (simp add: unat_div)
  from le_less_trans [OF this unat_lt64] show ?thesis
    by (simp add: unat_mult_small unat_div)
qed

lemma unat_and_not_4095: "unat (x AND NOT 4095 :: u64) = unat x div 4096 * 4096"
  unfolding and_not_4095 by (simp add: unat_div_mult)

lemma unat_and_not_7: "unat (x AND NOT 7 :: u64) = unat x div 8 * 8"
  unfolding and_not_7 by (simp add: unat_div_mult)

lemma length_distinct_words: "distinct (xs :: u64 list) \<Longrightarrow> length xs \<le> 2 ^ 64"
  using card_mono [of "UNIV :: u64 set" "set xs"] by (simp add: distinct_card card_word)

section \<open>Pages and the cells of a page\<close>

definition page_aligned :: "addr \<Rightarrow> bool" where
  "page_aligned p \<longleftrightarrow> p mod 4096 = 0"

text \<open>The address of \<open>p[i]\<close> for a pointer \<open>p\<close> to 64-bit values.\<close>

definition cell :: "addr \<Rightarrow> nat \<Rightarrow> addr" where
  "cell p i = p + 8 * of_nat i"

definition page_cells :: "addr \<Rightarrow> addr set" where
  "page_cells p = cell p ` {..<512}"

lemma page_aligned_dvd: "page_aligned p \<longleftrightarrow> 4096 dvd unat p"
proof -
  have "page_aligned p \<longleftrightarrow> unat (p mod 4096) = 0"
    by (simp add: page_aligned_def unat_eq_0)
  then show ?thesis by (simp add: unat_mod mod_eq_0_iff_dvd)
qed

lemma page_aligned_0 [simp]: "page_aligned 0"
  by (simp add: page_aligned_def)

lemma page_aligned_top: "page_aligned p \<Longrightarrow> unat p \<le> 2 ^ 64 - 4096"
  using unat_lt64 [of p] by (auto simp: page_aligned_dvd elim!: dvdE)

lemma cell_0 [simp]: "cell p 0 = p"
  by (simp add: cell_def)

lemma unat_cell:
  assumes "page_aligned p" "i < 512"
  shows "unat (cell p i) = unat p + 8 * i"
proof -
  have i: "unat (8 * of_nat i :: u64) = 8 * i"
    using assms(2) by (subst unat_mult_small) (simp_all add: unat_of_nat_small)
  moreover have "unat p + 8 * i < 2 ^ 64"
    using page_aligned_top [OF assms(1)] assms(2) by simp
  ultimately show ?thesis by (simp add: cell_def unat_add_small)
qed

lemma cell_inject:
  assumes "page_aligned p" "page_aligned q" "i < 512" "j < 512"
  shows "cell p i = cell q j \<longleftrightarrow> p = q \<and> i = j"
proof
  assume "cell p i = cell q j"
  then have eq: "unat p + 8 * i = unat q + 8 * j"
    using assms by (metis unat_cell)
  obtain k l where kl: "unat p = 4096 * k" "unat q = 4096 * l"
    using assms(1,2) by (auto simp: page_aligned_dvd elim!: dvdE)
  have "k = (4096 * k + 8 * i) div 4096" "l = (4096 * l + 8 * j) div 4096"
    using assms(3,4) by simp_all
  with eq kl have "k = l" by simp
  with kl eq show "p = q \<and> i = j" by (simp add: word_unat_eq_iff)
qed simp

lemma cell_nonzero: "page_aligned p \<Longrightarrow> p \<noteq> 0 \<Longrightarrow> i < 512 \<Longrightarrow> cell p i \<noteq> 0"
  using cell_inject [of p 0 i 0] by auto

lemma cell_in_page [simp]: "i < 512 \<Longrightarrow> cell p i \<in> page_cells p"
  by (simp add: page_cells_def)

lemma self_in_page [simp]: "p \<in> page_cells p"
  using cell_in_page [of 0 p] by simp

lemma page_cells_disjoint:
  "page_aligned p \<Longrightarrow> page_aligned q \<Longrightarrow> p \<noteq> q \<Longrightarrow> page_cells p \<inter> page_cells q = {}"
  by (auto simp: page_cells_def cell_inject)

lemma page_cells_other:
  "page_aligned p \<Longrightarrow> page_aligned q \<Longrightarrow> p \<noteq> q \<Longrightarrow> i < 512 \<Longrightarrow> cell q i \<notin> page_cells p"
  using page_cells_disjoint [of p q] cell_in_page [of i q] by blast

lemma page_notin_cells:
  "page_aligned p \<Longrightarrow> page_aligned q \<Longrightarrow> p \<noteq> q \<Longrightarrow> q \<notin> page_cells p"
  using page_cells_other [of p q 0] by simp

section \<open>Scans\<close>

text \<open>The first of \<open>k\<close> positions from \<open>i\<close> on that satisfies \<open>P\<close>: what the loops over tables compute.\<close>

fun first_index :: "(nat \<Rightarrow> bool) \<Rightarrow> nat \<Rightarrow> nat \<Rightarrow> nat option" where
  "first_index P 0 i = None"
| "first_index P (Suc k) i = (if P i then Some i else first_index P k (Suc i))"

lemma first_index_None: "first_index P k i = None \<Longrightarrow> i \<le> j \<Longrightarrow> j < i + k \<Longrightarrow> \<not> P j"
proof (induction P k i rule: first_index.induct)
  case (2 P k i)
  then show ?case by (cases "j = i") (auto split: if_splits)
qed simp

lemma first_index_Some:
  "first_index P k i = Some j \<Longrightarrow> i \<le> j \<and> j < i + k \<and> P j \<and> (\<forall>l. i \<le> l \<longrightarrow> l < j \<longrightarrow> \<not> P l)"
proof (induction P k i rule: first_index.induct)
  case (2 P k i)
  show ?case
  proof (cases "P i")
    case False
    with 2 have j: "Suc i \<le> j" "j < Suc i + k" "P j" "\<forall>l. Suc i \<le> l \<longrightarrow> l < j \<longrightarrow> \<not> P l" by auto
    have "\<not> P l" if "i \<le> l" "l < j" for l
      using that j(4) False by (cases "l = i") (auto simp: Suc_le_eq)
    with j show ?thesis by simp
  qed (use 2 in auto)
qed simp

lemma first_index_iff:
  "first_index P k 0 = None \<longleftrightarrow> (\<forall>j < k. \<not> P j)"
  "first_index P k 0 = Some j \<longleftrightarrow> j < k \<and> P j \<and> (\<forall>l < j. \<not> P l)"
proof -
  have S: "i < k \<and> P i \<and> (\<forall>l < i. \<not> P l)" if "first_index P k 0 = Some i" for i
    using first_index_Some [OF that] by simp
  have N: "\<not> P i" if "first_index P k 0 = None" "i < k" for i
    using first_index_None [OF that(1), of i] that(2) by simp
  show "first_index P k 0 = None \<longleftrightarrow> (\<forall>j < k. \<not> P j)"
    using S N by (cases "first_index P k 0") auto
  show "first_index P k 0 = Some j \<longleftrightarrow> j < k \<and> P j \<and> (\<forall>l < j. \<not> P l)"
    using S N by (cases "first_index P k 0") (auto, metis linorder_neqE_nat)
qed

section \<open>C strings\<close>

text \<open>A C string is the list of its characters without the terminator, so it holds no null character.\<close>

definition c_string :: "string \<Rightarrow> bool" where
  "c_string s \<longleftrightarrow> CHR 0x00 \<notin> set s"

text \<open>The character at the front, the terminator at the end.\<close>

definition front :: "string \<Rightarrow> char" where
  "front s = (case s of [] \<Rightarrow> CHR 0x00 | c # _ \<Rightarrow> c)"

text \<open>
  The loop that compares a stored name with a string: at most \<open>n\<close> characters, ending at a difference or
  at the terminator.
\<close>

fun names_match :: "nat \<Rightarrow> string \<Rightarrow> string \<Rightarrow> bool" where
  "names_match 0 a b = True"
| "names_match (Suc n) a b =
     (if front a \<noteq> front b then False else if front b = CHR 0x00 then True else names_match n (tl a) (tl b))"

lemma names_match_iff:
  "c_string a \<Longrightarrow> c_string b \<Longrightarrow> length a < n \<Longrightarrow> names_match n a b \<longleftrightarrow> a = b"
proof (induction n a b rule: names_match.induct)
  case (2 n a b)
  then show ?case by (cases a; cases b) (auto simp: front_def c_string_def)
qed simp

text \<open>The loop that copies a name into an array of \<open>n\<close> characters.\<close>

fun copy_name :: "nat \<Rightarrow> string \<Rightarrow> string" where
  "copy_name 0 name = []"
| "copy_name (Suc n) name = (if front name = CHR 0x00 then [] else front name # copy_name n (tl name))"

lemma copy_name_take: "c_string name \<Longrightarrow> copy_name n name = take n name"
proof (induction n name rule: copy_name.induct)
  case (2 n name)
  then show ?case by (cases name) (auto simp: front_def c_string_def)
qed simp

lemma c_string_take: "c_string s \<Longrightarrow> c_string (take n s)"
  using set_take_subset [of n s] by (auto simp: c_string_def)

text \<open>\<open>return\<close> of a \<open>size_t\<close> from a function of type \<open>int\<close>.\<close>

definition int_of_size :: "u64 \<Rightarrow> int" where
  "int_of_size n = sint (ucast n :: u32)"

lemma int_of_size_small:
  assumes "n < 2 ^ 31"
  shows "int_of_size (of_nat n) = int n"
proof -
  have e: "(ucast (of_nat n :: u64) :: u32) = of_nat n" by (rule bit_eqI) (simp add: bit_simps)
  have "int n < 2 ^ 31" using assms by (simp only: of_nat_less_numeral_power_cancel_iff)
  then show ?thesis
    unfolding int_of_size_def e by (simp add: signed_of_nat signed_take_bit_int_eq_self)
qed

end
