(* ===== verification/Machine.thy ===== *)
theory Machine
  imports Prelude
begin

text \<open>
  The part of the machine every component shares: the console log, the supervisor CSRs of
  \<open>riscv.h\<close> and the callee-saved registers that \<open>swtch\<close> moves. The globals of the other source
  files are added by record extension, one component after the other, so an operation on an
  early component applies unchanged to the state of every later one.
\<close>

section \<open>Console log\<close>

text \<open>
  A call of \<open>printf\<close> is logged with its format and its variable arguments, a call of
  \<open>uart_putc\<close> with its character; the theory of \<open>printf.c\<close> says which characters an entry
  sends. A variable argument is a 64-bit number or a pointer to a string (a null pointer is the
  number 0).
\<close>

datatype varg = Num u64 | Str string

datatype log_entry = LPrintf string "varg list" | LPutc char

section \<open>Registers\<close>

text \<open>\<open>context_t\<close> of \<open>process.h\<close>: return address, stack pointer, saved registers.\<close>

record context_t =
  ctx_ra :: u64
  ctx_sp :: u64
  ctx_s0 :: u64
  ctx_s1 :: u64
  ctx_s2 :: u64
  ctx_s3 :: u64
  ctx_s4 :: u64
  ctx_s5 :: u64
  ctx_s6 :: u64
  ctx_s7 :: u64
  ctx_s8 :: u64
  ctx_s9 :: u64
  ctx_s10 :: u64
  ctx_s11 :: u64

definition zero_context :: context_t where
  "zero_context = \<lparr>ctx_ra = 0, ctx_sp = 0, ctx_s0 = 0, ctx_s1 = 0, ctx_s2 = 0, ctx_s3 = 0,
     ctx_s4 = 0, ctx_s5 = 0, ctx_s6 = 0, ctx_s7 = 0, ctx_s8 = 0, ctx_s9 = 0, ctx_s10 = 0,
     ctx_s11 = 0\<rparr>"

record machine =
  klog :: "log_entry list"
  csr_sstatus :: u64
  csr_sie :: u64
  csr_stvec :: u64
  csr_sepc :: u64
  csr_scause :: u64
  csr_stval :: u64
  csr_satp :: u64
  sfences :: nat
  cpu_regs :: context_t

definition kprintf :: "string \<Rightarrow> varg list \<Rightarrow> 'z machine_scheme \<Rightarrow> 'z machine_scheme" where
  "kprintf fmt args s = s\<lparr>klog := klog s @ [LPrintf fmt args]\<rparr>"

definition kputc :: "char \<Rightarrow> 'z machine_scheme \<Rightarrow> 'z machine_scheme" where
  "kputc c s = s\<lparr>klog := klog s @ [LPutc c]\<rparr>"

declare kprintf_def [state_updates] kputc_def [state_updates]

text \<open>
  A 32-bit argument of a variadic call fills a 64-bit register, which \<open>printf\<close> reads whole; the calling
  convention extends it by its sign bit, also when its type is unsigned.
\<close>

definition u32_arg :: "u32 \<Rightarrow> varg" where
  "u32_arg x = Num (scast x)"

section \<open>CSR access (\<open>riscv.h\<close>)\<close>

definition SSTATUS_SIE :: u64 where [simp]: "SSTATUS_SIE = push_bit 1 1"
definition SIE_SSIE :: u64 where [simp]: "SIE_SSIE = push_bit 1 1"
definition SIE_STIE :: u64 where [simp]: "SIE_STIE = push_bit 5 1"
definition SIE_SEIE :: u64 where [simp]: "SIE_SEIE = push_bit 9 1"
definition INTERRUPT_BIT :: u64 where [simp]: "INTERRUPT_BIT = push_bit 63 1"

definition r_sstatus :: "'z machine_scheme \<Rightarrow> u64" where
  "r_sstatus s = csr_sstatus s"

definition w_sstatus :: "u64 \<Rightarrow> 'z machine_scheme \<Rightarrow> 'z machine_scheme" where
  "w_sstatus x s = s\<lparr>csr_sstatus := x\<rparr>"

definition r_sie :: "'z machine_scheme \<Rightarrow> u64" where
  "r_sie s = csr_sie s"

definition w_sie :: "u64 \<Rightarrow> 'z machine_scheme \<Rightarrow> 'z machine_scheme" where
  "w_sie x s = s\<lparr>csr_sie := x\<rparr>"

definition r_stvec :: "'z machine_scheme \<Rightarrow> u64" where
  "r_stvec s = csr_stvec s"

definition w_stvec :: "u64 \<Rightarrow> 'z machine_scheme \<Rightarrow> 'z machine_scheme" where
  "w_stvec x s = s\<lparr>csr_stvec := x\<rparr>"

definition r_sepc :: "'z machine_scheme \<Rightarrow> u64" where
  "r_sepc s = csr_sepc s"

definition w_sepc :: "u64 \<Rightarrow> 'z machine_scheme \<Rightarrow> 'z machine_scheme" where
  "w_sepc x s = s\<lparr>csr_sepc := x\<rparr>"

definition r_scause :: "'z machine_scheme \<Rightarrow> u64" where
  "r_scause s = csr_scause s"

definition r_stval :: "'z machine_scheme \<Rightarrow> u64" where
  "r_stval s = csr_stval s"

definition r_satp :: "'z machine_scheme \<Rightarrow> u64" where
  "r_satp s = csr_satp s"

definition w_satp :: "u64 \<Rightarrow> 'z machine_scheme \<Rightarrow> 'z machine_scheme" where
  "w_satp x s = s\<lparr>csr_satp := x\<rparr>"

definition sfence_vma :: "'z machine_scheme \<Rightarrow> 'z machine_scheme" where
  "sfence_vma s = s\<lparr>sfences := sfences s + 1\<rparr>"

section \<open>Panic\<close>

text \<open>\<open>panic\<close> prints the banner and the message, then halts in a \<open>wfi\<close> loop.\<close>

definition panic :: "string \<Rightarrow> 'z machine_scheme \<Rightarrow> ('a, 'z machine_scheme) outcome" where
  "panic msg s = Panic msg
     (kprintf ''System halted.\<newline>'' []
       (kprintf ''%s\<newline>'' [Str msg]
         (kprintf ''\<newline>\<newline>*** KERNEL PANIC ***\<newline>'' [] s)))"

lemma panic_not_Ret [simp]: "panic m s \<noteq> Ret v t" "Ret v t \<noteq> panic m s"
  by (simp_all add: panic_def)

lemma returns_panic [simp]: "\<not> returns (panic m s)"
  by (simp add: panic_def)

lemma obind_panic [simp]: "obind (panic m s) f = panic m s"
  by (simp add: panic_def)

end
