(* ===== verification/Mm.thy ===== *)
theory Mm
  imports Machine
begin

text \<open>
  The memory manager (\<open>kernel/mm/mm.c\<close>, \<open>kernel/mm/mm.h\<close>): the stack of free pages threaded
  through the first word of every free page, and the bump allocator for small objects.
\<close>

section \<open>State\<close>

text \<open>
  The static variables of \<open>mm.c\<close>, the linker symbols \<open>__heap_start\<close> and \<open>__heap_end\<close>
  (constants of the linked image that no operation writes), and the 64-bit cells of memory,
  addressed by the byte address of an aligned cell.
\<close>

record mm_state = machine +
  heap_start_sym :: addr
  heap_end_sym :: addr
  free_pages :: addr
  num_free_pages :: u64
  heap_current :: addr
  mem :: "addr \<Rightarrow> u64"

definition PAGE_SIZE :: u64 where [simp]: "PAGE_SIZE = 4096"

section \<open>Operations\<close>

text \<open>The assignment \<open>*p = v\<close> through a pointer to a 64-bit value.\<close>

definition store_word :: "addr \<Rightarrow> u64 \<Rightarrow> 'z mm_state_scheme \<Rightarrow> 'z mm_state_scheme" where
  "store_word p v s = s\<lparr>mem := (mem s)(p := v)\<rparr>"

declare store_word_def [state_updates]

text \<open>\<open>(mem_start + PAGE_SIZE - 1) & ~(PAGE_SIZE - 1)\<close>\<close>

definition page_align_up :: "u64 \<Rightarrow> u64" where
  "page_align_up a = (a + PAGE_SIZE - 1) AND NOT (PAGE_SIZE - 1)"

definition mem_end :: u64 where
  "mem_end = 0x80000000 + 128 * 1024 * 1024"

text \<open>The loop of \<open>mm_init\<close> that links page \<open>i\<close> to page \<open>i + 1\<close> and ends the list with 0.\<close>

function link_free_pages :: "u64 \<Rightarrow> u64 \<Rightarrow> u64 \<Rightarrow> (addr \<Rightarrow> u64) \<Rightarrow> (addr \<Rightarrow> u64)" where
  "link_free_pages mem_start n i m =
     (if i < n then
        link_free_pages mem_start n (i + 1)
          (m(mem_start + i * PAGE_SIZE :=
               (if i + 1 < n then mem_start + (i + 1) * PAGE_SIZE else 0)))
      else m)"
  by pat_completeness auto
termination
  by (relation "measure (\<lambda>(a, n, i, m). unat n - unat i)")
    (auto simp: word_inc_unat word_less_nat_alt)

declare link_free_pages.simps [simp del]

definition mm_init :: "'z mm_state_scheme \<Rightarrow> 'z mm_state_scheme" where
  "mm_init s =
     (let s = s\<lparr>heap_current := heap_start_sym s\<rparr>;
          mem_start = page_align_up (heap_end_sym s);
          s = kprintf ''[MM] Initializing memory manager\<newline>'' [] s;
          s = kprintf ''[MM] Heap: %p - %p\<newline>''
                [Num (heap_start_sym s), Num (heap_end_sym s)] s;
          s = kprintf ''[MM] Free memory: %p - %p\<newline>'' [Num mem_start, Num mem_end] s;
          n = (mem_end - mem_start) div PAGE_SIZE;
          s = s\<lparr>free_pages := mem_start, num_free_pages := n\<rparr>;
          s = s\<lparr>mem := link_free_pages mem_start n 0 (mem s)\<rparr>
      in kprintf ''[MM] Initialized %u free pages (%u KB)\<newline>''
           [u32_arg (ucast n), u32_arg (ucast (n * PAGE_SIZE div 1024))] s)"

text \<open>The loop of \<open>alloc_page\<close> that clears the \<open>PAGE_SIZE / 8\<close> cells of the page.\<close>

fun clear_page :: "nat \<Rightarrow> addr \<Rightarrow> nat \<Rightarrow> (addr \<Rightarrow> u64) \<Rightarrow> (addr \<Rightarrow> u64)" where
  "clear_page 0 p i m = m"
| "clear_page (Suc k) p i m = clear_page k p (Suc i) (m(cell p i := 0))"

definition alloc_page :: "'z mm_state_scheme \<Rightarrow> addr \<times> 'z mm_state_scheme" where
  "alloc_page s =
     (if free_pages s = NULL \<or> num_free_pages s = 0
      then (NULL, kprintf ''[MM] Out of memory!\<newline>'' [] s)
      else let page = free_pages s in
           (page, s\<lparr>free_pages := mem s page, num_free_pages := num_free_pages s - 1,
                    mem := clear_page 512 page 0 (mem s)\<rparr>))"

definition free_page :: "addr \<Rightarrow> 'z mm_state_scheme \<Rightarrow> 'z mm_state_scheme" where
  "free_page page s =
     (if page = NULL then s
      else s\<lparr>mem := (mem s)(page := free_pages s), free_pages := page,
             num_free_pages := num_free_pages s + 1\<rparr>)"

definition kmalloc :: "u64 \<Rightarrow> 'z mm_state_scheme \<Rightarrow> addr \<times> 'z mm_state_scheme" where
  "kmalloc sz s =
     (if sz = 0 then (NULL, s)
      else let sz = (sz + 7) AND NOT 7 in
           if heap_current s + sz > heap_end_sym s
           then (NULL, kprintf ''[MM] Heap exhausted!\<newline>'' [] s)
           else (heap_current s, s\<lparr>heap_current := heap_current s + sz\<rparr>))"

definition kfree :: "addr \<Rightarrow> 'z mm_state_scheme \<Rightarrow> 'z mm_state_scheme" where
  "kfree ptr s = s"


section \<open>The free list as a list of pages\<close>

text \<open>The first \<open>n\<close> pages reached from \<open>p\<close> by following first words.\<close>

primrec chain :: "(addr \<Rightarrow> u64) \<Rightarrow> nat \<Rightarrow> addr \<Rightarrow> addr list" where
  "chain m 0 p = []"
| "chain m (Suc n) p = p # chain m n (m p)"

definition free_list :: "'z mm_state_scheme \<Rightarrow> addr list" where
  "free_list s = chain (mem s) (unat (num_free_pages s)) (free_pages s)"

definition pool_start :: "'z mm_state_scheme \<Rightarrow> addr" where
  "pool_start s = page_align_up (heap_end_sym s)"

text \<open>A page the allocator may hold: aligned, not null, between the heap and the end of RAM.\<close>

definition managed :: "'z mm_state_scheme \<Rightarrow> addr \<Rightarrow> bool" where
  "managed s p \<longleftrightarrow> page_aligned p \<and> p \<noteq> NULL \<and> pool_start s \<le> p \<and> p < mem_end"

text \<open>
  The allocator's invariant: the \<open>num_free_pages\<close> pages reached from \<open>free_pages\<close> are managed
  pages without repetition.
\<close>

definition mm_wf :: "'z mm_state_scheme \<Rightarrow> bool" where
  "mm_wf s \<longleftrightarrow> distinct (free_list s) \<and> list_all (managed s) (free_list s)"

lemma length_chain [simp]: "length (chain m n p) = n"
  by (induction n arbitrary: p) simp_all

lemma length_free_list: "length (free_list s) = unat (num_free_pages s)"
  by (simp add: free_list_def)

lemma chain_cong:
  "(\<And>a. a \<in> set (chain m n p) \<Longrightarrow> m' a = m a) \<Longrightarrow> chain m' n p = chain m n p"
  by (induction n arbitrary: p) auto

section \<open>Clearing and linking\<close>

lemma clear_page_at:
  "clear_page k p i m a = (if a \<in> cell p ` {i..<i + k} then 0 else m a)"
proof (induction k p i m rule: clear_page.induct)
  case (2 k p i m)
  have "{i..<i + Suc k} = insert i {Suc i..<Suc i + k}"
    by auto
  then show ?case by (simp add: "2")
qed simp

lemma clear_page_cells: "clear_page 512 p 0 m a = (if a \<in> page_cells p then 0 else m a)"
  by (simp add: clear_page_at page_cells_def atLeast0LessThan)

text \<open>The \<open>k\<close>-th page of the region that starts at \<open>a\<close>.\<close>

definition nth_page :: "addr \<Rightarrow> nat \<Rightarrow> addr" where
  "nth_page a k = a + of_nat k * 4096"

lemma unat_nth_page:
  assumes "unat a + 4096 * n \<le> 2 ^ 64" "k < n"
  shows "unat (nth_page a k) = unat a + 4096 * k"
proof -
  have k: "4096 * k < 2 ^ 64" and sum: "unat a + 4096 * k < 2 ^ 64"
    using assms by simp_all
  have "unat (of_nat k * 4096 :: u64) = k * 4096"
    using k by (subst unat_mult_small) (simp_all add: unat_of_nat_small)
  with sum show ?thesis by (simp add: nth_page_def unat_add_small)
qed

lemma nth_page_inject:
  assumes "unat a + 4096 * n \<le> 2 ^ 64" "k < n" "l < n"
  shows "nth_page a k = nth_page a l \<longleftrightarrow> k = l"
proof
  assume "nth_page a k = nth_page a l"
  then have "unat a + 4096 * k = unat a + 4096 * l"
    by (metis unat_nth_page assms)
  then show "k = l" by simp
qed simp

lemma nth_page_word: "a + i * 4096 = nth_page a (unat i)"
  by (simp add: nth_page_def)

lemma link_free_pages_step:
  assumes "i < n"
  shows "link_free_pages ms n i m = link_free_pages ms n (i + 1)
    (m(nth_page ms (unat i) := (if Suc (unat i) < unat n then nth_page ms (Suc (unat i)) else 0)))"
proof -
  have "(i + 1 < n) = (Suc (unat i) < unat n)"
    using word_inc_unat [OF assms] by (simp add: word_less_nat_alt)
  moreover have "ms + (i + 1) * PAGE_SIZE = nth_page ms (Suc (unat i))"
    using word_inc_unat [OF assms] by (simp only: PAGE_SIZE_def nth_page_word) simp
  moreover have "ms + i * PAGE_SIZE = nth_page ms (unat i)"
    by (simp only: PAGE_SIZE_def nth_page_word)
  ultimately show ?thesis
    using assms by (subst link_free_pages.simps) (simp only: if_True)
qed

lemma link_free_pages_other:
  assumes "\<And>k. unat i \<le> k \<Longrightarrow> k < unat n \<Longrightarrow> a \<noteq> nth_page ms k"
  shows "link_free_pages ms n i m a = m a"
  using assms
proof (induction "unat n - unat i" arbitrary: i m)
  case 0
  then show ?case by (subst link_free_pages.simps) (simp add: word_less_nat_alt)
next
  case (Suc d)
  then have i: "i < n" by (simp add: word_less_nat_alt)
  from Suc.hyps(2) have "d = unat n - unat (i + 1)"
    by (simp add: word_inc_unat [OF i])
  from Suc.hyps(1) [OF this] Suc.prems [of "unat i"] Suc.prems i
  show ?case
    by (simp add: link_free_pages_step word_inc_unat [OF i] word_less_nat_alt)
qed

lemma link_free_pages_at:
  assumes "unat ms + 4096 * unat n \<le> 2 ^ 64" "unat i \<le> k" "k < unat n"
  shows "link_free_pages ms n i m (nth_page ms k) =
    (if Suc k < unat n then nth_page ms (Suc k) else 0)"
  using assms(2)
proof (induction "k - unat i" arbitrary: i m)
  case 0
  then have k: "k = unat i" and i: "i < n"
    using assms(3) by (simp_all add: word_less_nat_alt)
  have "link_free_pages ms n (i + 1) m' (nth_page ms k) = m' (nth_page ms k)" for m'
    using nth_page_inject [OF assms(1)] assms(3)
    by (intro link_free_pages_other) (auto simp: word_inc_unat [OF i] k)
  then show ?case by (simp add: link_free_pages_step [OF i] k)
next
  case (Suc d)
  then have i: "i < n"
    using assms(3) by (simp add: word_less_nat_alt)
  have "d = k - unat (i + 1)" "unat (i + 1) \<le> k"
    using Suc by (simp_all add: word_inc_unat [OF i])
  from Suc.hyps(1) [OF this] show ?case by (simp add: link_free_pages_step [OF i])
qed

section \<open>The page allocator refines a stack of pages\<close>

lemma managed_frame:
  "heap_end_sym t = heap_end_sym s \<Longrightarrow> managed t = managed s"
  by (simp add: fun_eq_iff managed_def pool_start_def)

lemma managed_page: "managed s p \<Longrightarrow> page_aligned p" "managed s p \<Longrightarrow> p \<noteq> NULL"
  by (simp_all add: managed_def)

lemma free_list_Cons_iff:
  "free_list s = p # ps \<longleftrightarrow> num_free_pages s \<noteq> 0 \<and> p = free_pages s \<and>
     ps = chain (mem s) (unat (num_free_pages s) - 1) (mem s p)"
  by (cases "unat (num_free_pages s)") (auto simp: free_list_def unat_eq_0)

lemma free_list_Nil_iff: "free_list s = [] \<longleftrightarrow> num_free_pages s = 0"
  by (metis length_free_list length_0_conv unat_eq_0)

lemma mm_wf_Cons:
  assumes "mm_wf s" "free_list s = p # ps"
  shows "managed s p" "distinct ps" "p \<notin> set ps" "\<And>q. q \<in> set ps \<Longrightarrow> managed s q"
  using assms by (auto simp: mm_wf_def list_all_iff)

lemma alloc_page_empty:
  assumes "mm_wf s" "free_list s = []"
  shows "alloc_page s = (NULL, kprintf ''[MM] Out of memory!\<newline>'' [] s)"
  using assms by (simp add: alloc_page_def free_list_Nil_iff)

lemma alloc_page_take:
  assumes "mm_wf s" "free_list s = p # ps"
  shows "alloc_page s =
    (p, s\<lparr>free_pages := mem s p, num_free_pages := num_free_pages s - 1,
          mem := clear_page 512 p 0 (mem s)\<rparr>)"
  using assms managed_page(2) [OF mm_wf_Cons(1) [OF assms]]
  by (auto simp: alloc_page_def free_list_Cons_iff Let_def)

lemma free_list_alloc:
  assumes "mm_wf s" "free_list s = p # ps"
  shows "free_list (snd (alloc_page s)) = ps"
proof -
  have n: "unat (num_free_pages s - 1) = unat (num_free_pages s) - 1"
    using assms(2) by (simp add: free_list_Cons_iff word_dec_unat)
  have ps: "ps = chain (mem s) (unat (num_free_pages s) - 1) (mem s p)"
    using assms(2) by (simp add: free_list_Cons_iff)
  have "clear_page 512 p 0 (mem s) a = mem s a" if "a \<in> set ps" for a
  proof -
    have "page_aligned p" "page_aligned a" "p \<noteq> a"
      using mm_wf_Cons [OF assms] that by (auto intro: managed_page)
    then show ?thesis by (simp add: clear_page_cells page_notin_cells)
  qed
  then have "chain (clear_page 512 p 0 (mem s)) (unat (num_free_pages s) - 1) (mem s p) = ps"
    using chain_cong [of "mem s" _ _ "clear_page 512 p 0 (mem s)"] ps by metis
  then show ?thesis
    by (simp add: alloc_page_take [OF assms] n free_list_def)
qed

lemma mm_wf_alloc [wf_pres]:
  assumes "mm_wf s"
  shows "mm_wf (snd (alloc_page s))"
proof (cases "free_list s")
  case Nil
  then show ?thesis
    using assms by (simp add: alloc_page_empty [OF assms] kprintf_def mm_wf_def free_list_def
        managed_frame [of "s\<lparr>klog := _\<rparr>" s])
next
  case (Cons p ps)
  have "managed (snd (alloc_page s)) = managed s"
    by (rule managed_frame) (simp add: alloc_page_take [OF assms Cons])
  with mm_wf_Cons [OF assms Cons] free_list_alloc [OF assms Cons] show ?thesis
    by (simp add: mm_wf_def list_all_iff)
qed

lemma mem_alloc:
  assumes "mm_wf s" "free_list s = p # ps"
  shows "mem (snd (alloc_page s)) a = (if a \<in> page_cells p then 0 else mem s a)"
  by (simp add: alloc_page_take [OF assms] clear_page_cells)

lemma num_free_pages_room:
  assumes "mm_wf s" "managed s p" "p \<notin> set (free_list s)"
  shows "unat (num_free_pages s + 1) = Suc (unat (num_free_pages s))"
proof -
  have "distinct (0 # p # free_list s)"
    using assms by (auto simp: mm_wf_def list_all_iff managed_def)
  from length_distinct_words [OF this] show ?thesis
    by (subst unat_add_small) (simp_all add: length_free_list)
qed

lemma free_list_free:
  assumes "mm_wf s" "managed s p" "p \<notin> set (free_list s)"
  shows "free_list (free_page p s) = p # free_list s"
proof -
  have "chain ((mem s)(p := v)) (unat (num_free_pages s)) (free_pages s) = free_list s" for v
    using assms(3) by (auto simp: free_list_def intro!: chain_cong)
  then show ?thesis
    using managed_page(2) [OF assms(2)] num_free_pages_room [OF assms]
    by (simp add: free_list_def free_page_def)
qed

lemma mm_wf_free [wf_pres]:
  assumes "mm_wf s" "managed s p" "p \<notin> set (free_list s)"
  shows "mm_wf (free_page p s)"
proof -
  have "managed (free_page p s) = managed s"
    by (rule managed_frame) (simp add: free_page_def)
  with assms show ?thesis
    by (simp add: mm_wf_def free_list_free)
qed

section \<open>What clients rely on\<close>

text \<open>\<open>n\<close> successive allocations, for any allocation function.\<close>

primrec take_pages :: "('s \<Rightarrow> addr \<times> 's) \<Rightarrow> nat \<Rightarrow> 's \<Rightarrow> addr list \<times> 's" where
  "take_pages al 0 s = ([], s)"
| "take_pages al (Suc n) s =
     (let (p, t) = al s; (ps, u) = take_pages al n t in (p # ps, u))"

text \<open>
  The contract of a page allocator, over the stack \<open>pool\<close> of free pages: the most recently freed
  page is handed out first, cleared, and nothing outside the page moves; freeing pushes a page the
  allocator manages and does not hold; a client's store outside the free pages is invisible to it.
\<close>

locale page_pool =
  fixes alloc :: "'s \<Rightarrow> addr \<times> 's"
    and release :: "addr \<Rightarrow> 's \<Rightarrow> 's"
    and store :: "addr \<Rightarrow> u64 \<Rightarrow> 's \<Rightarrow> 's"
    and rd :: "'s \<Rightarrow> addr \<Rightarrow> u64"
    and pool :: "'s \<Rightarrow> addr list"
    and inv :: "'s \<Rightarrow> bool"
    and owned :: "'s \<Rightarrow> addr \<Rightarrow> bool"
  assumes pool_distinct: "inv s \<Longrightarrow> distinct (pool s)"
    and pool_owned: "inv s \<Longrightarrow> p \<in> set (pool s) \<Longrightarrow> owned s p"
    and owned_page: "owned s p \<Longrightarrow> page_aligned p \<and> p \<noteq> NULL"
    and alloc_fails: "inv s \<Longrightarrow> pool s = [] \<Longrightarrow>
      fst (alloc s) = NULL \<and> pool (snd (alloc s)) = [] \<and> rd (snd (alloc s)) = rd s"
    and alloc_pops: "inv s \<Longrightarrow> pool s = p # ps \<Longrightarrow> fst (alloc s) = p \<and> pool (snd (alloc s)) = ps"
    and alloc_clears: "inv s \<Longrightarrow> pool s = p # ps \<Longrightarrow>
      rd (snd (alloc s)) a = (if a \<in> page_cells p then 0 else rd s a)"
    and alloc_inv: "inv s \<Longrightarrow> inv (snd (alloc s))"
    and alloc_owned: "owned (snd (alloc s)) = owned s"
    and release_pushes: "inv s \<Longrightarrow> owned s p \<Longrightarrow> p \<notin> set (pool s) \<Longrightarrow>
      pool (release p s) = p # pool s \<and> inv (release p s)"
    and release_rd: "a \<noteq> p \<Longrightarrow> rd (release p s) a = rd s a"
    and store_rd: "rd (store a v s) = (rd s)(a := v)"
    and store_pool: "inv s \<Longrightarrow> a \<notin> set (pool s) \<Longrightarrow>
      pool (store a v s) = pool s \<and> inv (store a v s)"
begin

lemma alloc_fresh:
  assumes "inv s" "pool s = p # ps"
  shows "p \<notin> set ps" "owned s p"
  using pool_distinct [OF assms(1)] pool_owned [OF assms(1), of p] assms(2) by simp_all

lemma alloc_NULL_iff: "inv s \<Longrightarrow> fst (alloc s) = NULL \<longleftrightarrow> pool s = []"
  using alloc_fails [of s] alloc_pops [of s] owned_page alloc_fresh(2)
  by (cases "pool s") fastforce+

lemma release_alloc:
  assumes "inv s" "owned s p" "p \<notin> set (pool s)"
  shows "fst (alloc (release p s)) = p" "pool (snd (alloc (release p s))) = pool s"
  using release_pushes [OF assms] alloc_pops [of "release p s" p "pool s"] by simp_all

text \<open>A store into a page that is in use does not touch the pool.\<close>

lemma store_in_page:
  assumes "inv s" "page_aligned q" "q \<notin> set (pool s)" "i < 512"
  shows "pool (store (cell q i) v s) = pool s" "inv (store (cell q i) v s)"
proof -
  have "cell q i \<notin> set (pool s)"
  proof
    assume "cell q i \<in> set (pool s)"
    then have "page_aligned (cell q i)" "cell q i = cell (cell q i) 0"
      using pool_owned [OF assms(1)] owned_page by auto
    then have "q = cell q i"
      using cell_inject [of q "cell q i" i 0] assms(2,4) by simp
    with assms(3) \<open>cell q i \<in> set (pool s)\<close> show False by simp
  qed
  from store_pool [OF assms(1) this]
  show "pool (store (cell q i) v s) = pool s" "inv (store (cell q i) v s)" by simp_all
qed

lemma take_pages_pool:
  assumes "inv s" "n \<le> length (pool s)"
  shows "fst (take_pages alloc n s) = take n (pool s) \<and>
    pool (snd (take_pages alloc n s)) = drop n (pool s) \<and> inv (snd (take_pages alloc n s))"
  using assms
proof (induction n arbitrary: s)
  case (Suc n)
  then obtain p ps where ps: "pool s = p # ps" by (cases "pool s") auto
  from alloc_pops [OF Suc.prems(1) ps] alloc_inv [OF Suc.prems(1)] Suc.prems(2) ps
    Suc.IH [of "snd (alloc s)"]
  show ?case by (simp add: case_prod_beta)
qed simp

lemma take_pages_clear:
  assumes "inv s" "n \<le> length (pool s)"
  shows "rd (snd (take_pages alloc n s)) a =
    (if \<exists>p \<in> set (take n (pool s)). a \<in> page_cells p then 0 else rd s a)"
  using assms
proof (induction n arbitrary: s)
  case (Suc n)
  then obtain p ps where ps: "pool s = p # ps" by (cases "pool s") auto
  from alloc_pops [OF Suc.prems(1) ps] alloc_inv [OF Suc.prems(1)] Suc.prems(2) ps
    Suc.IH [of "snd (alloc s)"] alloc_clears [OF Suc.prems(1) ps]
  show ?case by (simp add: case_prod_beta)
qed simp

end

interpretation pp: page_pool alloc_page free_page store_word mem free_list mm_wf managed
proof unfold_locales
  fix s :: "'z mm_state_scheme" and p q :: addr and ps a v
  show "mm_wf s \<Longrightarrow> distinct (free_list s)"
    and "mm_wf s \<Longrightarrow> p \<in> set (free_list s) \<Longrightarrow> managed s p"
    by (simp_all add: mm_wf_def list_all_iff)
  show "managed s p \<Longrightarrow> page_aligned p \<and> p \<noteq> NULL"
    by (simp add: managed_def)
  show "mm_wf s \<Longrightarrow> free_list s = [] \<Longrightarrow> fst (alloc_page s) = NULL \<and>
      free_list (snd (alloc_page s)) = [] \<and> mem (snd (alloc_page s)) = mem s"
    by (simp add: alloc_page_empty kprintf_def free_list_def)
  show "mm_wf s \<Longrightarrow> free_list s = p # ps \<Longrightarrow>
      fst (alloc_page s) = p \<and> free_list (snd (alloc_page s)) = ps"
    using free_list_alloc [of s p ps] by (simp add: alloc_page_take)
  show "mm_wf s \<Longrightarrow> free_list s = p # ps \<Longrightarrow>
      mem (snd (alloc_page s)) a = (if a \<in> page_cells p then 0 else mem s a)"
    by (rule mem_alloc)
  show "mm_wf s \<Longrightarrow> mm_wf (snd (alloc_page s))"
    by (rule wf_pres)
  show "managed (snd (alloc_page s)) = managed s"
    by (rule managed_frame) (simp add: alloc_page_def kprintf_def Let_def)
  show "mm_wf s \<Longrightarrow> managed s p \<Longrightarrow> p \<notin> set (free_list s) \<Longrightarrow>
      free_list (free_page p s) = p # free_list s \<and> mm_wf (free_page p s)"
    by (simp add: free_list_free mm_wf_free)
  show "a \<noteq> p \<Longrightarrow> mem (free_page p s) a = mem s a"
    by (simp add: free_page_def)
  show "mem (store_word a v s) = (mem s)(a := v)"
    by (simp add: store_word_def)
  show "mm_wf s \<Longrightarrow> a \<notin> set (free_list s) \<Longrightarrow>
      free_list (store_word a v s) = free_list s \<and> mm_wf (store_word a v s)"
  proof -
    assume a: "mm_wf s" "a \<notin> set (free_list s)"
    then have "free_list (store_word a v s) = free_list s"
      by (auto simp: free_list_def store_word_def intro!: chain_cong)
    moreover have "managed (store_word a v s) = managed s"
      by (rule managed_frame) (simp add: store_word_def)
    ultimately show ?thesis using a by (simp add: mm_wf_def)
  qed
qed

section \<open>Initialisation\<close>

text \<open>
  What the linker script \<open>scripts/kernel.ld\<close> guarantees about the symbols: a page-aligned heap of
  4 MB inside the RAM that ends at \<open>0x88000000\<close>.
\<close>

definition linked :: "'z mm_state_scheme \<Rightarrow> bool" where
  "linked s \<longleftrightarrow> page_aligned (heap_start_sym s) \<and> 0x80200000 \<le> heap_start_sym s \<and>
     heap_end_sym s = heap_start_sym s + 0x400000 \<and> heap_start_sym s \<le> mem_end - 0x400000"

text \<open>The number of whole pages between the heap and the end of RAM.\<close>

definition pool_pages :: "'z mm_state_scheme \<Rightarrow> nat" where
  "pool_pages s = (unat mem_end - unat (heap_end_sym s)) div 4096"

lemma unat_mem_end [simp]: "unat mem_end = 0x88000000"
  by (simp add: mem_end_def)

lemma linked_unat:
  assumes "linked s"
  shows "unat (heap_end_sym s) = unat (heap_start_sym s) + 0x400000"
    and "0x80200000 \<le> unat (heap_start_sym s)" and "unat (heap_end_sym s) \<le> 0x88000000"
    and "page_aligned (heap_end_sym s)"
proof -
  have le: "unat (heap_start_sym s) \<le> 0x87c00000" and ge: "0x80200000 \<le> unat (heap_start_sym s)"
    and e: "heap_end_sym s = heap_start_sym s + 0x400000"
    using assms by (simp_all add: linked_def word_le_nat_alt mem_end_def)
  from le show u: "unat (heap_end_sym s) = unat (heap_start_sym s) + 0x400000"
    unfolding e by (subst unat_add_small) simp_all
  from ge show "0x80200000 \<le> unat (heap_start_sym s)" .
  from u le show "unat (heap_end_sym s) \<le> 0x88000000" by simp
  have "4096 dvd unat (heap_start_sym s)"
    using assms by (simp add: linked_def page_aligned_dvd)
  then show "page_aligned (heap_end_sym s)"
    by (simp add: page_aligned_dvd u dvd_add_left_iff [of 4096 "0x400000"] flip: add.commute)
qed

lemma page_align_up_aligned:
  assumes "page_aligned a" "unat a < 2 ^ 64 - 4096"
  shows "page_align_up a = a"
proof -
  have "unat (a + 4095) = unat a + 4095"
    using assms(2) by (subst unat_add_small) simp_all
  moreover obtain k where "unat a = 4096 * k"
    using assms(1) by (auto simp: page_aligned_dvd elim!: dvdE)
  moreover have "page_align_up a = (a + 4095) AND NOT 4095"
    by (simp add: page_align_up_def add.commute)
  ultimately have "unat (page_align_up a) = unat a"
    by (simp only: unat_and_not_4095) simp
  then show ?thesis by (simp add: word_unat_eq_iff)
qed

lemma linked_pool_start:
  assumes "linked s"
  shows "pool_start s = heap_end_sym s"
  unfolding pool_start_def
  using linked_unat [OF assms] by (intro page_align_up_aligned) simp_all

lemma chain_link_free_pages:
  assumes "unat ms + 4096 * unat n \<le> 2 ^ 64" "k \<le> unat n"
  shows "chain (link_free_pages ms n 0 m) (unat n - k) (nth_page ms k) =
    map (nth_page ms) [k..<unat n]"
  using assms(2)
proof (induction "unat n - k" arbitrary: k)
  case (Suc d)
  then have k: "k < unat n" and d: "d = unat n - Suc k" by simp_all
  show ?case
  proof (cases "Suc k < unat n")
    case True
    with Suc.hyps(1) [OF d] k show ?thesis
      by (simp add: upt_conv_Cons link_free_pages_at [OF assms(1)] flip: Suc.hyps(2) d)
  next
    case False
    then have "unat n = Suc k" using k by simp
    then show ?thesis by simp
  qed
qed simp

lemma unat_pool_pages:
  assumes "linked s"
  shows "unat ((mem_end - pool_start s) div PAGE_SIZE) = pool_pages s"
    and "unat (pool_start s) + 4096 * pool_pages s \<le> 0x88000000"
proof -
  have "unat (mem_end - heap_end_sym s) = unat mem_end - unat (heap_end_sym s)"
    using linked_unat(3) [OF assms] by (intro unat_sub_le) (simp add: word_le_nat_alt)
  then show "unat ((mem_end - pool_start s) div PAGE_SIZE) = pool_pages s"
    by (simp add: linked_pool_start [OF assms] unat_div pool_pages_def)
  show "unat (pool_start s) + 4096 * pool_pages s \<le> 0x88000000"
    using linked_unat(3) [OF assms]
    by (simp add: linked_pool_start [OF assms] pool_pages_def)
qed

lemma mm_init_fields:
  "heap_current (mm_init s) = heap_start_sym s"
  "heap_start_sym (mm_init s) = heap_start_sym s"
  "heap_end_sym (mm_init s) = heap_end_sym s"
  "free_pages (mm_init s) = pool_start s"
  "num_free_pages (mm_init s) = (mem_end - pool_start s) div PAGE_SIZE"
  "mem (mm_init s) = link_free_pages (pool_start s) ((mem_end - pool_start s) div PAGE_SIZE) 0 (mem s)"
  by (simp_all add: mm_init_def Let_def kprintf_def pool_start_def)

lemma free_list_mm_init:
  assumes "linked s"
  shows "free_list (mm_init s) = map (nth_page (pool_start s)) [0..<pool_pages s]"
proof -
  let ?n = "(mem_end - pool_start s) div PAGE_SIZE"
  have "unat (pool_start s) + 4096 * unat ?n \<le> 2 ^ 64"
    using unat_pool_pages [OF assms] by simp
  from chain_link_free_pages [OF this, of 0 "mem s"] show ?thesis
    by (simp add: free_list_def mm_init_fields unat_pool_pages [OF assms] nth_page_def
        del: PAGE_SIZE_def)
qed

lemma mm_wf_mm_init:
  assumes "linked s"
  shows "mm_wf (mm_init s)"
proof -
  let ?a = "pool_start s"
  have bound: "unat ?a + 4096 * pool_pages s \<le> 2 ^ 64"
    using unat_pool_pages(2) [OF assms] by simp
  have "managed (mm_init s) (nth_page ?a k)" if "k < pool_pages s" for k
  proof -
    have u: "unat (nth_page ?a k) = unat ?a + 4096 * k"
      by (rule unat_nth_page [OF bound that])
    have "unat ?a + 4096 * k < 0x88000000"
      using unat_pool_pages(2) [OF assms] that by simp
    moreover have "4096 dvd unat ?a" "0 < unat ?a"
      using linked_unat [OF assms] by (simp_all add: linked_pool_start [OF assms] page_aligned_dvd)
    ultimately show ?thesis
      using u by (auto simp: managed_def page_aligned_dvd pool_start_def mm_init_fields
          word_le_nat_alt word_less_nat_alt simp flip: unat_eq_0)
  qed
  moreover have "inj_on (nth_page ?a) {0..<pool_pages s}"
    by (auto simp: inj_on_def nth_page_inject [OF bound])
  ultimately show ?thesis
    by (auto simp: mm_wf_def list_all_iff free_list_mm_init [OF assms] distinct_map)
qed

section \<open>The bump allocator\<close>

definition heap_wf :: "'z mm_state_scheme \<Rightarrow> bool" where
  "heap_wf s \<longleftrightarrow> heap_start_sym s \<le> heap_current s \<and> heap_current s \<le> heap_end_sym s \<and>
     heap_current s mod 8 = 0 \<and> heap_start_sym s \<noteq> NULL \<and> unat (heap_end_sym s) < 2 ^ 63"

text \<open>\<open>size\<close> rounded up to a multiple of 8.\<close>

definition round8 :: "nat \<Rightarrow> nat" where
  "round8 n = (n + 7) div 8 * 8"

lemma round8_bounds: "n \<le> round8 n" "round8 n \<le> n + 7" "8 dvd round8 n" "0 < n \<Longrightarrow> 0 < round8 n"
  unfolding round8_def by presburger+

lemma unat_round8:
  fixes sz :: u64
  assumes "unat sz < 2 ^ 64 - 7"
  shows "unat ((sz + 7) AND NOT 7) = round8 (unat sz)"
proof -
  have "unat (sz + 7) = unat sz + 7"
    using assms by (subst unat_add_small) simp_all
  then show ?thesis by (simp only: unat_and_not_7 round8_def)
qed

text \<open>
  The contract small objects rely on, over the break \<open>brk\<close> and the limit \<open>lim\<close> of the heap, for
  requests below 2 GB: a request that fits returns the old break and moves it past the block, one
  that does not returns null and reserves nothing.
\<close>

locale bump_heap =
  fixes alloc :: "u64 \<Rightarrow> 's \<Rightarrow> addr \<times> 's"
    and brk lim :: "'s \<Rightarrow> nat"
    and inv :: "'s \<Rightarrow> bool"
  assumes brk_le_lim: "inv s \<Longrightarrow> 0 < brk s \<and> brk s \<le> lim s \<and> lim s < 2 ^ 63"
    and alloc_fits: "inv s \<Longrightarrow> sz \<noteq> 0 \<Longrightarrow> unat sz < 2 ^ 31 \<Longrightarrow>
      brk s + round8 (unat sz) \<le> lim s \<Longrightarrow>
      unat (fst (alloc sz s)) = brk s \<and> brk (snd (alloc sz s)) = brk s + round8 (unat sz) \<and>
      lim (snd (alloc sz s)) = lim s \<and> inv (snd (alloc sz s))"
    and alloc_exhausted: "inv s \<Longrightarrow> sz \<noteq> 0 \<Longrightarrow> unat sz < 2 ^ 31 \<Longrightarrow>
      lim s < brk s + round8 (unat sz) \<Longrightarrow>
      fst (alloc sz s) = NULL \<and> brk (snd (alloc sz s)) = brk s \<and>
      lim (snd (alloc sz s)) = lim s \<and> inv (snd (alloc sz s))"
begin

lemma alloc_keeps:
  assumes "inv s" "sz \<noteq> 0" "unat sz < 2 ^ 31"
  shows "inv (snd (alloc sz s))" "lim (snd (alloc sz s)) = lim s"
    "brk s \<le> brk (snd (alloc sz s))"
  using alloc_fits [OF assms] alloc_exhausted [OF assms]
  by (cases "brk s + round8 (unat sz) \<le> lim s"; simp)+

lemma alloc_block:
  assumes "inv s" "sz \<noteq> 0" "unat sz < 2 ^ 31" "fst (alloc sz s) \<noteq> NULL"
  shows "brk s \<le> unat (fst (alloc sz s))"
    "unat (fst (alloc sz s)) + unat sz \<le> brk (snd (alloc sz s))"
    "unat (fst (alloc sz s)) + unat sz \<le> lim s"
proof -
  have "brk s + round8 (unat sz) \<le> lim s"
    using alloc_exhausted [OF assms(1-3)] assms(4) by (meson not_le)
  note f = alloc_fits [OF assms(1-3) this] this
  with round8_bounds(1) [of "unat sz"]
  show "brk s \<le> unat (fst (alloc sz s))"
    "unat (fst (alloc sz s)) + unat sz \<le> brk (snd (alloc sz s))"
    "unat (fst (alloc sz s)) + unat sz \<le> lim s"
    by simp_all
qed

text \<open>Two blocks handed out one after the other do not overlap.\<close>

lemma alloc_alloc_disjoint:
  assumes "inv s" "sz \<noteq> 0" "unat sz < 2 ^ 31" "fst (alloc sz s) = p" "p \<noteq> NULL"
    and "sz' \<noteq> 0" "unat sz' < 2 ^ 31" "fst (alloc sz' (snd (alloc sz s))) = q" "q \<noteq> NULL"
  shows "unat p + unat sz \<le> unat q"
proof -
  from alloc_block(2) [OF assms(1-3)] assms(4,5)
  have "unat p + unat sz \<le> brk (snd (alloc sz s))" by simp
  also from alloc_block(1) [OF alloc_keeps(1) [OF assms(1-3)] assms(6,7)] assms(8,9)
  have "\<dots> \<le> unat q" by simp
  finally show ?thesis .
qed

end

definition heap_brk :: "'z mm_state_scheme \<Rightarrow> nat" where
  "heap_brk s = unat (heap_current s)"

definition heap_lim :: "'z mm_state_scheme \<Rightarrow> nat" where
  "heap_lim s = unat (heap_end_sym s)"

lemma kmalloc_sum:
  fixes sz :: u64
  assumes "heap_wf s" "unat sz < 2 ^ 31"
  shows "unat (heap_current s + ((sz + 7) AND NOT 7)) = unat (heap_current s) + round8 (unat sz)"
proof -
  have r: "unat ((sz + 7) AND NOT 7) = round8 (unat sz)"
    using assms(2) by (intro unat_round8) simp
  have "unat (heap_current s) < 2 ^ 63"
    using assms(1) by (simp add: heap_wf_def word_le_nat_alt)
  with r round8_bounds(2) [of "unat sz"] assms(2)
  have "unat (heap_current s) + unat ((sz + 7) AND NOT 7) < 2 ^ 64" by simp
  then show ?thesis by (simp only: unat_add_small r)
qed

lemma kmalloc_fits:
  assumes "heap_wf s" "sz \<noteq> 0" "unat sz < 2 ^ 31" "heap_brk s + round8 (unat sz) \<le> heap_lim s"
  shows "kmalloc sz s = (heap_current s, s\<lparr>heap_current := heap_current s + ((sz + 7) AND NOT 7)\<rparr>)"
  using assms kmalloc_sum [OF assms(1,3)]
  by (simp add: kmalloc_def heap_brk_def heap_lim_def word_less_nat_alt Let_def)

lemma kmalloc_exhausted:
  assumes "heap_wf s" "sz \<noteq> 0" "unat sz < 2 ^ 31" "heap_lim s < heap_brk s + round8 (unat sz)"
  shows "kmalloc sz s = (NULL, kprintf ''[MM] Heap exhausted!\<newline>'' [] s)"
  using assms kmalloc_sum [OF assms(1,3)]
  by (simp add: kmalloc_def heap_brk_def heap_lim_def word_less_nat_alt Let_def)

lemma heap_wf_kmalloc [wf_pres]:
  assumes "heap_wf s" "sz \<noteq> 0" "unat sz < 2 ^ 31"
  shows "heap_wf (snd (kmalloc sz s))"
proof (cases "heap_brk s + round8 (unat sz) \<le> heap_lim s")
  case True
  let ?c = "heap_current s + ((sz + 7) AND NOT 7)"
  have u: "unat ?c = unat (heap_current s) + round8 (unat sz)"
    by (rule kmalloc_sum [OF assms(1,3)])
  have "8 dvd unat (heap_current s)"
    using assms(1) by (simp add: heap_wf_def mod_eq_0_iff_dvd flip: unat_eq_0 unat_mod_distrib)
      (simp add: unat_mod dvd_eq_mod_eq_0)
  with u round8_bounds(3) have "8 dvd unat ?c" by simp
  then have "?c mod 8 = 0"
    by (simp add: unat_mod dvd_eq_mod_eq_0 flip: unat_eq_0)
  with True u assms(1) show ?thesis
    unfolding kmalloc_fits [OF assms True] heap_wf_def
    by (simp add: word_le_nat_alt heap_brk_def heap_lim_def)
next
  case False
  with assms show ?thesis
    by (simp add: kmalloc_exhausted heap_wf_def kprintf_def)
qed

interpretation bh: bump_heap kmalloc heap_brk heap_lim heap_wf
proof unfold_locales
  fix s :: "'z mm_state_scheme" and sz :: u64
  show "heap_wf s \<Longrightarrow> 0 < heap_brk s \<and> heap_brk s \<le> heap_lim s \<and> heap_lim s < 2 ^ 63"
    by (auto simp: heap_wf_def heap_brk_def heap_lim_def word_le_nat_alt simp flip: unat_eq_0)
  assume s: "heap_wf s" "sz \<noteq> 0" "unat sz < 2 ^ 31"
  show "heap_brk s + round8 (unat sz) \<le> heap_lim s \<Longrightarrow>
      unat (fst (kmalloc sz s)) = heap_brk s \<and>
      heap_brk (snd (kmalloc sz s)) = heap_brk s + round8 (unat sz) \<and>
      heap_lim (snd (kmalloc sz s)) = heap_lim s \<and> heap_wf (snd (kmalloc sz s))"
    using heap_wf_kmalloc [OF s] kmalloc_sum [OF s(1,3)] kmalloc_fits [OF s]
    by (simp add: heap_brk_def heap_lim_def)
  show "heap_lim s < heap_brk s + round8 (unat sz) \<Longrightarrow>
      fst (kmalloc sz s) = NULL \<and> heap_brk (snd (kmalloc sz s)) = heap_brk s \<and>
      heap_lim (snd (kmalloc sz s)) = heap_lim s \<and> heap_wf (snd (kmalloc sz s))"
    using heap_wf_kmalloc [OF s] kmalloc_exhausted [OF s]
    by (simp add: heap_brk_def heap_lim_def kprintf_def)
qed

section \<open>Properties\<close>

text \<open>A concrete image for the witnesses: the heap at \<open>0x80240000\<close>, all other memory zero.\<close>

definition sample_mm :: mm_state where
  "sample_mm = \<lparr>klog = [], csr_sstatus = 0, csr_sie = 0, csr_stvec = 0, csr_sepc = 0,
     csr_scause = 0, csr_stval = 0, csr_satp = 0, sfences = 0, cpu_regs = zero_context,
     heap_start_sym = 0x80240000, heap_end_sym = 0x80640000, free_pages = 0,
     num_free_pages = 0, heap_current = 0, mem = (\<lambda>_. 0)\<rparr>"

lemma sample_linked: "linked sample_mm"
  by (simp add: linked_def sample_mm_def page_aligned_def mem_end_def)

lemma sample_free_list: "free_list (mm_init sample_mm) = map (nth_page 0x80640000) [0..<31168]"
  using free_list_mm_init [OF sample_linked] linked_pool_start [OF sample_linked]
  by (simp add: pool_pages_def sample_mm_def)

lemma sample_pool:
  "mm_wf (mm_init sample_mm)" "length (free_list (mm_init sample_mm)) = 31168"
  by (simp_all add: mm_wf_mm_init [OF sample_linked] sample_free_list)

text \<open>
  C3: After \<open>mm_init\<close> on a linked image the free list is exactly the pages from the end of the heap
  to the end of RAM, in address order, the allocator's invariant holds and the heap is empty.
\<close>

theorem mm_init_builds_pool:
  assumes "linked s"
  shows "free_list (mm_init s) = map (nth_page (heap_end_sym s)) [0..<pool_pages s] \<and>
    mm_wf (mm_init s) \<and> heap_wf (mm_init s) \<and> heap_brk (mm_init s) = unat (heap_start_sym s)"
proof -
  have "heap_wf (mm_init s)"
    using assms linked_unat [OF assms]
    by (auto simp: heap_wf_def mm_init_fields word_le_nat_alt page_aligned_dvd linked_def
        unat_mod simp flip: unat_eq_0 intro: dvd_trans [of 8 4096])
  then show ?thesis
    using assms by (simp add: free_list_mm_init mm_wf_mm_init linked_pool_start heap_brk_def
        mm_init_fields)
qed

theorem mm_init_builds_pool_witness:
  "linked sample_mm \<and> mm_wf (mm_init sample_mm) \<and> heap_wf (mm_init sample_mm) \<and>
   free_list (mm_init sample_mm) = map (nth_page 0x80640000) [0..<31168]"
  using mm_init_builds_pool [OF sample_linked] sample_linked
  by (simp add: sample_mm_def pool_pages_def)

text \<open>
  C4: \<open>n\<close> calls of \<open>alloc_page\<close> in a well-formed state with \<open>n\<close> free pages return \<open>n\<close> distinct
  managed pages in stack order; none of them is left on the free list, every cell of each is zero
  afterwards, no other memory has changed, and the state is well-formed again.
\<close>

theorem alloc_pages_safe:
  assumes "mm_wf s" "n \<le> length (free_list s)" "take_pages alloc_page n s = (ps, t)"
  shows "ps = take n (free_list s) \<and> distinct ps \<and> list_all (managed s) ps \<and>
    free_list t = drop n (free_list s) \<and> set ps \<inter> set (free_list t) = {} \<and> mm_wf t \<and>
    mem t = (\<lambda>a. if \<exists>p \<in> set ps. a \<in> page_cells p then 0 else mem s a)"
proof -
  have ps: "ps = take n (free_list s)" and t: "free_list t = drop n (free_list s)" "mm_wf t"
    using pp.take_pages_pool [OF assms(1,2)] assms(3) by simp_all
  have "distinct (take n (free_list s) @ drop n (free_list s))"
    and m: "list_all (managed s) (take n (free_list s) @ drop n (free_list s))"
    using assms(1) by (simp_all add: mm_wf_def)
  then have "distinct ps" "set ps \<inter> set (free_list t) = {}"
    unfolding distinct_append ps t by simp_all
  moreover from m have "list_all (managed s) ps"
    unfolding list_all_append ps by simp
  moreover have "mem t = (\<lambda>a. if \<exists>p \<in> set ps. a \<in> page_cells p then 0 else mem s a)"
    using pp.take_pages_clear [OF assms(1,2)] assms(3) ps by (simp add: fun_eq_iff)
  ultimately show ?thesis using ps t by simp
qed

theorem alloc_pages_safe_witness:
  "\<exists>ps t. take_pages alloc_page 2 (mm_init sample_mm) = (ps, t) \<and>
     ps = [0x80640000, 0x80641000] \<and> distinct ps \<and> mm_wf t"
proof -
  obtain ps t where pt: "take_pages alloc_page 2 (mm_init sample_mm) = (ps, t)"
    by (cases "take_pages alloc_page 2 (mm_init sample_mm)")
  have "take 2 (free_list (mm_init sample_mm)) = [0x80640000, 0x80641000]"
    by (simp add: sample_free_list take_map take_upt nth_page_def)
  with alloc_pages_safe [OF sample_pool(1) _ pt] sample_pool(2) pt show ?thesis by simp
qed

text \<open>
  With no free page \<open>alloc_page\<close> returns null, reports it on the console and changes nothing
  else; and it returns null in no other well-formed state.
\<close>

theorem alloc_page_null:
  assumes "mm_wf s"
  shows "(fst (alloc_page s) = NULL \<longleftrightarrow> free_list s = []) \<and>
    (free_list s = [] \<longrightarrow> snd (alloc_page s) = kprintf ''[MM] Out of memory!\<newline>'' [] s)"
  using pp.alloc_NULL_iff [OF assms] alloc_page_empty [OF assms] by simp

theorem alloc_page_null_witness:
  "mm_wf sample_mm \<and> fst (alloc_page sample_mm) = NULL"
proof -
  have "mm_wf sample_mm" "free_list sample_mm = []"
    by (simp_all add: mm_wf_def free_list_def sample_mm_def)
  with alloc_page_null [OF this(1)] show ?thesis by simp
qed

text \<open>
  C5: Freeing a page the allocator manages and does not hold puts it on top of the stack: the
  invariant is kept, and the next \<open>alloc_page\<close> returns that page with the rest of the free list as
  it was before.
\<close>

theorem free_alloc_roundtrip:
  assumes "mm_wf s" "managed s p" "p \<notin> set (free_list s)"
  shows "mm_wf (free_page p s) \<and> free_list (free_page p s) = p # free_list s \<and>
    fst (alloc_page (free_page p s)) = p \<and>
    free_list (snd (alloc_page (free_page p s))) = free_list s"
  using pp.release_pushes [OF assms] pp.release_alloc [OF assms] by simp

theorem free_alloc_roundtrip_witness:
  "mm_wf sample_mm \<and> managed sample_mm 0x80700000 \<and>
   fst (alloc_page (free_page 0x80700000 sample_mm)) = 0x80700000"
proof -
  have "mm_wf sample_mm" "managed sample_mm 0x80700000" "0x80700000 \<notin> set (free_list sample_mm)"
    by (simp_all add: mm_wf_def free_list_def sample_mm_def managed_def page_aligned_def
        pool_start_def page_align_up_def mem_end_def)
  with free_alloc_roundtrip [OF this] show ?thesis by simp
qed

text \<open>
  C6: Two successive successful requests to \<open>kmalloc\<close> (below 2 GB) return blocks that lie inside the
  heap, the second entirely above the first, and the heap invariant holds afterwards.
\<close>

theorem kmalloc_blocks:
  assumes "heap_wf s" "sz \<noteq> 0" "unat sz < 2 ^ 31" "kmalloc sz s = (p, t)" "p \<noteq> NULL"
    and "sz' \<noteq> 0" "unat sz' < 2 ^ 31" "kmalloc sz' t = (q, u)" "q \<noteq> NULL"
  shows "unat (heap_start_sym s) \<le> unat p \<and> unat p + unat sz \<le> unat q \<and>
    unat q + unat sz' \<le> unat (heap_end_sym s) \<and> heap_wf u"
proof -
  have t: "heap_wf t" "heap_lim t = heap_lim s"
    using bh.alloc_keeps [OF assms(1-3)] assms(4) by simp_all
  have "unat p + unat sz \<le> unat q"
    using bh.alloc_alloc_disjoint [OF assms(1-3) _ assms(5,6,7) _ assms(9)] assms(4,8) by simp
  moreover have "unat q + unat sz' \<le> heap_lim s" "heap_wf u"
    using bh.alloc_block(3) [OF t(1) assms(6,7)] bh.alloc_keeps(1) [OF t(1) assms(6,7)]
      assms(8,9) t(2) by simp_all
  moreover have "unat (heap_start_sym s) \<le> heap_brk s" "heap_brk s \<le> unat p"
    using assms(1) bh.alloc_block(1) [OF assms(1-3)] assms(4,5)
    by (simp_all add: heap_wf_def heap_brk_def word_le_nat_alt)
  ultimately show ?thesis by (simp add: heap_lim_def)
qed

text \<open>
  A request within 7 bytes of \<open>SIZE_MAX\<close> wraps to size 0 when it is rounded up: \<open>kmalloc\<close>
  returns the current break as if it had succeeded and reserves nothing.
\<close>

theorem kmalloc_wraps:
  assumes "heap_wf s" "sz > - 8"
  shows "kmalloc sz s = (heap_current s, s) \<and> heap_current s \<noteq> NULL"
proof -
  have "unat sz \<ge> 2 ^ 64 - 7"
    using assms(2) by (simp add: word_less_nat_alt)
  then obtain d where d: "unat sz + 7 = 2 ^ 64 + d" "d < 7"
    using unat_lt64 [of sz] by (metis add.commute add_less_cancel_right le_Suc_ex
        le_diff_conv)
  have "unat (sz + 7) = (unat sz + 7) mod 2 ^ 64"
    by (simp add: unat_word_ariths)
  then have "unat (sz + 7) < 8"
    using d by simp
  then have z: "(sz + 7) AND NOT 7 = 0"
    by (simp only: unat_and_not_7 flip: unat_eq_0) simp
  have "sz \<noteq> 0" using assms(2) by auto
  with z assms(1) show ?thesis
    by (auto simp: kmalloc_def heap_wf_def not_less Let_def)
qed

theorem kmalloc_wraps_witness:
  "heap_wf (mm_init sample_mm) \<and> fst (kmalloc (- 1) (mm_init sample_mm)) = 0x80240000"
proof -
  have h: "heap_wf (mm_init sample_mm)"
    by (simp add: heap_wf_def mm_init_fields sample_mm_def)
  with kmalloc_wraps [OF h, of "- 1"] show ?thesis
    by (simp add: mm_init_fields sample_mm_def)
qed

theorem kmalloc_blocks_witness:
  "heap_wf (mm_init sample_mm) \<and> (\<exists>t u. kmalloc 256 (mm_init sample_mm) = (0x80240000, t) \<and>
     kmalloc 512 t = (0x80240100, u) \<and> heap_wf u)"
proof -
  have h: "heap_wf (mm_init sample_mm)"
    by (simp add: heap_wf_def mm_init_fields sample_mm_def)
  obtain p t where t: "kmalloc 256 (mm_init sample_mm) = (p, t)"
    by (cases "kmalloc 256 (mm_init sample_mm)")
  obtain q u where u: "kmalloc 512 t = (q, u)"
    by (cases "kmalloc 512 t")
  have "p = 0x80240000" "q = 0x80240100"
    using t u by (auto simp: kmalloc_def mm_init_fields sample_mm_def)
  with kmalloc_blocks [OF h _ _ t _ _ _ u] h t u show ?thesis by simp
qed

end
