(* ===== verification/Page_Tables.thy ===== *)
theory Page_Tables
  imports Prelude "HOL-Library.Sublist"
begin

text \<open>
  Page-table entries (the macros of \<open>kernel/mm/vm.h\<close>) and the tree of tables that entries in memory
  span: which table a path of indices reaches, which entry an address translates to, and what a
  store into one entry changes.
\<close>

section \<open>Entries\<close>

definition PTE_V :: u64 where [simp]: "PTE_V = 1"
definition PTE_R :: u64 where [simp]: "PTE_R = 2"
definition PTE_W :: u64 where [simp]: "PTE_W = 4"
definition PTE_X :: u64 where [simp]: "PTE_X = 8"
definition PTE_U :: u64 where [simp]: "PTE_U = 16"

definition PA2PTE :: "u64 \<Rightarrow> u64" where
  "PA2PTE pa = push_bit 10 (drop_bit 12 pa)"

definition PTE2PA :: "u64 \<Rightarrow> u64" where
  "PTE2PA pte = push_bit 12 (drop_bit 10 pte)"

definition PTE_VALID :: "u64 \<Rightarrow> bool" where
  "PTE_VALID pte \<longleftrightarrow> pte AND PTE_V \<noteq> 0"

definition PX :: "nat \<Rightarrow> u64 \<Rightarrow> u64" where
  "PX level va = drop_bit (12 + 9 * level) va AND 0x1FF"

lemma PTE_VALID_odd: "PTE_VALID pte \<longleftrightarrow> odd pte"
  by (simp add: PTE_VALID_def and_one_eq odd_iff_mod_2_eq_one)

lemma PTE_VALID_or [simp]: "PTE_VALID (e OR 1)"
  by (simp add: PTE_VALID_odd even_or_iff)

lemma not_PTE_VALID_0 [simp]: "\<not> PTE_VALID 0"
  by (simp add: PTE_VALID_def)

lemma page_aligned_bits: "page_aligned p \<longleftrightarrow> (\<forall>n < 12. \<not> bit p n)"
proof -
  have "page_aligned p \<longleftrightarrow> take_bit 12 p = 0"
    by (simp add: page_aligned_def take_bit_eq_mod)
  also have "\<dots> \<longleftrightarrow> (\<forall>n < 12. \<not> bit p n)"
    by (auto simp: bit_eq_iff bit_take_bit_iff)
  finally show ?thesis .
qed

lemma small_word_bits: "(w :: u64) < 1024 \<Longrightarrow> 10 \<le> n \<Longrightarrow> \<not> bit w n"
proof -
  assume "w < 1024" "10 \<le> n"
  then have "w = take_bit 10 w"
    by (simp add: take_bit_eq_mod word_less_nat_alt word_unat_eq_iff unat_mod)
  with \<open>10 \<le> n\<close> show ?thesis by (metis bit_take_bit_iff not_le)
qed

text \<open>An entry made from a page and flag bits below bit 10 leads back to the page.\<close>

lemma PTE2PA_entry:
  assumes "w < 1024"
  shows "PTE2PA (PA2PTE pa OR w) = pa div 4096 * 4096"
proof -
  have "pa div 4096 * 4096 = push_bit 12 (drop_bit 12 pa)"
    by (simp add: push_bit_eq_mult drop_bit_eq_div)
  moreover have "PTE2PA (PA2PTE pa OR w) = push_bit 12 (drop_bit 12 pa)"
  proof (rule bit_word_eqI)
    fix n assume "n < LENGTH(64)"
    show "bit (PTE2PA (PA2PTE pa OR w)) n = bit (push_bit 12 (drop_bit 12 pa)) n"
    proof (cases "12 \<le> n")
      case True
      then obtain k where "n = 12 + k" using le_Suc_ex by blast
      with small_word_bits [OF assms, of "10 + k"] \<open>n < LENGTH(64)\<close> show ?thesis
        by (simp add: PTE2PA_def PA2PTE_def bit_push_bit_iff bit_drop_bit_eq bit_or_iff)
    next
      case False
      then show ?thesis by (simp add: PTE2PA_def bit_push_bit_iff bit_or_iff)
    qed
  qed
  ultimately show ?thesis by simp
qed

lemma aligned_div_mult: "page_aligned p \<Longrightarrow> p div 4096 * 4096 = p"
  using div_mult_mod_eq [of p 4096] by (simp add: page_aligned_def)

lemma PTE2PA_table: "page_aligned p \<Longrightarrow> PTE2PA (PA2PTE p OR 1) = p"
  by (simp add: PTE2PA_entry aligned_div_mult)

lemma PA2PTE_flags: "(PA2PTE p OR 1) AND (PTE_R OR PTE_W OR PTE_X) = 0"
proof -
  have "PA2PTE p AND 14 = take_bit 4 (PA2PTE p) AND 14"
    by (simp add: take_bit_eq_mask mask_eq_exp_minus_1 and.assoc)
  also have "take_bit 4 (PA2PTE p) = 0"
    by (simp add: PA2PTE_def take_bit_push_bit)
  finally show ?thesis by (simp add: and.commute [of _ 14] bit.conj_disj_distrib)
qed

section \<open>Indices\<close>

text \<open>The index at \<open>level\<close> of the page with virtual page number \<open>v\<close>.\<close>

definition vpn_idx :: "nat \<Rightarrow> nat \<Rightarrow> nat" where
  "vpn_idx level v = v div 512 ^ level mod 512"

lemma vpn_idx_less [simp]: "vpn_idx l v < 512"
  by (simp add: vpn_idx_def)

lemma unat_PX: "unat (PX l va) = vpn_idx l (unat va div 4096)"
proof -
  have "PX l va = take_bit 9 (drop_bit (12 + 9 * l) va)"
    by (simp add: PX_def take_bit_eq_mask mask_eq_exp_minus_1)
  then have "unat (PX l va) = take_bit 9 (drop_bit (12 + 9 * l) (unat va))"
    by (simp add: unsigned_take_bit_eq unsigned_drop_bit_eq take_bit_nat_eq_self [OF unat_lt64])
  also have "\<dots> = unat va div (4096 * 512 ^ l) mod 512"
    by (simp add: take_bit_eq_mod drop_bit_eq_div power_add power_mult)
  finally show ?thesis by (simp add: vpn_idx_def div_mult2_eq)
qed

lemma vpn_idx_inject:
  assumes "v < 2 ^ 27" "w < 2 ^ 27"
    and "vpn_idx 2 v = vpn_idx 2 w" "vpn_idx 1 v = vpn_idx 1 w" "vpn_idx 0 v = vpn_idx 0 w"
  shows "v = w"
proof -
  have "v = (v div 262144 mod 512) * 262144 + (v div 512 mod 512) * 512 + v mod 512"
    if "v < 2 ^ 27" for v :: nat
  proof -
    have "v div 262144 mod 512 = v div 262144" using that by simp
    moreover have "v div 262144 = v div 512 div 512" by (simp add: div_mult2_eq [symmetric])
    ultimately show ?thesis
      using div_mult_mod_eq [of v 512] div_mult_mod_eq [of "v div 512" 512] by linarith
  qed
  from this [OF assms(1)] this [OF assms(2)] assms(3-5) show ?thesis
    by (simp add: vpn_idx_def)
qed

section \<open>The tree of tables\<close>

definition next_table :: "(addr \<Rightarrow> u64) \<Rightarrow> addr \<Rightarrow> nat \<Rightarrow> addr option" where
  "next_table m t i =
     (if PTE_VALID (m (cell t i)) then Some (PTE2PA (m (cell t i))) else None)"

primrec table_at :: "(addr \<Rightarrow> u64) \<Rightarrow> addr \<Rightarrow> nat list \<Rightarrow> addr option" where
  "table_at m r [] = Some r"
| "table_at m r (i # is) = (case next_table m r i of None \<Rightarrow> None | Some t \<Rightarrow> table_at m t is)"

text \<open>The tables of an SV39 tree: the root, and those at depth 1 and 2.\<close>

definition pt_paths :: "nat list set" where
  "pt_paths = {p. length p \<le> 2 \<and> (\<forall>i \<in> set p. i < 512)}"

definition pt_tables :: "(addr \<Rightarrow> u64) \<Rightarrow> addr \<Rightarrow> nat list set" where
  "pt_tables m r = {p \<in> pt_paths. table_at m r p \<noteq> None}"

text \<open>The leaf entry of virtual page \<open>v\<close>, when it is valid.\<close>

definition leaf_path :: "nat \<Rightarrow> nat list" where
  "leaf_path v = [vpn_idx 2 v, vpn_idx 1 v]"

definition translate :: "(addr \<Rightarrow> u64) \<Rightarrow> addr \<Rightarrow> nat \<Rightarrow> u64 option" where
  "translate m r v =
     (case table_at m r (leaf_path v) of
        None \<Rightarrow> None
      | Some t \<Rightarrow> let e = m (cell t (vpn_idx 0 v)) in if PTE_VALID e then Some e else None)"

text \<open>
  Separation: every table is a page in \<open>ok\<close>, different paths lead to different tables, and an
  entry that points to a table has no permission bits.
\<close>

definition pt_sep :: "(addr \<Rightarrow> u64) \<Rightarrow> addr \<Rightarrow> (addr \<Rightarrow> bool) \<Rightarrow> bool" where
  "pt_sep m r ok \<longleftrightarrow>
     (\<forall>p \<in> pt_paths. \<forall>t. table_at m r p = Some t \<longrightarrow> page_aligned t \<and> ok t) \<and>
     (\<forall>p \<in> pt_paths. \<forall>q \<in> pt_paths. \<forall>t. table_at m r p = Some t \<longrightarrow> table_at m r q = Some t \<longrightarrow> p = q) \<and>
     (\<forall>p \<in> pt_paths. \<forall>t. \<forall>i < 512. length p < 2 \<longrightarrow> table_at m r p = Some t \<longrightarrow>
        PTE_VALID (m (cell t i)) \<longrightarrow> m (cell t i) AND (PTE_R OR PTE_W OR PTE_X) = 0)"

lemma leaf_path_pt [simp]: "leaf_path v \<in> pt_paths"
  by (simp add: leaf_path_def pt_paths_def)

lemma pt_paths_Nil [simp]: "[] \<in> pt_paths"
  by (simp add: pt_paths_def)

lemma pt_paths_append: "p @ q \<in> pt_paths \<Longrightarrow> p \<in> pt_paths"
  by (auto simp: pt_paths_def)

lemma finite_pt_paths: "finite pt_paths"
  using finite_lists_length_le [of "{..<512::nat}" 2]
  by (rule rev_finite_subset) (auto simp: pt_paths_def)

lemma finite_pt_tables [simp]: "finite (pt_tables m r)"
  by (rule finite_subset [OF _ finite_pt_paths]) (auto simp: pt_tables_def)

lemma table_at_append:
  "table_at m r (p @ q) = (case table_at m r p of None \<Rightarrow> None | Some t \<Rightarrow> table_at m t q)"
  by (induction p arbitrary: r) (auto split: option.split)

lemma table_at_snoc:
  "table_at m r (p @ [i]) = (case table_at m r p of None \<Rightarrow> None | Some t \<Rightarrow> next_table m t i)"
  by (simp add: table_at_append split: option.split)

lemma pt_sepD:
  assumes "pt_sep m r ok" "p \<in> pt_paths" "table_at m r p = Some t"
  shows "page_aligned t" "ok t" "q \<in> pt_paths \<Longrightarrow> table_at m r q = Some t \<Longrightarrow> p = q"
    "length p < 2 \<Longrightarrow> i < 512 \<Longrightarrow> PTE_VALID (m (cell t i)) \<Longrightarrow>
       m (cell t i) AND (PTE_R OR PTE_W OR PTE_X) = 0"
  using assms unfolding pt_sep_def by blast+

lemma pt_sepI:
  assumes "\<And>p t. p \<in> pt_paths \<Longrightarrow> table_at m r p = Some t \<Longrightarrow> page_aligned t \<and> ok t"
    and "\<And>p q t. p \<in> pt_paths \<Longrightarrow> q \<in> pt_paths \<Longrightarrow> table_at m r p = Some t \<Longrightarrow>
      table_at m r q = Some t \<Longrightarrow> p = q"
    and "\<And>p t i. p \<in> pt_paths \<Longrightarrow> length p < 2 \<Longrightarrow> table_at m r p = Some t \<Longrightarrow> i < 512 \<Longrightarrow>
      PTE_VALID (m (cell t i)) \<Longrightarrow> m (cell t i) AND (PTE_R OR PTE_W OR PTE_X) = 0"
  shows "pt_sep m r ok"
  unfolding pt_sep_def using assms by blast

text \<open>The tree stays separated when its tables and the entries of its inner tables are kept.\<close>

lemma pt_sep_same:
  assumes sep: "pt_sep m r ok" and "\<And>t. ok t \<Longrightarrow> ok' t"
    and tab: "\<And>p. p \<in> pt_paths \<Longrightarrow> table_at m' r p = table_at m r p"
    and ent: "\<And>p t i. p \<in> pt_paths \<Longrightarrow> length p < 2 \<Longrightarrow> table_at m r p = Some t \<Longrightarrow> i < 512 \<Longrightarrow>
      m' (cell t i) = m (cell t i)"
  shows "pt_sep m' r ok'"
proof (rule pt_sepI)
  show "page_aligned t \<and> ok' t" if "p \<in> pt_paths" "table_at m' r p = Some t" for p t
    using that assms(2) pt_sepD(1,2) [OF sep that(1)] tab [OF that(1)] by simp
  show "p = q" if "p \<in> pt_paths" "q \<in> pt_paths" "table_at m' r p = Some t" "table_at m' r q = Some t" for p q t
    using that pt_sepD(3) [OF sep that(1) _ that(2)] tab [OF that(1)] tab [OF that(2)] by simp
  show "m' (cell t i) AND (PTE_R OR PTE_W OR PTE_X) = 0"
    if p: "p \<in> pt_paths" "length p < 2" "table_at m' r p = Some t" "i < 512" "PTE_VALID (m' (cell t i))" for p t i
  proof -
    have t: "table_at m r p = Some t" using p tab by simp
    with pt_sepD(4) [OF sep p(1) t p(2,4)] ent [OF p(1,2) t p(4)] p(5) show ?thesis by simp
  qed
qed

section \<open>Stores\<close>

text \<open>A store that misses every entry of every table leaves the tree as it is.\<close>

lemma table_at_cong:
  assumes "\<And>p' t i. p' \<in> pt_paths \<Longrightarrow> table_at m r p' = Some t \<Longrightarrow> i < 512 \<Longrightarrow> m' (cell t i) = m (cell t i)"
    and "p \<in> pt_paths"
  shows "table_at m' r p = table_at m r p"
  using assms(2)
proof (induction p rule: rev_induct)
  case (snoc i p)
  then have p: "p \<in> pt_paths" and i: "i < 512"
    by (auto simp: pt_paths_def)
  from snoc.IH [OF p] show ?case
    using assms(1) [OF p _ i] by (simp add: table_at_snoc next_table_def split: option.split)
qed simp

lemma translate_cong:
  assumes "\<And>p' t i. p' \<in> pt_paths \<Longrightarrow> table_at m r p' = Some t \<Longrightarrow> i < 512 \<Longrightarrow> m' (cell t i) = m (cell t i)"
  shows "translate m' r = translate m r"
proof
  fix v
  have "table_at m' r (leaf_path v) = table_at m r (leaf_path v)"
    using assms by (rule table_at_cong) simp_all
  with assms [OF leaf_path_pt] show "translate m' r v = translate m r v"
    by (simp add: translate_def Let_def split: option.split)
qed

text \<open>A store into entry \<open>k\<close> of the table at \<open>q\<close> moves only the paths through that entry.\<close>

lemma table_at_store:
  assumes sep: "pt_sep m r ok" and q: "q \<in> pt_paths" "table_at m r q = Some t" and k: "k < 512"
    and p: "p \<in> pt_paths" "\<not> prefix (q @ [k]) p"
  shows "table_at (m(cell t k := e)) r p = table_at m r p"
  using p
proof (induction p rule: rev_induct)
  case (snoc i p)
  then have p: "p \<in> pt_paths" and i: "i < 512" and np: "\<not> prefix (q @ [k]) p"
    by (auto simp: pt_paths_def)
  have "cell t' i \<noteq> cell t k" if t': "table_at m r p = Some t'" for t'
  proof
    assume "cell t' i = cell t k"
    then have "t' = t" "i = k"
      using cell_inject pt_sepD(1) [OF sep p t'] pt_sepD(1) [OF sep q] i k by blast+
    with t' pt_sepD(3) [OF sep q p] have "q @ [k] = p @ [i]" by simp
    with snoc.prems(2) show False by simp
  qed
  with snoc.IH [OF p np] show ?case
    by (simp add: table_at_snoc next_table_def split: option.split)
qed simp

text \<open>The memory after a cleared page \<open>n\<close> has been linked into entry \<open>k\<close> of table \<open>t\<close>.\<close>

definition link_mem :: "(addr \<Rightarrow> u64) \<Rightarrow> addr \<Rightarrow> addr \<Rightarrow> nat \<Rightarrow> addr \<Rightarrow> u64" where
  "link_mem m n t k =
     (\<lambda>a. if a \<in> page_cells n then 0 else m a)(cell t k := PA2PTE n OR PTE_V)"

lemma link_mem_facts:
  assumes sep: "pt_sep m r ok" and q: "q \<in> pt_paths" "length q < 2" "table_at m r q = Some t"
    and k: "k < 512" "\<not> PTE_VALID (m (cell t k))"
    and n: "page_aligned n" "\<forall>p \<in> pt_paths. table_at m r p \<noteq> Some n"
  shows table_at_link: "p \<in> pt_paths \<Longrightarrow>
      table_at (link_mem m n t k) r p = (if p = q @ [k] then Some n else table_at m r p)"
    and entry_link: "p \<in> pt_paths \<Longrightarrow> table_at m r p = Some t' \<Longrightarrow> i < 512 \<Longrightarrow>
      link_mem m n t k (cell t' i) = (if t' = t \<and> i = k then PA2PTE n OR PTE_V else m (cell t' i))"
    and new_entry_link: "i < 512 \<Longrightarrow> link_mem m n t k (cell n i) = 0"
proof -
  let ?m1 = "\<lambda>a. if a \<in> page_cells n then 0 else m a"
  let ?m2 = "link_mem m n t k"
  have same: "?m1 (cell t' i) = m (cell t' i)"
    if "p \<in> pt_paths" "table_at m r p = Some t'" "i < 512" for p t' i
  proof -
    have "t' \<noteq> n" using n(2) that by auto
    with n(1) pt_sepD(1) [OF sep that(1,2)] that(3) show ?thesis by (simp add: page_cells_other)
  qed
  have m1: "table_at ?m1 r p = table_at m r p" if "p \<in> pt_paths" for p
    using same that by (rule table_at_cong)
  then have sep1: "pt_sep ?m1 r ok" using pt_sep_same [OF sep] same by simp
  have tn: "t \<noteq> n" using n(2) q by blast
  have t1: "table_at ?m1 r q = Some t" using m1 [OF q(1)] q(3) by simp
  have t2: "table_at ?m2 r q = Some t"
    unfolding link_mem_def using table_at_store [OF sep1 q(1) t1 k(1) q(1)] t1 by simp
  have new: "table_at ?m2 r (q @ [k]) = Some n"
    using t2 n(1) by (simp add: table_at_snoc next_table_def link_mem_def PTE2PA_table)
  have zero: "?m2 (cell n j) = 0" if "j < 512" for j
    using that tn k(1) n(1) pt_sepD(1) [OF sep q(1,3)] by (simp add: link_mem_def cell_inject)
  then show "i < 512 \<Longrightarrow> ?m2 (cell n i) = 0" .
  show "?m2 (cell t' i) = (if t' = t \<and> i = k then PA2PTE n OR PTE_V else m (cell t' i))"
    if p: "p \<in> pt_paths" "table_at m r p = Some t'" "i < 512"
    using same [OF p] p(3) k(1) pt_sepD(1) [OF sep q(1,3)] pt_sepD(1) [OF sep p(1,2)]
    by (simp add: link_mem_def cell_inject)
  show tab: "table_at ?m2 r p = (if p = q @ [k] then Some n else table_at m r p)"
    if p: "p \<in> pt_paths" for p
  proof (cases "prefix (q @ [k]) p")
    case False
    then show ?thesis
      unfolding link_mem_def using table_at_store [OF sep1 q(1) t1 k(1) p] m1 [OF p] by auto
  next
    case True
    then obtain rest where rest: "p = (q @ [k]) @ rest" by (auto simp: prefix_def)
    show ?thesis
    proof (cases rest)
      case Nil
      with rest new show ?thesis by simp
    next
      case (Cons j js)
      then have "j < 512" using p rest by (auto simp: pt_paths_def)
      then have "table_at ?m2 r p = None"
        using rest Cons new zero [of j] by (simp only: table_at_append) (simp add: next_table_def)
      moreover have "table_at m r (q @ [k]) = None"
        using q k by (simp add: table_at_snoc next_table_def)
      then have "table_at m r p = None"
        using rest by (simp only: table_at_append) simp
      ultimately show ?thesis using rest Cons by simp
    qed
  qed
qed

lemma translate_link:
  assumes sep: "pt_sep m r ok" and q: "q \<in> pt_paths" "length q < 2" "table_at m r q = Some t"
    and k: "k < 512" "\<not> PTE_VALID (m (cell t k))"
    and n: "page_aligned n" "\<forall>p \<in> pt_paths. table_at m r p \<noteq> Some n"
  shows "translate (link_mem m n t k) r = translate m r"
proof
  fix v
  let ?m2 = "link_mem m n t k"
  have old: "table_at m r (q @ [k]) = None"
    using q k by (simp add: table_at_snoc next_table_def)
  have ent: "?m2 (cell t' i) = m (cell t' i)" if "table_at m r (leaf_path v) = Some t'" "i < 512" for t' i
  proof -
    have "t' \<noteq> t"
      using pt_sepD(3) [OF sep q(1,3) leaf_path_pt, of v] that(1) q(2) by (auto simp: leaf_path_def)
    then show ?thesis using entry_link [OF assms leaf_path_pt that] by simp
  qed
  show "translate ?m2 r v = translate m r v"
    using table_at_link [OF assms leaf_path_pt, of v] old new_entry_link [OF assms] ent
    by (auto simp: translate_def Let_def split: option.split)
qed

lemma pt_sep_link:
  assumes sep: "pt_sep m r ok" and q: "q \<in> pt_paths" "length q < 2" "table_at m r q = Some t"
    and k: "k < 512" "\<not> PTE_VALID (m (cell t k))"
    and n: "page_aligned n" "\<forall>p \<in> pt_paths. table_at m r p \<noteq> Some n"
    and ok: "ok' n" "\<forall>t'. ok t' \<longrightarrow> t' \<noteq> n \<longrightarrow> ok' t'"
  shows "pt_sep (link_mem m n t k) r ok'"
proof -
  note tab = table_at_link [OF sep q k n]
  show ?thesis
  proof (rule pt_sepI)
    fix p t' assume p: "p \<in> pt_paths" "table_at (link_mem m n t k) r p = Some t'"
    then show "page_aligned t' \<and> ok' t'"
      using tab [OF p(1)] n ok pt_sepD(1,2) [OF sep p(1)] by (auto split: if_splits)
    fix i assume l: "length p < 2" "i < 512" "PTE_VALID (link_mem m n t k (cell t' i))"
    with new_entry_link [OF sep q k n, of i] have "t' \<noteq> n" by auto
    with p tab [OF p(1)] have p': "table_at m r p = Some t'" by (auto split: if_splits)
    show "link_mem m n t k (cell t' i) AND (PTE_R OR PTE_W OR PTE_X) = 0"
      using entry_link [OF sep q k n p(1) p' l(2)] pt_sepD(4) [OF sep p(1) p' l(1,2)] l(3)
        PA2PTE_flags [of n] by (auto split: if_splits)
  next
    fix p p' t' assume p: "p \<in> pt_paths" "p' \<in> pt_paths"
      "table_at (link_mem m n t k) r p = Some t'" "table_at (link_mem m n t k) r p' = Some t'"
    then show "p = p'"
      using tab [OF p(1)] tab [OF p(2)] n(2) pt_sepD(3) [OF sep p(1) _ p(2)]
      by (auto split: if_splits)
  qed
qed

text \<open>Tables of the tree after linking.\<close>

lemma pt_tables_link:
  assumes sep: "pt_sep m r ok" and q: "q \<in> pt_paths" "length q < 2" "table_at m r q = Some t"
    and k: "k < 512" "\<not> PTE_VALID (m (cell t k))"
    and n: "page_aligned n" "\<forall>p \<in> pt_paths. table_at m r p \<noteq> Some n"
  shows "pt_tables (link_mem m n t k) r = insert (q @ [k]) (pt_tables m r)"
    and "q @ [k] \<notin> pt_tables m r"
proof -
  have "q @ [k] \<in> pt_paths" using q(1,2) k(1) by (auto simp: pt_paths_def)
  then show "pt_tables (link_mem m n t k) r = insert (q @ [k]) (pt_tables m r)"
    using table_at_link [OF sep q k n] by (auto simp: pt_tables_def)
  show "q @ [k] \<notin> pt_tables m r"
    using q k by (simp add: pt_tables_def table_at_snoc next_table_def)
qed

text \<open>A store into the leaf entry of page \<open>v\<close> changes the translation of \<open>v\<close> only.\<close>

lemma leaf_store_facts:
  assumes sep: "pt_sep m r ok" and t: "table_at m r (leaf_path v) = Some t"
  shows table_at_leaf_store: "p \<in> pt_paths \<Longrightarrow>
      table_at (m(cell t (vpn_idx 0 v) := e)) r p = table_at m r p"
    and translate_leaf_store: "v < 2 ^ 27 \<Longrightarrow> w < 2 ^ 27 \<Longrightarrow>
      translate (m(cell t (vpn_idx 0 v) := e)) r w =
        (if w = v then if PTE_VALID e then Some e else None else translate m r w)"
proof -
  let ?m = "m(cell t (vpn_idx 0 v) := e)"
  show tab: "table_at ?m r p = table_at m r p" if "p \<in> pt_paths" for p
  proof (rule table_at_store [OF sep leaf_path_pt t vpn_idx_less that])
    show "\<not> prefix (leaf_path v @ [vpn_idx 0 v]) p"
      using that by (auto simp: leaf_path_def pt_paths_def dest: prefix_length_le)
  qed
  assume vw: "v < 2 ^ 27" "w < 2 ^ 27"
  show "translate ?m r w =
      (if w = v then if PTE_VALID e then Some e else None else translate m r w)"
  proof (cases "w = v")
    case True
    with t tab [OF leaf_path_pt, of v] show ?thesis by (simp add: translate_def)
  next
    case False
    have "cell t' (vpn_idx 0 w) \<noteq> cell t (vpn_idx 0 v)"
      if t': "table_at m r (leaf_path w) = Some t'" for t'
    proof
      assume "cell t' (vpn_idx 0 w) = cell t (vpn_idx 0 v)"
      then have "t' = t" "vpn_idx 0 w = vpn_idx 0 v"
        using cell_inject pt_sepD(1) [OF sep leaf_path_pt t'] pt_sepD(1) [OF sep leaf_path_pt t]
          vpn_idx_less by blast+
      with pt_sepD(3) [OF sep leaf_path_pt t leaf_path_pt, of w] t' have "leaf_path v = leaf_path w"
        by simp
      with vpn_idx_inject [OF vw] \<open>vpn_idx 0 w = vpn_idx 0 v\<close> False show False
        by (simp add: leaf_path_def)
    qed
    with False tab [OF leaf_path_pt, of w] show ?thesis
      by (simp add: translate_def split: option.split)
  qed
qed

end
