(* ===== verification/Vm.thy ===== *)
theory Vm
  imports Mm Page_Tables
begin

text \<open>
  SV39 virtual memory (\<open>kernel/mm/vm.c\<close>, \<open>kernel/mm/vm.h\<close>): three-level page tables kept in
  allocated pages, with all operations; then what the walk that finds or creates the entry of an
  address, mapping, unmapping and translation do to a table.
\<close>

section \<open>Constants\<close>

definition SATP_SV39 :: u64 where "SATP_SV39 = push_bit 60 8"
definition PGSIZE :: u64 where [simp]: "PGSIZE = 4096"
definition MAXVA :: u64 where "MAXVA = push_bit (9 + 9 + 9 + 12 - 1) 1"
definition KERNBASE :: u64 where "KERNBASE = 0x80000000"
definition PHYSTOP :: u64 where "PHYSTOP = KERNBASE + 128 * 1024 * 1024"

section \<open>State and operations\<close>

record vm_state = mm_state +
  kernel_pagetable :: addr

text \<open>
  \<open>walk\<close>: the loop from level 2 down to level 1, then the address of the leaf entry; null when the
  address is out of range, a table is missing and may not be created, or memory is exhausted.
\<close>

fun walk_loop :: "nat \<Rightarrow> addr \<Rightarrow> u64 \<Rightarrow> bool \<Rightarrow> 'z mm_state_scheme \<Rightarrow> addr \<times> 'z mm_state_scheme" where
  "walk_loop 0 pagetable va alloc s = (cell pagetable (unat (PX 0 va)), s)"
| "walk_loop (Suc l) pagetable va alloc s =
     (let pte = cell pagetable (unat (PX (Suc l) va)) in
      if PTE_VALID (mem s pte) then walk_loop l (PTE2PA (mem s pte)) va alloc s
      else if \<not> alloc then (NULL, s)
      else let (pagetable', s') = alloc_page s in
           if pagetable' = NULL then (NULL, s')
           else walk_loop l pagetable' va alloc
                  (store_word pte (PA2PTE pagetable' OR PTE_V) s'))"

definition walk :: "addr \<Rightarrow> u64 \<Rightarrow> bool \<Rightarrow> 'z mm_state_scheme \<Rightarrow> addr \<times> 'z mm_state_scheme" where
  "walk pagetable va alloc s =
     (if va \<ge> MAXVA then (NULL, s) else walk_loop 2 pagetable va alloc s)"

lemma unat_MAXVA: "unat MAXVA = 2 ^ 38"
  by (simp add: MAXVA_def)

lemma walk_in_range: "fst (walk pt va al s) \<noteq> NULL \<Longrightarrow> unat va < 2 ^ 38"
  by (auto simp: walk_def word_le_nat_alt unat_MAXVA split: if_splits)

lemma next_page_unat: "unat a < 2 ^ 38 \<Longrightarrow> unat (a + 4096 :: u64) = unat a + 4096"
  by (subst unat_add_small) simp_all

lemma walk_progress:
  "walk pt a al s = (pte, t) \<Longrightarrow> pte \<noteq> NULL \<Longrightarrow> unat a < 2 ^ 38 \<and> unat (a + 4096) = unat a + 4096"
  using walk_in_range [of pt a al s] next_page_unat [of a] by simp

text \<open>
  The mapping loop of \<open>mappages\<close>. It ends because \<open>walk\<close> returns null once the address leaves
  the range below \<open>MAXVA\<close>.
\<close>

function mappages_loop ::
  "addr \<Rightarrow> u64 \<Rightarrow> u64 \<Rightarrow> u64 \<Rightarrow> u32 \<Rightarrow> 'z mm_state_scheme \<Rightarrow> (int, 'z mm_state_scheme) outcome" where
  "mappages_loop pagetable a last_va pa perm s =
     (let (pte, s1) = walk pagetable a True s in
      if pte = NULL then Ret (- 1) s1
      else if PTE_VALID (mem s1 pte) then panic ''mappages: remap'' s1
      else let s2 = store_word pte (PA2PTE pa OR scast perm OR PTE_V) s1 in
           if a = last_va then Ret 0 s2
           else mappages_loop pagetable (a + PGSIZE) last_va (pa + PGSIZE) perm s2)"
  by pat_completeness auto
termination
  by (relation "measure (\<lambda>(pt, a, last_va, pa, perm, s). 2 ^ 38 + 4096 - unat a)")
    (auto dest!: walk_progress [OF sym])

declare mappages_loop.simps [simp del]

definition mappages ::
  "addr \<Rightarrow> u64 \<Rightarrow> u64 \<Rightarrow> u64 \<Rightarrow> u32 \<Rightarrow> 'z mm_state_scheme \<Rightarrow> (int, 'z mm_state_scheme) outcome" where
  "mappages pagetable va sz pa perm s =
     (if sz = 0 then panic ''mappages: size is zero'' s
      else let a = va div PGSIZE * PGSIZE;
               last_va = (va + sz - 1) div PGSIZE * PGSIZE
           in mappages_loop pagetable a last_va pa perm s)"

function unmappages_loop ::
  "addr \<Rightarrow> u64 \<Rightarrow> u64 \<Rightarrow> 'z mm_state_scheme \<Rightarrow> (unit, 'z mm_state_scheme) outcome" where
  "unmappages_loop pagetable a last_va s =
     (let (pte, s1) = walk pagetable a False s in
      if pte = NULL \<or> \<not> PTE_VALID (mem s1 pte) then panic ''unmappages: not mapped'' s1
      else let s2 = store_word pte 0 s1 in
           if a = last_va then Ret () s2
           else unmappages_loop pagetable (a + PGSIZE) last_va s2)"
  by pat_completeness auto
termination
  by (relation "measure (\<lambda>(pt, a, last_va, s). 2 ^ 38 + 4096 - unat a)")
    (auto dest!: walk_progress [OF sym])

declare unmappages_loop.simps [simp del]

definition unmappages ::
  "addr \<Rightarrow> u64 \<Rightarrow> u64 \<Rightarrow> 'z mm_state_scheme \<Rightarrow> (unit, 'z mm_state_scheme) outcome" where
  "unmappages pagetable va sz s =
     (if sz = 0 then Ret () s
      else let a = va div PGSIZE * PGSIZE;
               last_va = (va + sz - 1) div PGSIZE * PGSIZE
           in unmappages_loop pagetable a last_va s)"

definition walkaddr :: "addr \<Rightarrow> u64 \<Rightarrow> 'z mm_state_scheme \<Rightarrow> u64" where
  "walkaddr pagetable va s =
     (if va \<ge> MAXVA then 0
      else let (pte, s1) = walk pagetable va False s in
           if pte = NULL \<or> \<not> PTE_VALID (mem s1 pte) then 0 else PTE2PA (mem s1 pte))"

definition pa2va :: "u64 \<Rightarrow> addr" where
  "pa2va pa = pa"

definition va2pa :: "addr \<Rightarrow> u64 \<Rightarrow> 'z mm_state_scheme \<Rightarrow> u64" where
  "va2pa pagetable va s =
     (let (pte, s1) = walk pagetable va False s in
      if pte = NULL \<or> \<not> PTE_VALID (mem s1 pte) then 0
      else PTE2PA (mem s1 pte) + (va AND (PGSIZE - 1)))"

definition vm_create_user_pagetable :: "'z mm_state_scheme \<Rightarrow> addr \<times> 'z mm_state_scheme" where
  "vm_create_user_pagetable s =
     (let (pagetable, s1) = alloc_page s in
      if pagetable = NULL then (NULL, s1) else (pagetable, s1))"

definition vm_create_kernel_pagetable :: "'z vm_state_scheme \<Rightarrow> addr" where
  "vm_create_kernel_pagetable s = kernel_pagetable s"

text \<open>
  \<open>vm_free\<close> recurses into every valid entry without permission bits. \<open>depth\<close> bounds the recursion:
  \<open>None\<close> when the tables are nested deeper than that. \<open>vm_free_loop\<close> is the loop over the entries
  \<open>i, \<dots>, 511\<close>, with \<open>k\<close> entries to go.
\<close>

fun vm_free :: "nat \<Rightarrow> addr \<Rightarrow> 'z mm_state_scheme \<Rightarrow> 'z mm_state_scheme option"
  and vm_free_loop :: "nat \<Rightarrow> nat \<Rightarrow> nat \<Rightarrow> addr \<Rightarrow> 'z mm_state_scheme \<Rightarrow> 'z mm_state_scheme option"
where
  "vm_free 0 pagetable s = None"
| "vm_free (Suc depth) pagetable s =
     (case vm_free_loop depth 512 0 pagetable s of
        None \<Rightarrow> None
      | Some s' \<Rightarrow> Some (free_page pagetable s'))"
| "vm_free_loop depth 0 i pagetable s = Some s"
| "vm_free_loop depth (Suc k) i pagetable s =
     (let pte = mem s (cell pagetable i) in
      if PTE_VALID pte \<and> pte AND (PTE_R OR PTE_W OR PTE_X) = 0
      then (case vm_free depth (PTE2PA pte) s of
              None \<Rightarrow> None
            | Some s' \<Rightarrow> vm_free_loop depth k (Suc i) pagetable s')
      else vm_free_loop depth k (Suc i) pagetable s)"

text \<open>One \<open>mappages\<close> call of \<open>kvminit\<close>, with the panic on failure.\<close>

definition kvm_map ::
  "u64 \<Rightarrow> u64 \<Rightarrow> u64 \<Rightarrow> string \<Rightarrow> 'z vm_state_scheme \<Rightarrow> (unit, 'z vm_state_scheme) outcome" where
  "kvm_map va sz perm msg s =
     obind (mappages (kernel_pagetable s) va sz va (ucast perm) s)
       (\<lambda>r s. if r \<noteq> 0 then panic msg s else Ret () s)"

definition kvminit :: "'z vm_state_scheme \<Rightarrow> (unit, 'z vm_state_scheme) outcome" where
  "kvminit s =
     (let (pt, s) = alloc_page s; s = s\<lparr>kernel_pagetable := pt\<rparr> in
      if pt = NULL then panic ''kvminit: alloc_page failed'' s
      else
        let s = kprintf ''[VM] Created kernel page table at %p\<newline>'' [Num pt] s in
        obind (kvm_map KERNBASE (PHYSTOP - KERNBASE) (PTE_R OR PTE_W OR PTE_X)
                 ''kvminit: mappages failed for kernel'' s) (\<lambda>_ s.
        obind (kvm_map 0x10000000 PGSIZE (PTE_R OR PTE_W)
                 ''kvminit: mappages failed for UART'' s) (\<lambda>_ s.
        obind (kvm_map 0x0C000000 0x4000000 (PTE_R OR PTE_W)
                 ''kvminit: mappages failed for PLIC'' s) (\<lambda>_ s.
        obind (kvm_map 0x02000000 0x10000 (PTE_R OR PTE_W)
                 ''kvminit: mappages failed for CLINT'' s) (\<lambda>_ s.
        Ret () (kprintf ''[VM] Kernel page table initialized\<newline>'' [] s))))))"

definition vm_init :: "'z vm_state_scheme \<Rightarrow> (unit, 'z vm_state_scheme) outcome" where
  "vm_init s = kvminit (kprintf ''[VM] Initializing SV39 virtual memory\<newline>'' [] s)"

definition kvminithart :: "'z vm_state_scheme \<Rightarrow> 'z vm_state_scheme" where
  "kvminithart s =
     (let satp = SATP_SV39 OR drop_bit 12 (kernel_pagetable s)
      in kprintf ''[VM] Switched to SV39 paging mode\<newline>'' [] (sfence_vma (w_satp satp s)))"

section \<open>Growing a tree of tables\<close>

text \<open>A page table is well-formed: separated tables in pages that are in use.\<close>

definition pt_wf :: "'z mm_state_scheme \<Rightarrow> addr \<Rightarrow> bool" where
  "pt_wf s r \<longleftrightarrow> pt_sep (mem s) r (\<lambda>t. managed s t \<and> t \<notin> set (free_list s))"

text \<open>Only the allocator's variables, the cells and the console differ.\<close>

definition mm_only :: "'z mm_state_scheme \<Rightarrow> 'z mm_state_scheme \<Rightarrow> bool" where
  "mm_only s s' \<longleftrightarrow> s' = s\<lparr>klog := klog s', free_pages := free_pages s',
     num_free_pages := num_free_pages s', mem := mem s'\<rparr>"

text \<open>A cell that belongs neither to a table of \<open>r\<close> nor to a free page.\<close>

definition outside :: "'z mm_state_scheme \<Rightarrow> addr \<Rightarrow> addr \<Rightarrow> bool" where
  "outside s r a \<longleftrightarrow>
     (\<forall>p \<in> pt_paths. \<forall>t. table_at (mem s) r p = Some t \<longrightarrow> a \<notin> page_cells t) \<and>
     (\<forall>f \<in> set (free_list s). a \<notin> page_cells f)"

text \<open>
  \<open>pt_grows r P s s'\<close>: from \<open>s\<close> to \<open>s'\<close> the tree at \<open>r\<close> has only gained tables, at paths of \<open>P\<close>, each
  in a page taken from the free list; nothing else has changed.
\<close>

definition pt_grows :: "addr \<Rightarrow> nat list set \<Rightarrow> 'z mm_state_scheme \<Rightarrow> 'z mm_state_scheme \<Rightarrow> bool" where
  "pt_grows r P s s' \<longleftrightarrow> mm_wf s' \<and> pt_wf s' r \<and> mm_only s s' \<and>
     (\<forall>p \<in> pt_paths. \<forall>t. table_at (mem s) r p = Some t \<longrightarrow> table_at (mem s') r p = Some t) \<and>
     (\<forall>p \<in> pt_paths. \<forall>t. table_at (mem s') r p = Some t \<longrightarrow>
        table_at (mem s) r p = Some t \<or> p \<in> P \<and> t \<in> set (free_list s)) \<and>
     length (free_list s') + card (pt_tables (mem s') r) =
       length (free_list s) + card (pt_tables (mem s) r) \<and>
     set (free_list s') \<subseteq> set (free_list s) \<and>
     (\<forall>a. outside s r a \<longrightarrow> mem s' a = mem s a)"

lemma mm_only_refl: "mm_only s s"
  by (simp add: mm_only_def)

lemma mm_only_trans:
  assumes "mm_only s s'" "mm_only s' s''"
  shows "mm_only s s''"
proof -
  have "s'' = s'\<lparr>klog := klog s'', free_pages := free_pages s'',
      num_free_pages := num_free_pages s'', mem := mem s''\<rparr>"
    using assms(2) by (simp add: mm_only_def)
  also have "\<dots> = s\<lparr>klog := klog s'', free_pages := free_pages s'',
      num_free_pages := num_free_pages s'', mem := mem s''\<rparr>"
    by (subst assms(1) [unfolded mm_only_def]) simp
  finally show ?thesis by (simp add: mm_only_def)
qed

lemma mm_only_managed: "mm_only s s' \<Longrightarrow> managed s' = managed s"
proof (rule managed_frame)
  assume "mm_only s s'"
  then have "heap_end_sym s' = heap_end_sym (s\<lparr>klog := klog s', free_pages := free_pages s',
      num_free_pages := num_free_pages s', mem := mem s'\<rparr>)"
    unfolding mm_only_def by (rule arg_cong)
  then show "heap_end_sym s' = heap_end_sym s" by simp
qed

lemma mm_only_ops:
  "mm_only s (kprintf f as s)" "mm_only s (snd (alloc_page s))" "mm_only s (store_word a v s)"
  by (simp_all add: mm_only_def state_updates alloc_page_def Let_def)

lemma pt_grows_refl: "mm_wf s \<Longrightarrow> pt_wf s r \<Longrightarrow> pt_grows r P s s"
  by (simp add: pt_grows_def mm_only_refl)

lemma pt_grows_mono: "pt_grows r P s s' \<Longrightarrow> P \<subseteq> Q \<Longrightarrow> pt_grows r Q s s'"
  unfolding pt_grows_def by blast

lemma pt_grows_outside: "pt_grows r P s s' \<Longrightarrow> outside s r a \<Longrightarrow> outside s' r a"
  unfolding pt_grows_def outside_def by blast

lemma pt_grows_trans:
  assumes 1: "pt_grows r P s s'" and 2: "pt_grows r P s' s''"
  shows "pt_grows r P s s''"
proof -
  have "mem s'' a = mem s a" if "outside s r a" for a
    using 1 2 that pt_grows_outside [OF 1 that] by (simp add: pt_grows_def)
  moreover have "mm_only s s''"
    using 1 2 mm_only_trans by (auto simp: pt_grows_def)
  ultimately show ?thesis
    using 1 2 unfolding pt_grows_def by (simp add: subset_iff) blast
qed

lemma pt_grows_log:
  assumes "mm_wf s" "pt_wf s r"
  shows "pt_grows r P s (kprintf f as s)"
proof -
  have "free_list (kprintf f as s) = free_list s" "mem (kprintf f as s) = mem s"
    by (simp_all add: free_list_def kprintf_def)
  moreover have "managed (kprintf f as s) = managed s"
    by (rule mm_only_managed [OF mm_only_ops(1)])
  ultimately show ?thesis
    using assms by (simp add: pt_grows_def mm_only_ops pt_wf_def mm_wf_def)
qed

text \<open>One new table: \<open>alloc_page\<close> and the store of the entry that points to it.\<close>

lemma pt_grows_link:
  assumes wf: "mm_wf s" "pt_wf s r" and fl: "free_list s = n # ps"
    and q: "q \<in> pt_paths" "length q < 2" "table_at (mem s) r q = Some t"
    and k: "k < 512" "\<not> PTE_VALID (mem s (cell t k))"
  defines "s' \<equiv> store_word (cell t k) (PA2PTE n OR PTE_V) (snd (alloc_page s))"
  shows "pt_grows r {q @ [k]} s s' \<and> table_at (mem s') r (q @ [k]) = Some n \<and>
    translate (mem s') r = translate (mem s) r"
proof -
  let ?s1 = "snd (alloc_page s)"
  have sep: "pt_sep (mem s) r (\<lambda>t. managed s t \<and> t \<notin> set (free_list s))"
    using wf(2) by (simp add: pt_wf_def)
  have n: "page_aligned n" "managed s n" "n \<notin> set ps"
    using mm_wf_Cons [OF wf(1) fl] by (simp_all add: managed_page)
  have fresh: "\<forall>p \<in> pt_paths. table_at (mem s) r p \<noteq> Some n"
    using pt_sepD(2) [OF sep] fl by fastforce
  have t: "page_aligned t" "t \<notin> set ps"
    using pt_sepD(1,2) [OF sep q(1,3)] fl by simp_all
  have m': "mem s' = link_mem (mem s) n t k"
    using pp.alloc_clears [OF wf(1) fl]
    by (simp add: s'_def link_mem_def pp.store_rd fun_eq_iff)
  have s1: "mm_wf ?s1" "free_list ?s1 = ps"
    using pp.alloc_inv [OF wf(1)] pp.alloc_pops [OF wf(1) fl] by simp_all
  have s': "mm_wf s'" "free_list s' = ps"
    using pp.store_in_page [OF s1(1) t(1) _ k(1)] s1(2) t(2) by (simp_all add: s'_def)
  have only: "mm_only s s'"
    unfolding s'_def by (rule mm_only_trans [OF mm_only_ops(2) mm_only_ops(3)])
  have "pt_wf s' r"
    unfolding pt_wf_def m' s'(2) mm_only_managed [OF only]
    using n fl by (intro pt_sep_link [OF sep q k n(1) fresh]) auto
  moreover note tab = table_at_link [OF sep q k n(1) fresh] and tabs = pt_tables_link [OF sep q k n(1) fresh]
  moreover have "q @ [k] \<in> pt_paths" using q k(1) by (auto simp: pt_paths_def)
  moreover have "mem s' a = mem s a" if "outside s r a" for a
  proof -
    have "a \<notin> page_cells n" "a \<notin> page_cells t"
      using that fl q(1,3) by (auto simp: outside_def)
    moreover then have "a \<noteq> cell t k" using k(1) by auto
    ultimately show ?thesis by (simp add: m' link_mem_def)
  qed
  moreover have "\<forall>p \<in> pt_paths. \<forall>t. table_at (mem s) r p = Some t \<longrightarrow> p \<noteq> q @ [k]"
    using tabs(2) by (auto simp: pt_tables_def)
  ultimately show ?thesis
    using s' only fl translate_link [OF sep q k n(1) fresh]
    by (auto simp: pt_grows_def m' split: if_splits)
qed

section \<open>The walk\<close>

text \<open>The tables a walk to page \<open>v\<close> may create, and its path down to depth \<open>d\<close>.\<close>

definition walk_paths :: "nat \<Rightarrow> nat list set" where
  "walk_paths v = {take 1 (leaf_path v), leaf_path v}"

definition path_to :: "nat \<Rightarrow> nat \<Rightarrow> nat list" where
  "path_to v d = take d (leaf_path v)"

lemma path_to_Suc: "d < 2 \<Longrightarrow> path_to v (Suc d) = path_to v d @ [vpn_idx (2 - d) v]"
  by (auto simp: path_to_def leaf_path_def less_Suc_eq numeral_2_eq_2)

lemma path_to_pt: "path_to v d \<in> pt_paths" "length (path_to v d) = min d 2"
  by (auto simp: path_to_def leaf_path_def pt_paths_def dest!: in_set_takeD)

lemma path_to_simps: "path_to v 0 = []" "path_to v 2 = leaf_path v"
  "path_to v (Suc 0) \<in> walk_paths v" "path_to v (Suc (Suc 0)) \<in> walk_paths v"
  by (simp_all add: path_to_def leaf_path_def walk_paths_def)

lemma path_to_missing:
  assumes "table_at m r (path_to v (Suc d)) = None" "d < 2"
  shows "table_at m r (leaf_path v) = None"
proof -
  have "leaf_path v = path_to v (Suc d) @ drop (Suc d) (leaf_path v)"
    by (simp add: path_to_def)
  then show ?thesis using assms(1) by (metis table_at_append option.case(1))
qed

text \<open>Without creation the walk reads the tree and changes nothing.\<close>

lemma walk_loop_lookup:
  assumes "d + l = 2" "table_at (mem s) r (path_to v d) = Some t" "v = unat va div 4096"
  shows "walk_loop l t va False s =
    ((case table_at (mem s) r (leaf_path v) of None \<Rightarrow> NULL | Some t \<Rightarrow> cell t (vpn_idx 0 v)), s)"
  using assms(1,2)
proof (induction l arbitrary: d t)
  case 0
  then show ?case by (simp add: path_to_simps unat_PX assms(3))
next
  case (Suc l)
  let ?k = "vpn_idx (Suc l) v"
  have d: "d < 2" "2 - d = Suc l" "Suc d + l = 2" using Suc.prems(1) by simp_all
  have nxt: "table_at (mem s) r (path_to v (Suc d)) = next_table (mem s) t ?k"
    using Suc.prems(2) by (simp add: path_to_Suc [OF d(1)] d(2) table_at_snoc)
  show ?case
  proof (cases "PTE_VALID (mem s (cell t ?k))")
    case True
    with nxt Suc.IH [OF d(3)] show ?thesis by (simp add: unat_PX assms(3) next_table_def)
  next
    case False
    with nxt have "table_at (mem s) r (path_to v (Suc d)) = None"
      by (simp add: next_table_def)
    from path_to_missing [OF this d(1)] False show ?thesis
      by (simp add: unat_PX assms(3))
  qed
qed

lemma walk_lookup:
  assumes "unat va < 2 ^ 38"
  shows "walk r va False s =
    ((case table_at (mem s) r (leaf_path (unat va div 4096)) of
        None \<Rightarrow> NULL | Some t \<Rightarrow> cell t (vpn_idx 0 (unat va div 4096))), s)"
proof -
  have "\<not> va \<ge> MAXVA" using assms by (simp add: word_le_nat_alt unat_MAXVA)
  then show ?thesis
    using walk_loop_lookup [of 0 2 s r _ r va] by (simp add: walk_def path_to_simps)
qed

text \<open>
  With creation: the tree grows by the missing tables of the path, no translation changes, and the
  result is the address of the leaf entry, or null with the free list empty and the leaf table
  missing.
\<close>

definition walked :: "addr \<Rightarrow> nat \<Rightarrow> 'z mm_state_scheme \<Rightarrow> addr \<times> 'z mm_state_scheme \<Rightarrow> bool" where
  "walked r v s res \<longleftrightarrow> (case res of (pte, s') \<Rightarrow>
     pt_grows r (walk_paths v) s s' \<and> translate (mem s') r = translate (mem s) r \<and>
     (case table_at (mem s') r (leaf_path v) of
        None \<Rightarrow> pte = NULL \<and> free_list s' = []
      | Some t \<Rightarrow> pte = cell t (vpn_idx 0 v) \<and> pte \<noteq> NULL))"

lemma walk_loop_create:
  assumes "d + l = 2" "table_at (mem s) r (path_to v d) = Some t" "v = unat va div 4096"
    and "mm_wf s" "pt_wf s r"
  shows "walked r v s (walk_loop l t va True s)"
  using assms(1,2,4,5)
proof (induction l arbitrary: d t s)
  case 0
  have sep: "pt_sep (mem s) r (\<lambda>t. managed s t \<and> t \<notin> set (free_list s))"
    using "0.prems" by (simp add: pt_wf_def)
  have t: "table_at (mem s) r (leaf_path v) = Some t"
    using "0.prems" by (simp add: path_to_simps)
  have "cell t (vpn_idx 0 v) \<noteq> NULL"
    using pt_sepD(1,2) [OF sep leaf_path_pt t] managed_page(2) by (intro cell_nonzero) auto
  with "0.prems" t show ?case
    by (simp add: walked_def pt_grows_refl unat_PX assms(3))
next
  case (Suc l)
  let ?k = "vpn_idx (Suc l) v"
  have d: "d < 2" "2 - d = Suc l" "Suc d + l = 2" using Suc.prems(1) by simp_all
  have pd: "path_to v (Suc d) = path_to v d @ [?k]" using path_to_Suc [OF d(1)] d(2) by simp
  have nxt: "table_at (mem s) r (path_to v (Suc d)) = next_table (mem s) t ?k"
    using Suc.prems(2) by (simp add: pd table_at_snoc)
  show ?case
  proof (cases "PTE_VALID (mem s (cell t ?k))")
    case True
    with nxt Suc.IH [OF d(3) _ Suc.prems(3,4)] show ?thesis
      by (simp add: unat_PX assms(3) next_table_def)
  next
    case False
    show ?thesis
    proof (cases "free_list s")
      case Nil
      have "table_at (mem s) r (leaf_path v) = None"
        using nxt False path_to_missing [OF _ d(1)] by (simp add: next_table_def)
      with False show ?thesis
        using pt_grows_log [OF Suc.prems(3,4)] Nil
        by (simp add: unat_PX assms(3) alloc_page_empty [OF Suc.prems(3) Nil] walked_def
            free_list_def kprintf_def)
    next
      case (Cons n ps)
      let ?s' = "store_word (cell t ?k) (PA2PTE n OR PTE_V) (snd (alloc_page s))"
      have n: "fst (alloc_page s) = n" "n \<noteq> NULL"
        using pp.alloc_pops [OF Suc.prems(3) Cons] mm_wf_Cons(1) [OF Suc.prems(3) Cons]
        by (simp_all add: managed_page)
      have link: "pt_grows r {path_to v (Suc d)} s ?s'"
        "table_at (mem ?s') r (path_to v (Suc d)) = Some n"
        "translate (mem ?s') r = translate (mem s) r"
        using pt_grows_link [OF Suc.prems(3,4) Cons path_to_pt(1) _ Suc.prems(2) vpn_idx_less False] d(1)
        by (simp_all add: pd path_to_pt)
      have "path_to v (Suc d) \<in> walk_paths v"
        using d(1) path_to_simps by (cases d) (auto simp: less_Suc_eq numeral_2_eq_2)
      then have g: "pt_grows r (walk_paths v) s ?s'"
        using pt_grows_mono [OF link(1)] by simp
      then have "walked r v ?s' (walk_loop l n va True ?s')"
        using Suc.IH [OF d(3) link(2)] by (simp add: pt_grows_def)
      with g link(3) have "walked r v s (walk_loop l n va True ?s')"
        by (auto simp: walked_def intro: pt_grows_trans split: prod.splits)
      moreover have "walk_loop (Suc l) t va True s = walk_loop l n va True ?s'"
        using False n by (simp add: unat_PX assms(3) case_prod_beta)
      ultimately show ?thesis by simp
    qed
  qed
qed

lemma walk_create:
  assumes "unat va < 2 ^ 38" "mm_wf s" "pt_wf s r"
  shows "walked r (unat va div 4096) s (walk r va True s)"
proof -
  have "\<not> va \<ge> MAXVA" using assms(1) by (simp add: word_le_nat_alt unat_MAXVA)
  then show ?thesis
    using walk_loop_create [of 0 2 s r _ r va] assms by (simp add: walk_def path_to_simps)
qed

section \<open>Mapping a range\<close>

definition leaf_entry :: "u64 \<Rightarrow> u32 \<Rightarrow> u64" where
  "leaf_entry pa perm = PA2PTE pa OR scast perm OR PTE_V"

text \<open>The tables that the pages \<open>v, \<dots>, v + n - 1\<close> need, and whether the free list can supply them.\<close>

definition range_paths :: "nat \<Rightarrow> nat \<Rightarrow> nat list set" where
  "range_paths v n = (\<Union>w \<in> {v..<v + n}. walk_paths w)"

definition room :: "nat list set \<Rightarrow> addr \<Rightarrow> 'z mm_state_scheme \<Rightarrow> bool" where
  "room P r s \<longleftrightarrow>
     card (P \<union> pt_tables (mem s) r) \<le> length (free_list s) + card (pt_tables (mem s) r)"

lemma walk_paths_pt: "walk_paths v \<subseteq> pt_paths"
  by (auto simp: walk_paths_def leaf_path_def pt_paths_def)

lemma range_paths_pt: "range_paths v n \<subseteq> pt_paths"
  using walk_paths_pt by (auto simp: range_paths_def)

lemma walk_paths_range: "v \<le> w \<Longrightarrow> w < v + n \<Longrightarrow> walk_paths w \<subseteq> range_paths v n"
  by (auto simp: range_paths_def)

lemma pt_grows_tables:
  assumes "pt_grows r P s s'"
  shows "pt_tables (mem s) r \<subseteq> pt_tables (mem s') r" "pt_tables (mem s') r \<subseteq> P \<union> pt_tables (mem s) r"
  using assms unfolding pt_grows_def pt_tables_def by blast+

lemma room_grows:
  assumes "pt_grows r P s s'" "room P r s"
  shows "room P r s'"
proof -
  have "P \<union> pt_tables (mem s') r = P \<union> pt_tables (mem s) r"
    using pt_grows_tables [OF assms(1)] by blast
  with assms show ?thesis by (simp add: room_def pt_grows_def)
qed

text \<open>With room for its tables a walk finds the leaf entry.\<close>

lemma walk_create_room:
  assumes "unat va < 2 ^ 38" "mm_wf s" "pt_wf s r" "v = unat va div 4096"
    and "room P r s" "walk_paths v \<subseteq> P" "P \<subseteq> pt_paths"
  obtains s1 t where "walk r va True s = (cell t (vpn_idx 0 v), s1)" "cell t (vpn_idx 0 v) \<noteq> NULL"
    "pt_grows r P s s1" "translate (mem s1) r = translate (mem s) r"
    "table_at (mem s1) r (leaf_path v) = Some t"
proof -
  obtain pte s1 where w: "walk r va True s = (pte, s1)" by (cases "walk r va True s")
  have wk: "walked r v s (pte, s1)"
    using walk_create [OF assms(1-3)] w assms(4) by simp
  then have g: "pt_grows r P s s1"
    by (auto simp: walked_def intro: pt_grows_mono [OF _ assms(6)])
  have "table_at (mem s1) r (leaf_path v) \<noteq> None"
  proof
    assume none: "table_at (mem s1) r (leaf_path v) = None"
    with wk have "free_list s1 = []" by (simp add: walked_def)
    with room_grows [OF g assms(5)]
    have "card (P \<union> pt_tables (mem s1) r) \<le> card (pt_tables (mem s1) r)"
      by (simp add: room_def)
    moreover have "finite (P \<union> pt_tables (mem s1) r)"
      using assms(7) finite_pt_paths by (auto intro: finite_subset)
    ultimately have "P \<subseteq> pt_tables (mem s1) r"
      by (metis card_seteq sup_ge2 sup_ge1)
    then have "leaf_path v \<in> pt_tables (mem s1) r"
      using assms(6) by (auto simp: walk_paths_def)
    with none show False by (simp add: pt_tables_def)
  qed
  with wk g w that show thesis by (auto simp: walked_def)
qed

text \<open>A store into a leaf entry keeps the tree.\<close>

lemma pt_grows_leaf_store:
  assumes "mm_wf s" "pt_wf s r" "table_at (mem s) r (leaf_path v) = Some t"
  shows "pt_grows r P s (store_word (cell t (vpn_idx 0 v)) e s)"
proof -
  let ?s' = "store_word (cell t (vpn_idx 0 v)) e s"
  have sep: "pt_sep (mem s) r (\<lambda>t. managed s t \<and> t \<notin> set (free_list s))"
    using assms(2) by (simp add: pt_wf_def)
  have t: "page_aligned t" "t \<notin> set (free_list s)"
    using pt_sepD [OF sep leaf_path_pt assms(3)] by auto
  have s': "mm_wf ?s'" "free_list ?s' = free_list s"
    using pp.store_in_page [OF assms(1) t vpn_idx_less] by simp_all
  have m': "mem ?s' = (mem s)(cell t (vpn_idx 0 v) := e)"
    by (simp add: pp.store_rd)
  have tab: "table_at (mem ?s') r p = table_at (mem s) r p" if "p \<in> pt_paths" for p
    unfolding m' using table_at_leaf_store [OF sep assms(3) that] .
  then have "pt_tables (mem ?s') r = pt_tables (mem s) r"
    by (auto simp: pt_tables_def)
  moreover have "pt_wf ?s' r"
    unfolding pt_wf_def s'(2) mm_only_managed [OF mm_only_ops(3)]
  proof (rule pt_sep_same [OF sep _ tab])
    fix p t' and i :: nat assume p: "p \<in> pt_paths" "length p < 2" "table_at (mem s) r p = Some t'" "i < 512"
    then have "t' \<noteq> t" using pt_sepD(3) [OF sep p(1,3) leaf_path_pt] assms(3) by (auto simp: leaf_path_def)
    then show "mem ?s' (cell t' i) = mem s (cell t' i)"
      using t(1) pt_sepD(1) [OF sep p(1,3)] p(4) by (simp add: m' cell_inject)
  qed
  moreover have "mem ?s' a = mem s a" if "outside s r a" for a
  proof -
    have "a \<notin> page_cells t" using that assms(3) leaf_path_pt by (auto simp: outside_def)
    then have "a \<noteq> cell t (vpn_idx 0 v)" by auto
    then show ?thesis by (simp add: m')
  qed
  ultimately show ?thesis
    using s' tab by (simp add: pt_grows_def mm_only_ops)
qed

lemma leaf_entry_valid [simp]: "PTE_VALID (leaf_entry pa perm)"
  by (simp add: leaf_entry_def or.assoc [symmetric])

text \<open>One turn of the mapping loop, on an unmapped page with room for its tables.\<close>

lemma mappages_loop_step:
  assumes "mm_wf s" "pt_wf s r" "room P r s" "walk_paths v \<subseteq> P" "P \<subseteq> pt_paths"
    and "unat a = 4096 * v" "v < 2 ^ 26" "translate (mem s) r v = None"
  obtains s' where "mappages_loop r a last_va pa perm s =
      (if a = last_va then Ret 0 s' else mappages_loop r (a + PGSIZE) last_va (pa + PGSIZE) perm s')"
    "pt_grows r P s s'"
    "\<And>x. x < 2 ^ 27 \<Longrightarrow> translate (mem s') r x =
       (if x = v then Some (leaf_entry pa perm) else translate (mem s) r x)"
proof -
  have va: "unat a < 2 ^ 38" "v = unat a div 4096" "v < 2 ^ 27"
    using assms(6,7) by simp_all
  obtain s1 t where w: "walk r a True s = (cell t (vpn_idx 0 v), s1)" "cell t (vpn_idx 0 v) \<noteq> NULL"
    and g1: "pt_grows r P s s1" and tr1: "translate (mem s1) r = translate (mem s) r"
    and t: "table_at (mem s1) r (leaf_path v) = Some t"
    using walk_create_room [OF va(1) assms(1,2) va(2) assms(3-5)] by blast
  let ?s2 = "store_word (cell t (vpn_idx 0 v)) (leaf_entry pa perm) s1"
  have "translate (mem s1) r v = None" using assms(8) tr1 by simp
  with t have inv: "\<not> PTE_VALID (mem s1 (cell t (vpn_idx 0 v)))"
    by (auto simp: translate_def Let_def split: if_splits)
  have wf1: "mm_wf s1" "pt_wf s1 r" using g1 by (simp_all add: pt_grows_def)
  show thesis
  proof (rule that)
    show "mappages_loop r a last_va pa perm s = (if a = last_va then Ret 0 ?s2
        else mappages_loop r (a + PGSIZE) last_va (pa + PGSIZE) perm ?s2)"
      by (subst mappages_loop.simps) (simp add: w inv leaf_entry_def)
    show "pt_grows r P s ?s2"
      by (rule pt_grows_trans [OF g1 pt_grows_leaf_store [OF wf1 t]])
    show "translate (mem ?s2) r x =
        (if x = v then Some (leaf_entry pa perm) else translate (mem s) r x)" if "x < 2 ^ 27" for x
      using translate_leaf_store [OF wf1(2) [unfolded pt_wf_def] t va(3), of x "leaf_entry pa perm"]
        that by (simp add: pp.store_rd tr1)
  qed
qed

lemma page_shift:
  "Suc v \<le> w \<Longrightarrow> pa + PGSIZE + of_nat (w - Suc v) * 4096 = pa + of_nat (w - v) * 4096"
proof -
  assume "Suc v \<le> w"
  then have "w - v = Suc (w - Suc v)" by simp
  then show ?thesis by (simp add: algebra_simps)
qed

lemma mappages_loop_ok:
  assumes "mm_wf s" "pt_wf s r" "room P r s" "range_paths v n \<subseteq> P" "P \<subseteq> pt_paths"
    and "unat a = 4096 * v" "unat last_va = 4096 * (v + n - 1)" "0 < n" "v + n \<le> 2 ^ 26"
    and "\<forall>w. v \<le> w \<longrightarrow> w < v + n \<longrightarrow> translate (mem s) r w = None"
  shows "\<exists>s'. mappages_loop r a last_va pa perm s = Ret 0 s' \<and> pt_grows r P s s' \<and>
    (\<forall>w < 2 ^ 27. translate (mem s') r w =
       (if v \<le> w \<and> w < v + n then Some (leaf_entry (pa + of_nat (w - v) * 4096) perm)
        else translate (mem s) r w))"
  using assms
proof (induction n arbitrary: v a pa s)
  case (Suc n)
  note p = Suc.prems
  have "walk_paths v \<subseteq> P" using p(4) walk_paths_range [of v v "Suc n"] by auto
  then obtain s2 where step: "mappages_loop r a last_va pa perm s = (if a = last_va then Ret 0 s2
      else mappages_loop r (a + PGSIZE) last_va (pa + PGSIZE) perm s2)"
    and g2: "pt_grows r P s s2" and tr2: "\<And>x. x < 2 ^ 27 \<Longrightarrow> translate (mem s2) r x =
       (if x = v then Some (leaf_entry pa perm) else translate (mem s) r x)"
    using mappages_loop_step [OF p(1-3) _ p(5,6), of last_va pa perm] p(9,10) by auto
  show ?case
  proof (cases n)
    case 0
    then have "a = last_va" using p(6,7) by (simp add: word_unat_eq_iff)
    with step g2 tr2 0 show ?thesis by auto
  next
    case (Suc n')
    have ne: "a \<noteq> last_va" using Suc p(6,7) by auto
    have wf2: "mm_wf s2" "pt_wf s2 r" using g2 by (simp_all add: pt_grows_def)
    have "unat (a + PGSIZE) = 4096 * Suc v"
      using p(6,9) next_page_unat [of a] by simp
    moreover have "range_paths (Suc v) n \<subseteq> P"
      using p(4) by (force simp: range_paths_def)
    moreover have "\<forall>w. Suc v \<le> w \<longrightarrow> w < Suc v + n \<longrightarrow> translate (mem s2) r w = None"
      using p(9,10) tr2 by auto
    ultimately obtain s' where s':
      "mappages_loop r (a + PGSIZE) last_va (pa + PGSIZE) perm s2 = Ret 0 s'" "pt_grows r P s2 s'"
      and tr': "\<And>w. w < 2 ^ 27 \<Longrightarrow> translate (mem s') r w = (if Suc v \<le> w \<and> w < Suc v + n
           then Some (leaf_entry (pa + PGSIZE + of_nat (w - Suc v) * 4096) perm)
           else translate (mem s2) r w)"
      using Suc.IH [OF wf2 room_grows [OF g2 p(3)] _ p(5), of "Suc v" "a + PGSIZE" "pa + PGSIZE"]
        p(7,9) Suc by auto
    have "translate (mem s') r w =
        (if v \<le> w \<and> w < v + Suc n then Some (leaf_entry (pa + of_nat (w - v) * 4096) perm)
         else translate (mem s) r w)" if "w < 2 ^ 27" for w
      using tr' [OF that] tr2 [OF that] page_shift [of v w pa] by (auto simp: le_Suc_eq)
    then show ?thesis
      using step ne s' pt_grows_trans [OF g2 s'(2)] by auto
  qed
qed simp

section \<open>Reading translations\<close>

lemma or_small: "(x :: u64) < 1024 \<Longrightarrow> y < 1024 \<Longrightarrow> x OR y < 1024"
proof -
  assume "x < 1024" "y < 1024"
  then have "take_bit 10 x = x" "take_bit 10 y = y"
    by (simp_all add: take_bit_eq_mod word_less_nat_alt word_unat_eq_iff unat_mod)
  then have "take_bit 10 (x OR y) = x OR y" by (simp add: take_bit_or)
  then have "unat (x OR y) mod 1024 = unat (x OR y)"
    by (simp add: take_bit_eq_mod word_unat_eq_iff unat_mod)
  then have "unat (x OR y) < 1024"
    by (metis mod_less_divisor zero_less_numeral)
  then show ?thesis by (simp add: word_less_nat_alt)
qed

lemma scast_small: "(perm :: u32) < 1024 \<Longrightarrow> (scast perm :: u64) < 1024"
proof -
  assume p: "perm < 1024"
  then have u: "uint perm < 1024" by (simp add: word_less_alt)
  have "sint perm = uint perm"
    unfolding sint_uint
  proof (rule signed_take_bit_int_eq_self)
    show "- (2 ^ (LENGTH(32) - Suc 0)) \<le> uint perm"
      by (rule order_trans [OF _ unsigned_greater_eq]) simp
  qed (use u in simp)
  then have "(scast perm :: u64) = word_of_int (uint perm)"
    by (simp only: scast_eq)
  then show ?thesis
    using u take_bit_int_less_eq_self_iff [of 64 "uint perm"]
    by (simp add: word_less_alt unsigned_ucast_eq)
qed

lemma PTE2PA_leaf_entry:
  "perm < 1024 \<Longrightarrow> PTE2PA (leaf_entry pa perm) = pa div 4096 * 4096"
  unfolding leaf_entry_def or.assoc by (rule PTE2PA_entry) (simp add: or_small scast_small)

lemma walkaddr_translate:
  assumes "pt_wf s r" "unat va < 2 ^ 38"
  shows "walkaddr r va s = (case translate (mem s) r (unat va div 4096) of None \<Rightarrow> 0 | Some e \<Rightarrow> PTE2PA e)"
proof -
  have "\<not> va \<ge> MAXVA" using assms by (simp add: word_le_nat_alt unat_MAXVA)
  moreover have "cell t (vpn_idx 0 v) \<noteq> NULL" if "table_at (mem s) r (leaf_path v) = Some t" for t v
    using pt_sepD(1,2) [OF assms(1) [unfolded pt_wf_def] leaf_path_pt that] managed_page(2)
    by (intro cell_nonzero) auto
  ultimately show ?thesis
    by (auto simp: walkaddr_def walk_lookup [OF assms(2)] translate_def Let_def split: option.split)
qed

lemma va2pa_translate:
  assumes "pt_wf s r" "unat va < 2 ^ 38"
  shows "va2pa r va s = (case translate (mem s) r (unat va div 4096) of None \<Rightarrow> 0
    | Some e \<Rightarrow> PTE2PA e + (va AND 0xFFF))"
proof -
  have "cell t (vpn_idx 0 v) \<noteq> NULL" if "table_at (mem s) r (leaf_path v) = Some t" for t v
    using pt_sepD(1,2) [OF assms(1) [unfolded pt_wf_def] leaf_path_pt that] managed_page(2)
    by (intro cell_nonzero) auto
  then show ?thesis
    by (auto simp: va2pa_def walk_lookup [OF assms(2)] translate_def Let_def split: option.split)
qed

section \<open>Mapping never disturbs what is mapped\<close>

definition only_new :: "(nat \<Rightarrow> u64 \<Rightarrow> bool) \<Rightarrow> addr \<Rightarrow> 'z mm_state_scheme \<Rightarrow> 'z mm_state_scheme \<Rightarrow> bool" where
  "only_new R r s s' \<longleftrightarrow> (\<forall>x < 2 ^ 27. translate (mem s') r x = translate (mem s) r x \<or>
     translate (mem s) r x = None \<and> (\<exists>e. translate (mem s') r x = Some e \<and> R x e))"

lemma only_new_eq: "translate (mem s') r = translate (mem s) r \<Longrightarrow> only_new R r s s'"
  by (simp add: only_new_def)

lemma only_new_trans: "only_new R r s s' \<Longrightarrow> only_new R r s' s'' \<Longrightarrow> only_new R r s s''"
  unfolding only_new_def by (metis option.distinct(1))

lemma only_new_mono: "only_new R r s s' \<Longrightarrow> (\<And>x e. R x e \<Longrightarrow> R' x e) \<Longrightarrow> only_new R' r s s'"
  unfolding only_new_def by blast

text \<open>Entries the loop from page \<open>v\<close> to page \<open>l\<close> may add.\<close>

definition new_entry :: "nat \<Rightarrow> nat \<Rightarrow> u32 \<Rightarrow> nat \<Rightarrow> u64 \<Rightarrow> bool" where
  "new_entry v l perm x e \<longleftrightarrow> v \<le> x \<and> (v \<le> l \<longrightarrow> x \<le> l) \<and> (\<exists>pa. e = leaf_entry pa perm)"

lemma panic_state:
  "mem (end_state (panic m s)) = mem s" "mm_wf s \<Longrightarrow> pt_wf s r \<Longrightarrow> pt_grows r P s (end_state (panic m s))"
proof -
  show "mem (end_state (panic m s)) = mem s" by (simp add: panic_def kprintf_def)
  show "pt_grows r P s (end_state (panic m s))" if "mm_wf s" "pt_wf s r"
  proof -
    have "pt_grows r P s (kprintf f as t)" if "pt_grows r P s t" for f as t
    proof (rule pt_grows_trans [OF that pt_grows_log])
      show "mm_wf t" "pt_wf t r" using that by (simp_all add: pt_grows_def)
    qed
    then show ?thesis
      using that by (simp add: panic_def pt_grows_refl)
  qed
qed

text \<open>One turn of the loop ends it or moves on to the next page; either way only page \<open>v\<close> is new.\<close>

lemma mappages_turn:
  fixes s :: "'a mm_state_scheme"
  assumes wf: "mm_wf s" "pt_wf s r" and a: "unat a = 4096 * v"
  obtains s2 where "pt_grows r pt_paths s s2" "only_new (new_entry v v perm) r s s2" "a \<noteq> last_va" "v < 2 ^ 26"
      "mappages_loop r a last_va pa perm s = mappages_loop r (a + PGSIZE) last_va (pa + PGSIZE) perm s2"
  | "pt_grows r pt_paths s (end_state (mappages_loop r a last_va pa perm s))"
    "only_new (new_entry v v perm) r s (end_state (mappages_loop r a last_va pa perm s))"
proof -
  obtain pte s1 where w: "walk r a True s = (pte, s1)" by (cases "walk r a True s")
  have out: "pte = NULL \<and> s1 = s" if "\<not> unat a < 2 ^ 38"
    using that w by (auto simp: walk_def word_le_nat_alt unat_MAXVA split: if_splits)
  have wk: "unat a < 2 ^ 38 \<Longrightarrow> walked r v s (pte, s1)"
    using walk_create [OF _ wf, of a] w a by simp
  then have "pt_grows r pt_paths s s1 \<and> translate (mem s1) r = translate (mem s) r"
    using out wf pt_grows_mono [OF _ walk_paths_pt] pt_grows_refl [OF wf]
    by (cases "unat a < 2 ^ 38") (auto simp: walked_def)
  then have g1: "pt_grows r pt_paths s s1" and t1: "only_new R r s s1"
    and wf1: "mm_wf s1" "pt_wf s1 r" for R by (auto simp: only_new_eq pt_grows_def)
  let ?p = "panic ''mappages: remap'' s1 :: (int, 'a mm_state_scheme) outcome"
  show thesis
  proof (cases "pte = NULL \<or> PTE_VALID (mem s1 pte)")
    case True
    then have "end_state (mappages_loop r a last_va pa perm s) \<in> {s1, end_state ?p}"
      by (subst mappages_loop.simps) (auto simp: w)
    moreover have "pt_grows r pt_paths s (end_state ?p)" "only_new R r s (end_state ?p)" for R
      using t1 [of R] pt_grows_trans [OF g1 panic_state(2) [OF wf1]]
      by (simp_all add: only_new_def panic_state)
    ultimately show ?thesis using g1 t1 that(2) by auto
  next
    case False
    then have v: "unat a < 2 ^ 38" "v < 2 ^ 26" using out a by auto
    from wk [OF v(1)] False obtain t
      where t: "table_at (mem s1) r (leaf_path v) = Some t" "pte = cell t (vpn_idx 0 v)"
      by (auto simp: walked_def split: option.splits)
    let ?e = "PA2PTE pa OR scast perm OR PTE_V"
    let ?s2 = "store_word pte ?e s1"
    have g2: "pt_grows r pt_paths s ?s2"
      unfolding t(2) by (rule pt_grows_trans [OF g1 pt_grows_leaf_store [OF wf1 t(1)]])
    have "translate (mem s1) r v = None"
      using False t by (simp add: translate_def)
    then have o2: "only_new (new_entry v v perm) r s ?s2"
      using translate_leaf_store [OF wf1(2) [unfolded pt_wf_def] t(1), of _ ?e] v(2)
      by (intro only_new_trans [OF t1]) (auto simp: only_new_def t(2) pp.store_rd new_entry_def leaf_entry_def)
    have "mappages_loop r a last_va pa perm s = (if a = last_va then Ret 0 ?s2
        else mappages_loop r (a + PGSIZE) last_va (pa + PGSIZE) perm ?s2)"
      using w False by (subst mappages_loop.simps) simp
    then show ?thesis using that g2 o2 v(2) by (cases "a = last_va") auto
  qed
qed

lemma mappages_loop_frame:
  assumes "mm_wf s" "pt_wf s r" "unat a = 4096 * v" "unat last_va = 4096 * l"
  shows "pt_grows r pt_paths s (end_state (mappages_loop r a last_va pa perm s)) \<and>
    only_new (new_entry v l perm) r s (end_state (mappages_loop r a last_va pa perm s))"
  using assms
proof (induction "2 ^ 26 - v" arbitrary: v a pa s rule: less_induct)
  case less
  note p = less.prems
  have here: "new_entry v l perm x e" if "new_entry v v perm x e" for x e
    using that by (simp add: new_entry_def)
  from p(1-3) show ?case
  proof (cases rule: mappages_turn [where last_va = last_va and pa = pa and perm = perm])
    case (1 s2)
    let ?r = "mappages_loop r (a + PGSIZE) last_va (pa + PGSIZE) perm s2"
    have "unat (a + PGSIZE) = 4096 * Suc v"
      using p(3) 1(4) next_page_unat [of a] by simp
    moreover have "mm_wf s2" "pt_wf s2 r" using 1(1) by (simp_all add: pt_grows_def)
    ultimately have ih: "pt_grows r pt_paths s2 (end_state ?r)"
      "only_new (new_entry (Suc v) l perm) r s2 (end_state ?r)"
      using less.hyps [of "Suc v" s2 "a + PGSIZE" "pa + PGSIZE"] p(4) 1(4) by simp_all
    have "v \<noteq> l" using 1(3) p(3,4) by (auto simp: word_unat_eq_iff)
    then have "new_entry (Suc v) l perm x e \<Longrightarrow> new_entry v l perm x e" for x e
      by (auto simp: new_entry_def)
    then have "only_new (new_entry v l perm) r s (end_state ?r)"
      using only_new_trans [OF only_new_mono [OF 1(2) here] only_new_mono [OF ih(2)]] by simp
    then show ?thesis using pt_grows_trans [OF 1(1) ih(1)] 1(5) by simp
  next
    case 2
    then show ?thesis using only_new_mono [OF 2(2) here] by simp
  qed
qed

section \<open>Unmapping a range\<close>

lemma unmappages_turn:
  assumes wf: "mm_wf s" "pt_wf s r" and a: "unat a = 4096 * v" "v < 2 ^ 26"
  shows "translate (mem s) r v = None \<Longrightarrow>
      unmappages_loop r a last_va s = panic ''unmappages: not mapped'' s"
    and "translate (mem s) r v = Some e \<Longrightarrow> \<exists>s2. pt_grows r P s s2 \<and>
      (\<forall>x < 2 ^ 27. translate (mem s2) r x = (if x = v then None else translate (mem s) r x)) \<and>
      unmappages_loop r a last_va s =
        (if a = last_va then Ret () s2 else unmappages_loop r (a + PGSIZE) last_va s2)"
proof -
  have va: "unat a < 2 ^ 38" "v = unat a div 4096" "v < 2 ^ 27" using a by simp_all
  note w = walk_lookup [OF va(1), of r s, folded va(2)]
  have nz: "cell t (vpn_idx 0 v) \<noteq> NULL" if "table_at (mem s) r (leaf_path v) = Some t" for t
    using pt_sepD(1,2) [OF wf(2) [unfolded pt_wf_def] leaf_path_pt that] managed_page(2)
    by (intro cell_nonzero) auto
  show "unmappages_loop r a last_va s = panic ''unmappages: not mapped'' s"
    if "translate (mem s) r v = None"
    using that by (subst unmappages_loop.simps)
      (auto simp: w translate_def Let_def split: option.splits if_splits)
  assume some: "translate (mem s) r v = Some e"
  then obtain t where t: "table_at (mem s) r (leaf_path v) = Some t" "PTE_VALID (mem s (cell t (vpn_idx 0 v)))"
    by (auto simp: translate_def Let_def split: option.splits if_splits)
  let ?s2 = "store_word (cell t (vpn_idx 0 v)) 0 s"
  have "pt_grows r P s ?s2" by (rule pt_grows_leaf_store [OF wf t(1)])
  moreover have "\<forall>x < 2 ^ 27. translate (mem ?s2) r x = (if x = v then None else translate (mem s) r x)"
    using translate_leaf_store [OF wf(2) [unfolded pt_wf_def] t(1), of _ 0] va(3)
    by (simp add: pp.store_rd)
  moreover have "unmappages_loop r a last_va s =
      (if a = last_va then Ret () ?s2 else unmappages_loop r (a + PGSIZE) last_va ?s2)"
    using t nz [OF t(1)] by (subst unmappages_loop.simps) (simp add: w)
  ultimately show "\<exists>s2. pt_grows r P s s2 \<and>
      (\<forall>x < 2 ^ 27. translate (mem s2) r x = (if x = v then None else translate (mem s) r x)) \<and>
      unmappages_loop r a last_va s =
        (if a = last_va then Ret () s2 else unmappages_loop r (a + PGSIZE) last_va s2)" by blast
qed

text \<open>
  The pages before the first one that is not mapped are unmapped; the loop returns when there is
  no such page in the range and panics there otherwise.
\<close>

lemma unmappages_loop_range:
  assumes "mm_wf s" "pt_wf s r" "unat a = 4096 * v" "unat last_va = 4096 * (v + n - 1)" "0 < n"
    "v + n \<le> 2 ^ 26" "m \<le> n" "\<forall>w. v \<le> w \<longrightarrow> w < v + m \<longrightarrow> translate (mem s) r w \<noteq> None"
    "m < n \<longrightarrow> translate (mem s) r (v + m) = None"
  shows "\<exists>s'. unmappages_loop r a last_va s =
      (if m = n then Ret () s' else panic ''unmappages: not mapped'' s') \<and> pt_grows r P s s' \<and>
    (\<forall>x < 2 ^ 27. translate (mem s') r x =
       (if v \<le> x \<and> x < v + m then None else translate (mem s) r x))"
  using assms
proof (induction n arbitrary: v a s m)
  case (Suc n)
  note p = Suc.prems
  have v: "v < 2 ^ 26" using p(6) by simp
  show ?case
  proof (cases m)
    case 0
    with p unmappages_turn(1) [OF p(1-3) v] pt_grows_refl [OF p(1,2)] show ?thesis by auto
  next
    case (Suc m')
    then obtain e where "translate (mem s) r v = Some e" using p(8) by fastforce
    then obtain s2 where g2: "pt_grows r P s s2"
      and tr2: "\<And>x. x < 2 ^ 27 \<Longrightarrow> translate (mem s2) r x = (if x = v then None else translate (mem s) r x)"
      and step: "unmappages_loop r a last_va s =
        (if a = last_va then Ret () s2 else unmappages_loop r (a + PGSIZE) last_va s2)"
      using unmappages_turn(2) [OF p(1-3) v, of e P last_va] by auto
    show ?thesis
    proof (cases n)
      case 0
      then have "a = last_va" using p(3,4) by (simp add: word_unat_eq_iff)
      with step g2 tr2 0 Suc p(7) show ?thesis by auto
    next
      case (Suc n')
      have "a \<noteq> last_va" using Suc p(3,4) by auto
      moreover have "mm_wf s2" "pt_wf s2 r" using g2 by (simp_all add: pt_grows_def)
      moreover have "unat (a + PGSIZE) = 4096 * Suc v" using p(3) v next_page_unat [of a] by simp
      moreover have "\<forall>w. Suc v \<le> w \<longrightarrow> w < Suc v + m' \<longrightarrow> translate (mem s2) r w \<noteq> None"
        "m' < n \<longrightarrow> translate (mem s2) r (Suc v + m') = None"
        using p(6-9) tr2 \<open>m = Suc m'\<close> by auto
      ultimately obtain s' where s':
        "unmappages_loop r (a + PGSIZE) last_va s2 =
          (if m' = n then Ret () s' else panic ''unmappages: not mapped'' s')" "pt_grows r P s2 s'"
        "\<And>x. x < 2 ^ 27 \<Longrightarrow> translate (mem s') r x =
          (if Suc v \<le> x \<and> x < Suc v + m' then None else translate (mem s2) r x)"
        using Suc.IH [of s2 "a + PGSIZE" "Suc v" m'] p(4,6,7) Suc \<open>m = Suc m'\<close> by auto
      then show ?thesis
        using step \<open>a \<noteq> last_va\<close> pt_grows_trans [OF g2 s'(2)] tr2 \<open>m = Suc m'\<close>
        by (intro exI [of _ s']) auto
    qed
  qed
qed simp

lemma page_round:
  fixes va sz :: u64
  shows "unat (va div PGSIZE * PGSIZE) = 4096 * (unat va div 4096)"
    and "sz \<noteq> 0 \<Longrightarrow> unat va + unat sz \<le> 2 ^ 38 \<Longrightarrow> unat ((va + sz - 1) div PGSIZE * PGSIZE) = 4096 * ((unat va + unat sz - 1) div 4096)"
proof -
  show "unat (va div PGSIZE * PGSIZE) = 4096 * (unat va div 4096)" for va :: u64
    using unat_div_mult [of va 4096] by (simp add: mult.commute)
  note r = this
  assume "sz \<noteq> 0" "unat va + unat sz \<le> 2 ^ 38"
  then have "unat (va + sz) = unat va + unat sz" "unat sz \<noteq> 0"
    by (simp_all add: unat_add_small unat_eq_0)
  then have "unat (va + sz - 1) = unat va + unat sz - 1"
    by (subst word_dec_unat) (auto simp flip: unat_eq_0)
  then show "unat ((va + sz - 1) div PGSIZE * PGSIZE) = 4096 * ((unat va + unat sz - 1) div 4096)"
    by (simp only: r)
qed

definition page_no :: "u64 \<Rightarrow> nat" where
  "page_no va = unat va div 4096"

definition page_count :: "u64 \<Rightarrow> u64 \<Rightarrow> nat" where
  "page_count va sz = (unat va + unat sz - 1) div 4096 + 1 - page_no va"

lemma page_count_facts:
  assumes "sz \<noteq> 0" "unat va + unat sz \<le> 2 ^ 38"
  shows "0 < page_count va sz" "page_no va + page_count va sz \<le> 2 ^ 26"
    "unat (va div PGSIZE * PGSIZE) = 4096 * page_no va"
    "unat ((va + sz - 1) div PGSIZE * PGSIZE) = 4096 * (page_no va + page_count va sz - 1)"
proof -
  have "unat sz \<noteq> 0" using assms(1) by (simp add: unat_eq_0)
  then have le: "unat va div 4096 \<le> (unat va + unat sz - 1) div 4096"
    by (intro div_le_mono) simp
  then show "0 < page_count va sz" by (simp add: page_count_def page_no_def)
  have "(unat va + unat sz - 1) div 4096 < 2 ^ 26"
    using assms(2) \<open>unat sz \<noteq> 0\<close> by (simp add: less_mult_imp_div_less)
  with le show "page_no va + page_count va sz \<le> 2 ^ 26" by (simp add: page_count_def page_no_def)
  show "unat (va div PGSIZE * PGSIZE) = 4096 * page_no va"
    by (simp only: page_round(1) page_no_def)
  show "unat ((va + sz - 1) div PGSIZE * PGSIZE) = 4096 * (page_no va + page_count va sz - 1)"
    unfolding page_round(2) [OF assms] using le by (simp add: page_count_def page_no_def)
qed

lemma mappages_ok:
  assumes "mm_wf s" "pt_wf s r" "sz \<noteq> 0" "unat va + unat sz \<le> 2 ^ 38"
    and "room P r s" "range_paths (page_no va) (page_count va sz) \<subseteq> P" "P \<subseteq> pt_paths"
    and "\<forall>w. page_no va \<le> w \<longrightarrow> w < page_no va + page_count va sz \<longrightarrow> translate (mem s) r w = None"
  shows "\<exists>s'. mappages r va sz pa perm s = Ret 0 s' \<and> pt_grows r P s s' \<and>
    (\<forall>w < 2 ^ 27. translate (mem s') r w =
       (if page_no va \<le> w \<and> w < page_no va + page_count va sz
        then Some (leaf_entry (pa + of_nat (w - page_no va) * 4096) perm)
        else translate (mem s) r w))"
  using mappages_loop_ok [OF assms(1,2,5,6,7) page_count_facts(3,4,1,2) [OF assms(3,4)] assms(8), of pa perm]
    assms(3) by (simp add: mappages_def)

end
