(* ===== verification/Vm_Kernel.thy ===== *)
theory Vm_Kernel
  imports Vm
begin

text \<open>
  Whole page tables: new roots, the kernel's table that \<open>kvminit\<close> builds, freeing a table, and the
  properties of virtual memory.
\<close>

section \<open>A new root\<close>

lemma fresh_root:
  assumes "mm_wf s" "free_list s = p # ps"
  defines "s1 \<equiv> snd (alloc_page s)"
  shows "pt_wf s1 p" "translate (mem s1) p = (\<lambda>_. None)" "pt_tables (mem s1) p = {[]}"
proof -
  have z: "mem s1 (cell p i) = 0" if "i < 512" for i
    using pp.alloc_clears [OF assms(1,2)] that by (simp add: s1_def)
  have tab: "table_at (mem s1) p q = (if q = [] then Some p else None)" if "q \<in> pt_paths" for q
    using that z by (cases q) (auto simp: pt_paths_def next_table_def)
  have p: "managed s1 p" "p \<notin> set (free_list s1)"
    using mm_wf_Cons [OF assms(1,2)] free_list_alloc [OF assms(1,2)]
    by (simp_all add: s1_def mm_only_managed [OF mm_only_ops(2)])
  then show "pt_wf s1 p"
    unfolding pt_wf_def using managed_page(1) [OF p(1)] z
    by (intro pt_sepI) (auto simp: tab split: if_splits)
  show "translate (mem s1) p = (\<lambda>_. None)"
    by (simp add: fun_eq_iff translate_def tab) (simp add: leaf_path_def)
  show "pt_tables (mem s1) p = {[]}"
    by (auto simp: pt_tables_def tab split: if_splits)
qed

section \<open>The kernel page table\<close>

lemma leaf_path_at: "w div 512 = 512 * c + k \<Longrightarrow> c < 512 \<Longrightarrow> k < 512 \<Longrightarrow> leaf_path w = [c, k]"
  by (simp add: leaf_path_def vpn_idx_def div_mult2_eq [of w 512 512, simplified])

lemma range_paths_at:
  assumes "512 * (512 * c + k) \<le> v" "v + n \<le> 512 * (512 * c + k + m)" "c < 512" "k + m \<le> 512"
  shows "range_paths v n \<subseteq> insert [c] ((\<lambda>i. [c, i]) ` {k..<k + m})"
proof -
  have "walk_paths w \<subseteq> insert [c] ((\<lambda>i. [c, i]) ` {k..<k + m})" if "v \<le> w" "w < v + n" for w
  proof -
    have "512 * c + k \<le> w div 512" "w div 512 < 512 * c + k + m"
      using assms(1,2) that by (simp_all add: less_eq_div_iff_mult_less_eq div_less_iff_less_mult)
    then obtain j where "w div 512 = 512 * c + (k + j)" "j < m"
      by (metis add.assoc add_less_cancel_left le_Suc_ex)
    with leaf_path_at [of w c "k + j"] assms(3,4) show ?thesis
      by (auto simp: walk_paths_def)
  qed
  then show ?thesis by (force simp: range_paths_def)
qed

definition kvm_paths :: "nat list set" where
  "kvm_paths = {[2], [0], [0, 16]} \<union> (\<lambda>i. [2, i]) ` {0..<64} \<union> (\<lambda>i. [0, i]) ` {96..<129}"

lemma kvm_paths_facts: "kvm_paths \<subseteq> pt_paths" "finite kvm_paths" "card kvm_paths \<le> 100"
proof -
  show "kvm_paths \<subseteq> pt_paths" by (auto simp: kvm_paths_def pt_paths_def)
  show "finite kvm_paths" by (simp add: kvm_paths_def)
  have "card ((\<lambda>i. [2, i]) ` {0..<64::nat}) \<le> 64" "card ((\<lambda>i. [0, i]) ` {96..<129::nat}) \<le> 33"
    using card_image_le [of "{0..<64::nat}"] card_image_le [of "{96..<129::nat}"] by fastforce+
  moreover have "card {[2], [0], [0, 16::nat]} \<le> 3" by (simp add: card_insert_if)
  ultimately show "card kvm_paths \<le> 100"
    unfolding kvm_paths_def
    by (intro order_trans [OF card_Un_le] order_trans [OF add_right_mono [OF card_Un_le]]) simp
qed

lemma kvm_ranges:
  "range_paths 524288 32768 \<subseteq> kvm_paths" "range_paths 65536 1 \<subseteq> kvm_paths"
  "range_paths 49152 16384 \<subseteq> kvm_paths" "range_paths 8192 16 \<subseteq> kvm_paths"
  using range_paths_at [of 2 0 524288 32768 64] range_paths_at [of 0 128 65536 1 1]
    range_paths_at [of 0 96 49152 16384 32] range_paths_at [of 0 16 8192 16 1]
  by (force simp: kvm_paths_def)+

lemma mm_only_kernel_pagetable:
  fixes s :: "'z vm_state_scheme"
  assumes "mm_only s s'"
  shows "kernel_pagetable s' = kernel_pagetable s"
proof -
  have "kernel_pagetable s' = kernel_pagetable (s\<lparr>klog := klog s', free_pages := free_pages s',
      num_free_pages := num_free_pages s', mem := mem s'\<rparr>)"
    using assms unfolding mm_only_def by (rule arg_cong)
  then show ?thesis by simp
qed

text \<open>What \<open>kvminit\<close> keeps between its mappings.\<close>

definition kvm_wf :: "'z vm_state_scheme \<Rightarrow> bool" where
  "kvm_wf s \<longleftrightarrow> mm_wf s \<and> pt_wf s (kernel_pagetable s) \<and> room kvm_paths (kernel_pagetable s) s"

lemma kvm_map_ok:
  fixes s :: "'z vm_state_scheme"
  assumes "kvm_wf s" "unat va = 4096 * v" "unat sz = 4096 * n" "0 < n" "v + n \<le> 2 ^ 26"
    and "range_paths v n \<subseteq> kvm_paths"
    and "\<forall>w. v \<le> w \<longrightarrow> w < v + n \<longrightarrow> translate (mem s) (kernel_pagetable s) w = None"
  shows "\<exists>s'. kvm_map va sz perm msg s = Ret () s' \<and> kvm_wf s' \<and>
    pt_grows (kernel_pagetable s) kvm_paths s s' \<and>
    kernel_pagetable s' = kernel_pagetable s \<and>
    (\<forall>w < 2 ^ 27. translate (mem s') (kernel_pagetable s) w =
       (if v \<le> w \<and> w < v + n then Some (leaf_entry (of_nat w * 4096) (ucast perm))
        else translate (mem s) (kernel_pagetable s) w))"
proof -
  have pn: "page_no va = v" "page_count va sz = n"
  proof -
    show v: "page_no va = v" by (simp add: page_no_def assms(2))
    have "4096 * v + 4096 * n - 1 = 4095 + (v + n - 1) * 4096"
      using assms(4) by (cases n) simp_all
    then have "(4096 * v + 4096 * n - 1) div 4096 = v + n - 1" by simp
    then show "page_count va sz = n" using assms(4) by (simp add: page_count_def v assms(2,3))
  qed
  have sz: "sz \<noteq> 0" "unat va + unat sz \<le> 2 ^ 38"
    using assms(2-5) by auto
  have w: "mm_wf s" "pt_wf s (kernel_pagetable s)" "room kvm_paths (kernel_pagetable s) s"
    using assms(1) by (simp_all add: kvm_wf_def)
  have va: "va + of_nat (w - v) * 4096 = of_nat w * 4096" if "v \<le> w" for w
  proof -
    have "va = of_nat (4096 * v)" by (subst assms(2) [symmetric]) simp
    then show ?thesis using that by (simp add: of_nat_diff algebra_simps)
  qed
  obtain s' where s': "mappages (kernel_pagetable s) va sz va (ucast perm) s = Ret 0 s'"
    "pt_grows (kernel_pagetable s) kvm_paths s s'"
    "\<forall>w < 2 ^ 27. translate (mem s') (kernel_pagetable s) w =
       (if v \<le> w \<and> w < v + n then Some (leaf_entry (va + of_nat (w - v) * 4096) (ucast perm))
        else translate (mem s) (kernel_pagetable s) w)"
    using mappages_ok [OF w(1,2) sz w(3), unfolded pn, OF assms(6) kvm_paths_facts(1) assms(7)] by blast
  have k: "kernel_pagetable s' = kernel_pagetable s"
    using s'(2) mm_only_kernel_pagetable by (auto simp: pt_grows_def)
  then have "kvm_wf s'"
    using s'(2) room_grows [OF s'(2) w(3)] by (simp add: kvm_wf_def pt_grows_def)
  with s' k va show ?thesis by (auto simp: kvm_map_def)
qed

lemma kvm_log: "kvm_wf s \<Longrightarrow> kvm_wf (kprintf f as s)"
  using pt_grows_log [of s "kernel_pagetable s" kvm_paths f as]
  by (simp add: kvm_wf_def pt_grows_def kprintf_def room_def free_list_def)

text \<open>The entries \<open>kvminit\<close> installs, by page: RAM, then the UART, the PLIC and the CLINT.\<close>

definition kvm_entry :: "nat \<Rightarrow> u64 option" where
  "kvm_entry w =
     (if 524288 \<le> w \<and> w < 557056 then Some (leaf_entry (of_nat w * 4096) 14)
      else if w = 65536 \<or> 49152 \<le> w \<and> w < 65536 \<or> 8192 \<le> w \<and> w < 8208
      then Some (leaf_entry (of_nat w * 4096) 6)
      else None)"

lemma kvminit_start:
  fixes s :: "'z vm_state_scheme"
  assumes "mm_wf s" "free_list s = p # ps" "100 \<le> length ps"
  defines "s1 \<equiv> (snd (alloc_page s))\<lparr>kernel_pagetable := p\<rparr>"
  shows "kvm_wf s1" "kernel_pagetable s1 = p" "translate (mem s1) p = (\<lambda>_. None)"
    "fst (alloc_page s) = p" "p \<noteq> NULL" "pt_tables (mem s1) p = {[]}" "free_list s1 = ps"
proof -
  let ?t = "snd (alloc_page s)"
  note f = fresh_root [OF assms(1,2)]
  have up: "mem s1 = mem ?t" "free_list s1 = free_list ?t" "managed s1 = managed ?t"
    by (simp_all add: s1_def free_list_def fun_eq_iff managed_def pool_start_def)
  have "card (kvm_paths \<union> {[]}) \<le> 101"
    using card_Un_le [of kvm_paths "{[]}"] kvm_paths_facts(3) by simp
  then have "room kvm_paths p s1"
    using assms(3) f(3) free_list_alloc [OF assms(1,2)] by (simp add: room_def up)
  moreover have "mm_wf s1" "pt_wf s1 p"
    using mm_wf_alloc [OF assms(1)] f(1) by (simp_all add: mm_wf_def pt_wf_def up)
  ultimately show "kvm_wf s1" by (simp add: kvm_wf_def s1_def)
  show "translate (mem s1) p = (\<lambda>_. None)" "pt_tables (mem s1) p = {[]}" "free_list s1 = ps"
    using f(2,3) free_list_alloc [OF assms(1,2)] by (simp_all add: up)
  show "fst (alloc_page s) = p" "p \<noteq> NULL"
    using pp.alloc_pops [OF assms(1,2)] mm_wf_Cons(1) [OF assms(1,2)] by (simp_all add: managed_page)
qed (simp add: s1_def)


text \<open>
  \<open>kvm_maps k p f s\<close>: the kernel's table is at \<open>p\<close>, its translations are \<open>f\<close>, and its tables and the free
  pages are \<open>k\<close> pages together.
\<close>

definition kvm_maps :: "nat \<Rightarrow> addr \<Rightarrow> (nat \<Rightarrow> u64 option) \<Rightarrow> 'z vm_state_scheme \<Rightarrow> bool" where
  "kvm_maps k p f s \<longleftrightarrow> kvm_wf s \<and> kernel_pagetable s = p \<and> pt_tables (mem s) p \<subseteq> kvm_paths \<union> {[]} \<and>
     length (free_list s) + card (pt_tables (mem s) p) = k \<and> (\<forall>w < 2 ^ 27. translate (mem s) p w = f w)"

lemma kvm_maps_left: "kvm_maps k p f s \<Longrightarrow> k \<le> length (free_list s) + 101"
proof -
  assume k: "kvm_maps k p f s"
  have "card (pt_tables (mem s) p) \<le> card (kvm_paths \<union> {[]})"
    using k kvm_paths_facts(2) by (intro card_mono) (simp_all add: kvm_maps_def)
  also have "\<dots> \<le> 101" using card_Un_le [of kvm_paths "{[]}"] kvm_paths_facts(3) by simp
  finally show ?thesis using k by (simp add: kvm_maps_def)
qed

lemma kvm_map_step:
  assumes "kvm_maps k p f s" "unat va = 4096 * v" "unat sz = 4096 * n" "0 < n" "v + n \<le> 2 ^ 26"
    and "range_paths v n \<subseteq> kvm_paths" "\<forall>w. v \<le> w \<longrightarrow> w < v + n \<longrightarrow> f w = None"
    and "ucast perm = (q :: u32)"
  obtains s' where "kvm_map va sz perm msg s = Ret () s'"
    "kvm_maps k p (\<lambda>w. if v \<le> w \<and> w < v + n then Some (leaf_entry (of_nat w * 4096) q) else f w) s'"
proof -
  have s: "kvm_wf s" "kernel_pagetable s = p" "\<forall>w < 2 ^ 27. translate (mem s) p w = f w"
    using assms(1) by (simp_all add: kvm_maps_def)
  have "\<forall>w. v \<le> w \<longrightarrow> w < v + n \<longrightarrow> translate (mem s) (kernel_pagetable s) w = None"
    using assms(5,7) s(2,3) by auto
  from kvm_map_ok [OF s(1) assms(2-6) this, of perm msg] obtain s' where s': "kvm_map va sz perm msg s = Ret () s'" "kvm_wf s'"
    "pt_grows p kvm_paths s s'" "kernel_pagetable s' = p" and tr: "\<forall>w < 2 ^ 27. translate (mem s') p w =
       (if v \<le> w \<and> w < v + n then Some (leaf_entry (of_nat w * 4096) q) else translate (mem s) p w)"
    using s(2) assms(8) by auto
  have "pt_tables (mem s') p \<subseteq> kvm_paths \<union> {[]}" "length (free_list s') + card (pt_tables (mem s') p) = k"
    using pt_grows_tables [OF s'(3)] s'(3) assms(1) by (auto simp: kvm_maps_def pt_grows_def)
  with that [OF s'(1)] s' tr s(3) show thesis by (simp add: kvm_maps_def)
qed

lemma kvminit_ok:
  fixes s :: "'z vm_state_scheme"
  assumes "mm_wf s" "101 \<le> length (free_list s)"
  shows "\<exists>s'. kvminit s = Ret () s' \<and> kvm_maps (length (free_list s)) (kernel_pagetable s') kvm_entry s'"
proof -
  obtain p ps where fl: "free_list s = p # ps" "100 \<le> length ps"
    using assms(2) by (cases "free_list s") auto
  let ?k = "length (free_list s)"
  let ?s0 = "(snd (alloc_page s))\<lparr>kernel_pagetable := p\<rparr>"
  let ?s1 = "kprintf ''[VM] Created kernel page table at %p\<newline>'' [Num p] ?s0"
  note st = kvminit_start [OF assms(1) fl]
  have s1: "kvm_maps ?k p (\<lambda>_. None) ?s1"
    using kvm_log [OF st(1)] st(2,3,6,7) fl(1) by (simp add: kvm_maps_def kprintf_def free_list_def)
  obtain s2 f2 where s2: "kvm_map KERNBASE (PHYSTOP - KERNBASE) (PTE_R OR PTE_W OR PTE_X)
      ''kvminit: mappages failed for kernel'' ?s1 = Ret () s2" "kvm_maps ?k p f2 s2"
    and f2: "f2 = (\<lambda>w. if 524288 \<le> w \<and> w < 524288 + 32768 then Some (leaf_entry (of_nat w * 4096) 14) else None)"
    by (rule kvm_map_step [where va = KERNBASE and sz = "PHYSTOP - KERNBASE" and perm = "PTE_R OR PTE_W OR PTE_X" and
          q = 14 and msg = "''kvminit: mappages failed for kernel''", OF s1 _ _ _ _ kvm_ranges(1)]) (simp_all add: KERNBASE_def PHYSTOP_def)
  obtain s3 f3 where s3: "kvm_map 0x10000000 PGSIZE (PTE_R OR PTE_W)
      ''kvminit: mappages failed for UART'' s2 = Ret () s3" "kvm_maps ?k p f3 s3"
    and f3: "f3 = (\<lambda>w. if 65536 \<le> w \<and> w < 65536 + 1 then Some (leaf_entry (of_nat w * 4096) 6) else f2 w)"
    by (rule kvm_map_step [where va = "0x10000000" and sz = PGSIZE and perm = "PTE_R OR PTE_W" and
          q = 6 and msg = "''kvminit: mappages failed for UART''", OF s2(2) _ _ _ _ kvm_ranges(2)])
      (simp_all add: f2)
  obtain s4 f4 where s4: "kvm_map 0x0C000000 0x4000000 (PTE_R OR PTE_W)
      ''kvminit: mappages failed for PLIC'' s3 = Ret () s4" "kvm_maps ?k p f4 s4"
    and f4: "f4 = (\<lambda>w. if 49152 \<le> w \<and> w < 49152 + 16384 then Some (leaf_entry (of_nat w * 4096) 6) else f3 w)"
    by (rule kvm_map_step [where va = "0x0C000000" and sz = "0x4000000" and perm = "PTE_R OR PTE_W" and
          q = 6 and msg = "''kvminit: mappages failed for PLIC''", OF s3(2) _ _ _ _ kvm_ranges(3)])
      (simp_all add: f2 f3)
  obtain s5 where s5: "kvm_map 0x02000000 0x10000 (PTE_R OR PTE_W)
      ''kvminit: mappages failed for CLINT'' s4 = Ret () s5"
    "kvm_maps ?k p (\<lambda>w. if 8192 \<le> w \<and> w < 8192 + 16 then Some (leaf_entry (of_nat w * 4096) 6) else f4 w) s5"
    by (rule kvm_map_step [where va = "0x02000000" and sz = "0x10000" and perm = "PTE_R OR PTE_W" and
          q = 6 and msg = "''kvminit: mappages failed for CLINT''", OF s4(2) _ _ _ _ kvm_ranges(4)])
      (simp_all add: f2 f3 f4)
  let ?s6 = "kprintf ''[VM] Kernel page table initialized\<newline>'' [] s5"
  have "kvminit s = Ret () ?s6"
    using st(4,5) s2(1) s3(1) s4(1) s5(1)
    by (cases "alloc_page s") (simp add: kvminit_def Let_def)
  moreover have "kvm_maps ?k (kernel_pagetable ?s6) kvm_entry ?s6"
    using s5(2) kvm_log [of s5] by (auto simp: kvm_maps_def kprintf_def free_list_def kvm_entry_def f2 f3 f4)
  ultimately show ?thesis by blast
qed

section \<open>Freeing a page table\<close>

text \<open>
  The pages \<open>vm_free\<close> gives back, in order, for a table of height \<open>h\<close> (the root has height 2), and the
  shape it expects: entries that point to tables above height 0 only.
\<close>

definition is_ptr :: "u64 \<Rightarrow> bool" where
  "is_ptr e \<longleftrightarrow> PTE_VALID e \<and> e AND (PTE_R OR PTE_W OR PTE_X) = 0"

primrec vm_order :: "(addr \<Rightarrow> u64) \<Rightarrow> nat \<Rightarrow> addr \<Rightarrow> addr list" where
  "vm_order m 0 t = [t]"
| "vm_order m (Suc h) t =
     concat (map (\<lambda>i. if is_ptr (m (cell t i)) then vm_order m h (PTE2PA (m (cell t i))) else []) [0..<512]) @ [t]"

primrec vm_shape :: "(addr \<Rightarrow> u64) \<Rightarrow> nat \<Rightarrow> addr \<Rightarrow> bool" where
  "vm_shape m 0 t \<longleftrightarrow> (\<forall>i < 512. \<not> is_ptr (m (cell t i)))"
| "vm_shape m (Suc h) t \<longleftrightarrow> (\<forall>i < 512. is_ptr (m (cell t i)) \<longrightarrow> vm_shape m h (PTE2PA (m (cell t i))))"

definition free_all :: "addr list \<Rightarrow> 'z mm_state_scheme \<Rightarrow> 'z mm_state_scheme" where
  "free_all ps s = fold free_page ps s"

lemma free_all_simps [simp]:
  "free_all [] s = s" "free_all (p # ps) s = free_all ps (free_page p s)"
  "free_all (ps @ qs) s = free_all qs (free_all ps s)"
  by (simp_all add: free_all_def)

lemma free_all_mem: "a \<notin> set ps \<Longrightarrow> mem (free_all ps s) a = mem s a"
  by (induction ps arbitrary: s) (auto simp: free_page_def)

text \<open>The entries of a page that is not given back keep their values.\<close>

lemma free_all_cell:
  assumes "list_all page_aligned ps" "page_aligned t" "t \<notin> set ps" "i < 512"
  shows "mem (free_all ps s) (cell t i) = mem s (cell t i)"
proof (rule free_all_mem, rule notI)
  assume "cell t i \<in> set ps"
  then have "page_aligned (cell t i)" using assms(1) by (simp add: list_all_iff)
  then have "t = cell t i" using cell_inject [OF assms(2) _ assms(4), of "cell t i" 0] by simp
  with \<open>cell t i \<in> set ps\<close> assms(3) show False by simp
qed

definition agree :: "(addr \<Rightarrow> u64) \<Rightarrow> (addr \<Rightarrow> u64) \<Rightarrow> addr list \<Rightarrow> bool" where
  "agree m m' ts \<longleftrightarrow> (\<forall>t \<in> set ts. \<forall>i < 512. m' (cell t i) = m (cell t i))"

lemma agree_free:
  assumes "agree m (mem s) ts" "list_all page_aligned (ps @ ts)" "distinct (ps @ ts)"
  shows "agree m (mem (free_all ps s)) ts"
proof -
  have "t \<notin> set ps" "page_aligned t" if "t \<in> set ts" for t
    using assms(2,3) that by (auto simp: list_all_iff)
  with assms(1,2) free_all_cell [of ps _ _ s] show ?thesis by (simp add: agree_def)
qed

lemma vm_free_loop_step:
  "vm_free_loop d (Suc k) i t s =
     (if is_ptr (mem s (cell t i)) then
        (case vm_free d (PTE2PA (mem s (cell t i))) s of
           None \<Rightarrow> None | Some s' \<Rightarrow> vm_free_loop d k (Suc i) t s')
      else vm_free_loop d k (Suc i) t s)"
  by (simp add: is_ptr_def Let_def)

lemma vm_free_order:
  fixes s :: "'a mm_state_scheme"
  assumes "vm_shape m h t" "agree m (mem s) (vm_order m h t)"
    and "list_all page_aligned (vm_order m h t)" "distinct (vm_order m h t)"
  shows "vm_free (Suc h) t s = Some (free_all (vm_order m h t) s)"
  using assms
proof (induction h arbitrary: t s)
  case 0
  have "vm_free_loop 0 k i t s = Some s" if "i + k = 512" for k i
    using that "0.prems"(1,2) by (induction k arbitrary: i) (auto simp: agree_def is_ptr_def Let_def)
  then show ?case by simp
next
  case (Suc h)
  note IH = Suc.IH
  let ?c = "\<lambda>i. if is_ptr (m (cell t i)) then vm_order m h (PTE2PA (m (cell t i))) else []"
  let ?cs = "\<lambda>i. concat (map ?c [i..<512])"
  have "vm_free_loop (Suc h) k i t s = Some (free_all (?cs i) s)"
    if "i + k = 512" "agree m (mem s) (?cs i @ [t])" "list_all page_aligned (?cs i @ [t])"
      "distinct (?cs i @ [t])" for k i and s :: "'a mm_state_scheme"
    using that
  proof (induction k arbitrary: i s)
    case (Suc k)
    note p = Suc.prems
    have i: "i < 512" "[i..<512] = i # [Suc i..<512]" using p(1) by (simp_all add: upt_rec)
    have e: "mem s (cell t i) = m (cell t i)" using p(2) i(1) by (simp add: agree_def)
    show ?case
    proof (cases "is_ptr (m (cell t i))")
      case False
      with Suc.IH [of "Suc i" s] p i(2) e show ?thesis
        by (simp add: vm_free_loop_step del: vm_free_loop.simps)
    next
      case True
      let ?t = "PTE2PA (m (cell t i))"
      have "vm_free (Suc h) ?t s = Some (free_all (vm_order m h ?t) s)"
        using True i p(2-4) Suc.prems(1) \<open>vm_shape m (Suc h) t\<close> by (intro IH) (auto simp: agree_def)
      moreover have "agree m (mem (free_all (vm_order m h ?t) s)) (?cs (Suc i) @ [t])"
        using True i(2) p(2-4) by (intro agree_free) (auto simp: agree_def)
      ultimately show ?thesis
        using Suc.IH [of "Suc i" "free_all (vm_order m h ?t) s"] True p i(2) e
        by (simp add: vm_free_loop_step del: vm_free_loop.simps vm_free.simps)
    qed
  qed simp
  from this [of 0 512 s] Suc.prems(2-4) show ?case by (simp add: Let_def)
qed

text \<open>All tables at and below the path \<open>q\<close>.\<close>

definition tables_under :: "(addr \<Rightarrow> u64) \<Rightarrow> addr \<Rightarrow> nat list \<Rightarrow> addr set" where
  "tables_under m r q = {t. \<exists>p. q @ p \<in> pt_paths \<and> table_at m r (q @ p) = Some t}"

definition leaf_flags :: "(addr \<Rightarrow> u64) \<Rightarrow> addr \<Rightarrow> bool" where
  "leaf_flags m r \<longleftrightarrow>
     (\<forall>v < 2 ^ 27. \<forall>e. translate m r v = Some e \<longrightarrow> e AND (PTE_R OR PTE_W OR PTE_X) \<noteq> 0)"

lemma distinct_concat_upt:
  assumes "\<And>i. i < n \<Longrightarrow> distinct (f i)"
    and "\<And>i j. i < n \<Longrightarrow> j < n \<Longrightarrow> i \<noteq> j \<Longrightarrow> set (f i) \<inter> set (f j) = {}"
  shows "distinct (concat (map f [0..<n]))"
  using assms
proof (induction n)
  case (Suc n)
  then have "distinct (concat (map f [0..<n]))" "distinct (f n)" by simp_all
  moreover have "x \<notin> set (f n)" if "i < n" "x \<in> set (f i)" for i x
    using Suc.prems(2) [of i n] that by auto
  ultimately show ?case by auto
qed simp

lemma leaf_at:
  assumes "i < 512" "j < 512" "k < 512"
  shows "\<exists>v < 2 ^ 27. leaf_path v = [i, j] \<and> vpn_idx 0 v = k"
proof -
  let ?v = "(i * 512 + j) * 512 + k"
  have "?v div 512 = 512 * i + j" "?v mod 512 = k"
    using assms(3) by (simp, simp only: mod_mult_self3 mod_less)
  moreover from this leaf_path_at [OF this(1) assms(1,2)] have "leaf_path ?v = [i, j]" by simp
  moreover have "?v < 2 ^ 27" using assms by simp
  ultimately show ?thesis by (metis vpn_idx_def power_0 div_by_1)
qed

lemma vm_order_tables:
  assumes sep: "pt_sep m r ok" and "length q + h = 2" "q \<in> pt_paths" "table_at m r q = Some t"
  shows "set (vm_order m h t) = tables_under m r q" "distinct (vm_order m h t)"
proof -
  have "set (vm_order m h t) = tables_under m r q \<and> distinct (vm_order m h t)"
    using assms(2-4)
  proof (induction h arbitrary: q t)
    case 0
    then have "q @ p \<in> pt_paths \<longleftrightarrow> p = []" for p by (auto simp: pt_paths_def)
    with 0 show ?case by (simp add: tables_under_def)
  next
    case (Suc h)
    let ?e = "\<lambda>i. m (cell t i)"
    let ?c = "\<lambda>i. if is_ptr (?e i) then vm_order m h (PTE2PA (?e i)) else []"
    have nx: "table_at m r (q @ [i]) = (if is_ptr (?e i) then Some (PTE2PA (?e i)) else None)" if "i < 512" for i
      using Suc.prems pt_sepD(4) [OF sep Suc.prems(2,3) _ that]
      by (auto simp: table_at_snoc next_table_def is_ptr_def)
    have c: "set (?c i) = tables_under m r (q @ [i]) \<and> distinct (?c i)" if "i < 512" for i
    proof (cases "is_ptr (?e i)")
      case True
      with Suc.IH [of "q @ [i]" "PTE2PA (?e i)"] nx [OF that] Suc.prems(1,2) that show ?thesis
        by (auto simp: pt_paths_def)
    next
      case False
      then have "table_at m r (q @ i # p) = None" for p
        using nx [OF that] table_at_append [of m r "q @ [i]" p] by simp
      with False show ?thesis by (simp add: tables_under_def)
    qed
    have dj: "tables_under m r (q @ [i]) \<inter> tables_under m r (q @ [j]) = {}" if "i \<noteq> j" for i j
      using pt_sepD(3) [OF sep] that by (fastforce simp: tables_under_def)
    have t: "t \<notin> tables_under m r (q @ [i])" for i
      using pt_sepD(3) [OF sep Suc.prems(2,3)] by (fastforce simp: tables_under_def)
    have "tables_under m r q = (\<Union>i < 512. tables_under m r (q @ [i])) \<union> {t}"
    proof (intro equalityI subsetI)
      fix x assume "x \<in> tables_under m r q"
      then obtain p where "q @ p \<in> pt_paths" "table_at m r (q @ p) = Some x" by (auto simp: tables_under_def)
      with Suc.prems(3) show "x \<in> (\<Union>i < 512. tables_under m r (q @ [i])) \<union> {t}"
        by (cases p) (auto simp: tables_under_def pt_paths_def)
    next
      fix x assume "x \<in> (\<Union>i < 512. tables_under m r (q @ [i])) \<union> {t}"
      then consider i p where "q @ (i # p) \<in> pt_paths" "table_at m r (q @ (i # p)) = Some x" | "x = t"
        by (auto simp: tables_under_def)
      then show "x \<in> tables_under m r q"
        using Suc.prems(2,3) unfolding tables_under_def by cases (blast, force intro: exI [of _ "[]"])
    qed
    moreover have "distinct (concat (map ?c [0..<512]))"
      using c dj by (intro distinct_concat_upt) blast+
    moreover have "set (concat (map ?c [0..<512])) = (\<Union>i < 512. tables_under m r (q @ [i]))"
      unfolding set_concat set_map set_upt image_image
      by (rule SUP_cong) (use c in \<open>simp_all only: atLeast0LessThan lessThan_iff\<close>)
    ultimately show ?case using t by (simp only: vm_order.simps set_append distinct_append) auto
  qed
  then show "set (vm_order m h t) = tables_under m r q" "distinct (vm_order m h t)" by simp_all
qed

lemma vm_shape_tree:
  assumes sep: "pt_sep m r ok" and lf: "leaf_flags m r"
    and "length q + h = 2" "q \<in> pt_paths" "table_at m r q = Some t"
  shows "vm_shape m h t"
  using assms(3-5)
proof (induction h arbitrary: q t)
  case 0
  then obtain i j where q: "q = [i, j]" "i < 512" "j < 512"
    by (auto simp: pt_paths_def length_Suc_conv numeral_2_eq_2)
  have "\<not> is_ptr (m (cell t k))" if "k < 512" for k
  proof -
    from leaf_at [OF q(2,3), of k] \<open>k < 512\<close> q(1)
    obtain v where "v < 2 ^ 27" "leaf_path v = q" "vpn_idx 0 v = k" by auto
    with lf 0 show ?thesis
      by (auto simp: leaf_flags_def is_ptr_def translate_def Let_def dest!: spec [of _ v])
  qed
  then show ?case by simp
next
  case (Suc h)
  have "vm_shape m h (PTE2PA (m (cell t i)))" if "i < 512" "is_ptr (m (cell t i))" for i
    using Suc.prems that by (intro Suc.IH [of "q @ [i]"])
      (auto simp: table_at_snoc next_table_def is_ptr_def pt_paths_def)
  then show ?case by simp
qed

lemma free_all_pool:
  assumes "mm_wf s" "list_all (managed s) ps" "distinct ps" "set ps \<inter> set (free_list s) = {}"
  shows "mm_wf (free_all ps s) \<and> free_list (free_all ps s) = rev ps @ free_list s"
  using assms
proof (induction ps arbitrary: s)
  case (Cons p ps)
  have p: "managed s p" "p \<notin> set (free_list s)" using Cons.prems by auto
  have "managed (free_page p s) = managed s" by (rule managed_frame) (simp add: free_page_def)
  with Cons.IH [of "free_page p s"] Cons.prems free_list_free [OF Cons.prems(1) p] mm_wf_free [OF Cons.prems(1) p]
  show ?case by auto
qed simp

lemma vm_free_pool:
  assumes "mm_wf s" "pt_wf s r" "leaf_flags (mem s) r"
  shows "\<exists>s' ps. vm_free 3 r s = Some s' \<and> mm_wf s' \<and> free_list s' = ps @ free_list s \<and>
    distinct ps \<and> set ps = tables_under (mem s) r []"
proof -
  let ?o = "vm_order (mem s) 2 r"
  note sep = assms(2) [unfolded pt_wf_def]
  note o = vm_order_tables [OF sep, of "[]" 2 r, simplified]
  have ok: "page_aligned t \<and> managed s t \<and> t \<notin> set (free_list s)" if "t \<in> set ?o" for t
    using that pt_sepD(1,2) [OF sep] by (auto simp: o tables_under_def)
  have "vm_free (Suc 2) r s = Some (free_all ?o s)"
    using ok o(2) vm_shape_tree [OF sep assms(3), of "[]" 2 r]
    by (intro vm_free_order) (auto simp: agree_def list_all_iff)
  moreover have "mm_wf (free_all ?o s) \<and> free_list (free_all ?o s) = rev ?o @ free_list s"
    using ok o(2) by (intro free_all_pool [OF assms(1)]) (auto simp: list_all_iff)
  moreover have "Suc 2 = 3" by simp
  ultimately have "vm_free 3 r s = Some (free_all ?o s)" "mm_wf (free_all ?o s)"
    "free_list (free_all ?o s) = rev ?o @ free_list s" by metis+
  with o show ?thesis by (metis distinct_rev set_rev)
qed

section \<open>Addresses inside a mapping\<close>

lemma page_aligned_add:
  assumes "page_aligned a" "page_aligned b"
  shows "page_aligned (a + b)"
proof -
  have "(4096 :: nat) dvd 2 ^ 64" by simp
  moreover have "4096 dvd unat a + unat b" using assms by (simp add: page_aligned_dvd)
  ultimately have "4096 dvd (unat a + unat b) mod 2 ^ 64" by (simp only: dvd_mod)
  then show ?thesis by (simp add: page_aligned_dvd unat_word_ariths)
qed

lemma page_aligned_mult: "page_aligned (k * 4096)"
proof -
  have "k * 4096 = push_bit 12 k" by (simp add: push_bit_eq_mult)
  then show ?thesis by (simp add: page_aligned_bits bit_push_bit_iff)
qed

lemma page_start: "va div 4096 = of_nat (page_no va)"
proof -
  have "page_no va < 2 ^ 64" using le_less_trans [OF div_le_dividend unat_lt64] by (simp add: page_no_def)
  from unat_of_nat_small [OF this] have "unat (va div 4096) = unat (of_nat (page_no va) :: u64)"
    by (simp only: page_no_def unat_div) simp
  then show ?thesis by (simp only: word_unat_eq_iff)
qed

lemma split_addr: "x = of_nat (page_no x) * 4096 + (x AND 0xFFF)"
proof -
  have "(0xFFF :: u64) = mask 12" by (simp add: mask_eq_exp_minus_1)
  then have "x AND 0xFFF = x mod 4096"
    by (simp only: take_bit_eq_mask [symmetric]) (simp add: take_bit_eq_mod)
  then show ?thesis by (metis div_mult_mod_eq page_start)
qed

lemma va2pa_mapped:
  assumes "pt_wf s r" "unat x < 2 ^ 38" "perm < 1024" "page_aligned pa" "v \<le> page_no x"
    and "translate (mem s) r (page_no x) = Some (leaf_entry (pa + of_nat (page_no x - v) * 4096) perm)"
  shows "va2pa r x s = pa + (x - of_nat v * 4096)"
proof -
  have "va2pa r x s = pa + of_nat (page_no x - v) * 4096 + (x AND 0xFFF)"
    using assms(6) aligned_div_mult [OF page_aligned_add [OF assms(4) page_aligned_mult]]
    by (simp add: va2pa_translate [OF assms(1,2)] PTE2PA_leaf_entry [OF assms(3)] flip: page_no_def)
  also have "\<dots> = pa + (of_nat (page_no x) * 4096 + (x AND 0xFFF) - of_nat v * 4096)"
    using assms(5) by (simp add: of_nat_diff algebra_simps)
  finally show ?thesis by (simp flip: split_addr)
qed

lemma page_no_less: "unat x < 2 ^ 38 \<Longrightarrow> page_no x < 2 ^ 27"
  by (simp add: page_no_def less_mult_imp_div_less)

lemma room_card:
  assumes "card P \<le> length (free_list s)"
  shows "room P r s"
  using card_Un_le [of P "pt_tables (mem s) r"] assms by (simp add: room_def)

text \<open>Growth at \<open>r\<close> leaves a table tree with other pages alone.\<close>

lemma pt_grows_other:
  assumes g: "pt_grows r P s s'" and mm: "mm_wf s" and wf: "pt_wf s r" "pt_wf s q"
    and dis: "tables_under (mem s) q [] \<inter> tables_under (mem s) r [] = {}"
  shows "translate (mem s') q = translate (mem s) q" "pt_wf s' q" "tables_under (mem s') q [] = tables_under (mem s) q []"
proof -
  have same: "mem s' (cell t i) = mem s (cell t i)" if p: "p \<in> pt_paths" "table_at (mem s) q p = Some t" "i < 512" for p t and i :: nat
  proof -
    note t = pt_sepD(1,2) [OF wf(2) [unfolded pt_wf_def] p(1,2)]
    have "t \<in> tables_under (mem s) q []" using p by (auto simp: tables_under_def)
    have "outside s r (cell t i)"
      unfolding outside_def
    proof (intro conjI ballI allI impI)
      fix p' t' assume p': "p' \<in> pt_paths" "table_at (mem s) r p' = Some t'"
      have "t' \<noteq> t" using p' dis \<open>t \<in> _\<close> by (auto simp: tables_under_def)
      with pt_sepD(1) [OF wf(1) [unfolded pt_wf_def] p'] t(1) p(3)
      show "cell t i \<notin> page_cells t'" by (simp add: page_cells_other)
    next
      fix f assume "f \<in> set (free_list s)"
      then have "page_aligned f" "f \<noteq> t"
        using mm t(2) by (auto simp: mm_wf_def list_all_iff managed_def)
      with t(1) p(3) show "cell t i \<notin> page_cells f" by (simp add: page_cells_other)
    qed
    then show ?thesis using g by (simp add: pt_grows_def)
  qed
  show "translate (mem s') q = translate (mem s) q" using same by (rule translate_cong)
  have tab: "table_at (mem s') q p = table_at (mem s) q p" if "p \<in> pt_paths" for p
    using same that by (rule table_at_cong)
  then show "tables_under (mem s') q [] = tables_under (mem s) q []" by (auto simp: tables_under_def)
  have fr: "mm_only s s'" "set (free_list s') \<subseteq> set (free_list s)" using g by (simp_all add: pt_grows_def)
  show "pt_wf s' q"
    unfolding pt_wf_def mm_only_managed [OF fr(1)]
    using fr(2) same by (intro pt_sep_same [OF wf(2) [unfolded pt_wf_def] _ tab]) auto
qed

text \<open>Allocating a page leaves every page table alone.\<close>

lemma fresh_tables:
  assumes "pt_tables m r = {[]}"
  shows "tables_under m r [] = {r}"
proof -
  have "p = [] \<and> t = r" if "p \<in> pt_paths" "table_at m r p = Some t" for p t
  proof -
    have "p \<in> pt_tables m r" using that by (simp add: pt_tables_def)
    with assms that show ?thesis by simp
  qed
  then show ?thesis by (force simp: tables_under_def intro: exI [of _ "[]"])
qed

lemma pt_wf_alloc:
  assumes mm: "mm_wf s" and wf: "pt_wf s r"
  shows "pt_wf (snd (alloc_page s)) r"
    "tables_under (mem (snd (alloc_page s))) r q = tables_under (mem s) r q"
    "translate (mem (snd (alloc_page s))) r = translate (mem s) r"
proof -
  let ?s = "snd (alloc_page s)"
  note sep = wf [unfolded pt_wf_def]
  have same: "mem ?s (cell t i) = mem s (cell t i)"
    if "p \<in> pt_paths" "table_at (mem s) r p = Some t" "i < 512" for p t i
  proof (cases "free_list s")
    case Nil
    then show ?thesis by (simp add: alloc_page_empty [OF mm] kprintf_def)
  next
    case (Cons n ns)
    have "t \<noteq> n" "page_aligned n" using pt_sepD(2) [OF sep that(1,2)] Cons mm_wf_Cons(1) [OF mm Cons]
      by (auto simp: managed_page)
    with pt_sepD(1) [OF sep that(1,2)] that(3) show ?thesis
      by (simp add: mem_alloc [OF mm Cons] page_cells_other)
  qed
  have tab: "table_at (mem ?s) r p = table_at (mem s) r p" if "p \<in> pt_paths" for p
    using same that by (rule table_at_cong)
  then show "tables_under (mem ?s) r q = tables_under (mem s) r q"
    by (auto simp: tables_under_def)
  show "translate (mem ?s) r = translate (mem s) r"
    using same by (rule translate_cong)
  have fl: "set (free_list ?s) \<subseteq> set (free_list s)"
    using pp.alloc_fails [OF mm] free_list_alloc [OF mm] by (cases "free_list s") auto
  show "pt_wf ?s r"
    unfolding pt_wf_def mm_only_managed [OF mm_only_ops(2)]
    using fl same by (intro pt_sep_same [OF sep _ tab]) auto
qed

lemma mappages_frame:
  assumes "mm_wf s" "pt_wf s r"
  shows "pt_grows r pt_paths s (end_state (mappages r va sz pa perm s))"
    "only_new (new_entry (page_no va) (page_no (va + sz - 1)) perm) r s (end_state (mappages r va sz pa perm s))"
proof -
  let ?s' = "end_state (mappages r va sz pa perm s)"
  have "pt_grows r pt_paths s ?s' \<and>
    only_new (new_entry (page_no va) (page_no (va + sz - 1)) perm) r s ?s'"
  proof (cases "sz = 0")
    case True
    then show ?thesis
      using panic_state(2) [OF assms] by (simp add: mappages_def only_new_def panic_state)
  next
    case False
    then have "mappages r va sz pa perm s =
        mappages_loop r (va div PGSIZE * PGSIZE) ((va + sz - 1) div PGSIZE * PGSIZE) pa perm s"
      by (simp add: mappages_def Let_def)
    with mappages_loop_frame [OF assms page_round(1) page_round(1), folded page_no_def]
    show ?thesis by metis
  qed
  then show "pt_grows r pt_paths s ?s'"
    "only_new (new_entry (page_no va) (page_no (va + sz - 1)) perm) r s ?s'" by simp_all
qed

text \<open>When the leaf table exists the walk may create but does not.\<close>

lemma walk_loop_present:
  assumes "d + l = 2" "table_at (mem s) r (path_to v d) = Some t" "v = unat va div 4096"
    and "table_at (mem s) r (leaf_path v) = Some t'"
  shows "walk_loop l t va True s = (cell t' (vpn_idx 0 v), s)"
  using assms(1,2)
proof (induction l arbitrary: d t)
  case 0
  then show ?case using assms(4) by (simp add: path_to_simps unat_PX assms(3))
next
  case (Suc l)
  let ?k = "vpn_idx (Suc l) v"
  have d: "d < 2" "2 - d = Suc l" "Suc d + l = 2" using Suc.prems(1) by simp_all
  have nxt: "table_at (mem s) r (path_to v (Suc d)) = next_table (mem s) t ?k"
    using Suc.prems(2) by (simp add: path_to_Suc [OF d(1)] d(2) table_at_snoc)
  moreover have "table_at (mem s) r (path_to v (Suc d)) \<noteq> None"
    using path_to_missing [OF _ d(1)] assms(4) by fastforce
  ultimately show ?case
    using Suc.IH [OF d(3)] by (auto simp: unat_PX assms(3) next_table_def split: if_splits)
qed

lemma walk_present:
  assumes "unat va < 2 ^ 38" "v = unat va div 4096" "table_at (mem s) r (leaf_path v) = Some t"
  shows "walk r va True s = (cell t (vpn_idx 0 v), s)"
proof -
  have "\<not> va \<ge> MAXVA" using assms by (simp add: word_le_nat_alt unat_MAXVA)
  then show ?thesis
    using walk_loop_present [of 0 2 s r v r va t] assms by (simp add: walk_def path_to_simps)
qed

text \<open>When no table is new the allocator still has all its pages.\<close>

lemma pt_grows_no_new:
  assumes "pt_grows r {} s s'" "mm_wf s"
  shows "set (free_list s') = set (free_list s)"
proof -
  have "pt_tables (mem s') r = pt_tables (mem s) r" using pt_grows_tables [OF assms(1)] by auto
  then have "length (free_list s') = length (free_list s)" "set (free_list s') \<subseteq> set (free_list s)" "mm_wf s'"
    using assms(1) by (simp_all add: pt_grows_def)
  with assms(2) show ?thesis
    by (metis List.finite_set card_subset_eq distinct_card mm_wf_def)
qed

text \<open>The translations of \<open>kvm_entry\<close> are the identity on three ranges.\<close>

lemma leaf_entry_perm: "leaf_entry pa perm AND 14 = scast perm AND 14"
proof -
  have "PA2PTE pa AND 14 = 0"
    using PA2PTE_flags [of pa] by (simp add: and.commute [of _ 14] bit.conj_disj_distrib)
  then show ?thesis
    by (simp add: leaf_entry_def and.commute [of _ 14] bit.conj_disj_distrib)
qed

lemma leaf_entry_flags: "leaf_entry pa 14 AND 14 = 14" "leaf_entry pa 6 AND 14 = 6"
  by (simp_all add: leaf_entry_perm)

lemma page_no_range: "c * 4096 \<le> unat x \<longleftrightarrow> c \<le> page_no x" "unat x < c * 4096 \<longleftrightarrow> page_no x < c"
  by (simp_all add: page_no_def less_eq_div_iff_mult_less_eq div_less_iff_less_mult)

lemma kvm_entry_addr:
  assumes "pt_wf s r" "unat x < 2 ^ 38" "translate (mem s) r (page_no x) = kvm_entry (page_no x)"
  shows "va2pa r x s = (if KERNBASE \<le> x \<and> x < PHYSTOP \<or> 0x0C000000 \<le> x \<and> x < 0x10001000 \<or>
           0x02000000 \<le> x \<and> x < 0x02010000 then x else 0)"
proof -
  have r: "KERNBASE \<le> x \<and> x < PHYSTOP \<longleftrightarrow> 524288 \<le> page_no x \<and> page_no x < 557056"
    "0x0C000000 \<le> x \<and> x < 0x10001000 \<longleftrightarrow> 49152 \<le> page_no x \<and> page_no x < 65537"
    "0x02000000 \<le> x \<and> x < 0x02010000 \<longleftrightarrow> 8192 \<le> page_no x \<and> page_no x < 8208"
    by (simp_all add: KERNBASE_def PHYSTOP_def word_le_nat_alt word_less_nat_alt flip: page_no_range)
  have id: "va2pa r x s = x" if "kvm_entry (page_no x) = Some (leaf_entry (of_nat (page_no x) * 4096) q)" "q < 1024" for q
    using va2pa_mapped [OF assms(1,2) that(2) page_aligned_0, of 0] assms(3) that(1) by simp
  show ?thesis
  proof (cases "kvm_entry (page_no x)")
    case None
    then show ?thesis using va2pa_translate [OF assms(1,2)] assms(3)
      unfolding r by (auto simp: page_no_def kvm_entry_def split: if_splits)
  next
    case (Some e)
    then have "va2pa r x s = x" using id [of 14] id [of 6]
      by (auto simp: kvm_entry_def split: if_splits)
    then show ?thesis using Some unfolding r by (auto simp: kvm_entry_def split: if_splits)
  qed
qed

lemma tables_under_card:
  assumes "pt_wf s r"
  shows "card (tables_under (mem s) r []) = card (pt_tables (mem s) r)"
proof -
  note sep = assms [unfolded pt_wf_def]
  have "tables_under (mem s) r [] = (\<lambda>p. the (table_at (mem s) r p)) ` pt_tables (mem s) r"
    by (force simp: tables_under_def pt_tables_def)
  moreover have "inj_on (\<lambda>p. the (table_at (mem s) r p)) (pt_tables (mem s) r)"
    using pt_sepD(3) [OF sep] by (fastforce simp: inj_on_def pt_tables_def)
  ultimately show ?thesis by (simp add: card_image)
qed

text \<open>The pages that leave the free list are the new tables.\<close>

lemma pt_grows_pages:
  assumes g: "pt_grows r P s s'" and wf: "mm_wf s" "pt_wf s r"
  shows "tables_under (mem s) r [] \<subseteq> tables_under (mem s') r []"
    "set (free_list s) - set (free_list s') = tables_under (mem s') r [] - tables_under (mem s) r []"
proof -
  let ?T = "tables_under (mem s) r []" and ?T' = "tables_under (mem s') r []"
  let ?F = "set (free_list s)" and ?F' = "set (free_list s')"
  have wf': "mm_wf s'" "pt_wf s' r" "?F' \<subseteq> ?F" using g by (simp_all add: pt_grows_def)
  show sub: "?T \<subseteq> ?T'" using g by (auto simp: pt_grows_def tables_under_def)
  have "?T' - ?T \<subseteq> ?F" using g by (fastforce simp: pt_grows_def tables_under_def)
  moreover have "?T' \<inter> ?F' = {}" using pt_sepD(2) [OF wf'(2) [unfolded pt_wf_def]] by (auto simp: tables_under_def)
  ultimately have new: "?T' - ?T \<subseteq> ?F - ?F'" by blast
  have "?T' \<subseteq> (\<lambda>p. the (table_at (mem s') r p)) ` pt_paths" by (force simp: tables_under_def)
  then have fin: "finite ?T'" by (rule finite_subset) (simp add: finite_pt_paths)
  have "card (?F - ?F') = length (free_list s) - length (free_list s')"
    using wf wf'(1,3) by (simp add: card_Diff_subset mm_wf_def distinct_card)
  also have "\<dots> = card ?T' - card ?T"
  proof -
    have "length (free_list s') + card (pt_tables (mem s') r) = length (free_list s) + card (pt_tables (mem s) r)"
      using g by (simp add: pt_grows_def)
    then show ?thesis using tables_under_card [OF wf(2)] tables_under_card [OF wf'(2)] by simp
  qed
  also have "\<dots> = card (?T' - ?T)" using sub fin by (simp add: card_Diff_subset finite_subset)
  finally show "?F - ?F' = ?T' - ?T" using card_subset_eq [OF _ new] by simp
qed

lemma room_missing: "room P r s \<longleftrightarrow> card (P - pt_tables (mem s) r) \<le> length (free_list s)" if "P \<subseteq> pt_paths"
proof -
  have "card (P \<union> pt_tables (mem s) r) = card (P - pt_tables (mem s) r) + card (pt_tables (mem s) r)"
    using finite_subset [OF that finite_pt_paths] by (subst card_Un_disjoint [symmetric]) auto
  then show ?thesis by (simp add: room_def)
qed

section \<open>Properties\<close>

text \<open>A fresh page table in the sample image, for the witnesses.\<close>

definition sample_pt :: mm_state where
  "sample_pt = snd (alloc_page (mm_init sample_mm))"

lemma sample_first_page: "\<exists>ps. free_list (mm_init sample_mm) = 0x80640000 # ps"
proof -
  have "[0..<31168] = 0 # [Suc 0..<31168]" by (rule upt_conv_Cons) simp
  then show ?thesis unfolding sample_free_list by (simp only: list.map nth_page_def) simp
qed

lemma sample_pt_facts:
  "mm_wf sample_pt" "pt_wf sample_pt 0x80640000" "translate (mem sample_pt) 0x80640000 = (\<lambda>_. None)"
  "length (free_list sample_pt) = 31167" "tables_under (mem sample_pt) 0x80640000 [] = {0x80640000}"
proof -
  obtain ps where ps: "free_list (mm_init sample_mm) = 0x80640000 # ps" using sample_first_page by blast
  note f = fresh_root [OF sample_pool(1) ps, folded sample_pt_def]
  show "mm_wf sample_pt" "pt_wf sample_pt 0x80640000" "translate (mem sample_pt) 0x80640000 = (\<lambda>_. None)"
    using mm_wf_alloc [OF sample_pool(1)] f by (simp_all add: sample_pt_def)
  show "length (free_list sample_pt) = 31167"
    using free_list_alloc [OF sample_pool(1) ps] ps sample_pool(2) by (simp add: sample_pt_def)
  show "tables_under (mem sample_pt) 0x80640000 [] = {0x80640000}"
    by (rule fresh_tables [OF f(3)])
qed

lemma range_paths_le: "card (range_paths v n) \<le> 2 * n"
proof -
  have "card (range_paths v n) \<le> (\<Sum>w = v..<v + n. card (walk_paths w))"
    unfolding range_paths_def by (rule card_UN_le) simp
  also have "\<dots> \<le> (\<Sum>w = v..<v + n. 2)"
    by (rule sum_mono) (simp add: walk_paths_def card_insert_if)
  finally show ?thesis by simp
qed

text \<open>
  C7: For a page-aligned physical address and permissions within the ten flag bits, with enough free
  pages for the tables of the range that are missing, \<open>mappages\<close> on an unmapped range below \<open>MAXVA\<close>
  returns 0, and afterwards every address of the range's pages translates to the physical address at
  the same offset from \<open>pa\<close>, every other address translates as before, and both invariants hold.
\<close>

theorem mappages_maps:
  assumes "mm_wf s" "pt_wf s r" "sz \<noteq> 0" "unat va + unat sz \<le> 2 ^ 38" "page_aligned pa" "perm < 1024"
    and "card (range_paths (page_no va) (page_count va sz) - pt_tables (mem s) r) \<le> length (free_list s)"
    and "\<forall>w. page_no va \<le> w \<longrightarrow> w < page_no va + page_count va sz \<longrightarrow> translate (mem s) r w = None"
  shows "\<exists>s'. mappages r va sz pa perm s = Ret 0 s' \<and> mm_wf s' \<and> pt_wf s' r \<and>
    (\<forall>x. unat x < 2 ^ 38 \<longrightarrow> va2pa r x s' =
       (if page_no va \<le> page_no x \<and> page_no x < page_no va + page_count va sz
        then pa + (x - va div PGSIZE * PGSIZE) else va2pa r x s))"
proof -
  note room = room_missing [OF range_paths_pt, THEN iffD2, OF assms(7)]
  obtain s' where s': "mappages r va sz pa perm s = Ret 0 s'" "pt_grows r (range_paths (page_no va) (page_count va sz)) s s'"
    and tr: "\<And>w. w < 2 ^ 27 \<Longrightarrow> translate (mem s') r w =
       (if page_no va \<le> w \<and> w < page_no va + page_count va sz
        then Some (leaf_entry (pa + of_nat (w - page_no va) * 4096) perm) else translate (mem s) r w)"
    using mappages_ok [OF assms(1-4) room order_refl range_paths_pt assms(8)] by blast
  have wf: "mm_wf s'" "pt_wf s' r" using s'(2) by (simp_all add: pt_grows_def)
  have "va2pa r x s' = (if page_no va \<le> page_no x \<and> page_no x < page_no va + page_count va sz
        then pa + (x - va div PGSIZE * PGSIZE) else va2pa r x s)" if x: "unat x < 2 ^ 38" for x
    using tr [OF page_no_less [OF x]] va2pa_mapped [OF wf(2) x assms(6,5), of "page_no va"]
      va2pa_translate [OF wf(2) x] va2pa_translate [OF assms(2) x]
    by (auto simp: page_start page_no_def)
  with s'(1) wf show ?thesis by blast
qed

theorem mappages_maps_witness:
  "\<exists>s'. mappages 0x80640000 0x1000 0x2000 0x80700000 6 sample_pt = Ret 0 s' \<and>
     va2pa 0x80640000 0x2234 s' = 0x80701234"
proof -
  have n: "page_no 0x1000 = 1" "page_count 0x1000 0x2000 = 2" "page_no 0x2234 = 2"
    by (simp_all add: page_no_def page_count_def)
  have "card (range_paths 1 2 - pt_tables (mem sample_pt) 0x80640000) \<le> card (range_paths 1 2)"
    by (intro card_mono finite_subset [OF range_paths_pt finite_pt_paths]) auto
  then have "card (range_paths 1 2 - pt_tables (mem sample_pt) 0x80640000) \<le> length (free_list sample_pt)"
    using range_paths_le [of 1 2] sample_pt_facts(4) by simp
  with mappages_maps [OF sample_pt_facts(1,2), of "0x2000" "0x1000" "0x80700000" 6] n sample_pt_facts(3)
  show ?thesis by (auto simp: page_aligned_def dest!: spec [of _ "0x2234"])
qed

text \<open>
  C8: Whatever way \<open>mappages\<close> ends (success, failure, panic), the invariants of the allocator and of
  the table hold, every page that was mapped keeps its entry, and only pages of the requested range
  (all pages from its start when the end wraps around) are new, with the given permissions. The table
  keeps its pages, and the pages the allocator has lost are exactly the new ones among them. Every other
  page table with pages of its own keeps them, its invariant and its entries.
\<close>

theorem mappages_keeps:
  fixes s :: "'z mm_state_scheme"
  assumes "mm_wf s" "pt_wf s r"
  shows "let s' = end_state (mappages r va sz pa perm s) in
    mm_wf s' \<and> pt_wf s' r \<and>
    (\<forall>x < 2 ^ 27. translate (mem s') r x = translate (mem s) r x \<or>
       translate (mem s) r x = None \<and> page_no va \<le> x \<and>
       (page_no va \<le> page_no (va + sz - 1) \<longrightarrow> x \<le> page_no (va + sz - 1)) \<and>
       (\<exists>p. translate (mem s') r x = Some (leaf_entry p perm))) \<and>
    tables_under (mem s) r [] \<subseteq> tables_under (mem s') r [] \<and>
    set (free_list s) - set (free_list s') = tables_under (mem s') r [] - tables_under (mem s) r [] \<and>
    set (free_list s') \<subseteq> set (free_list s) \<and>
    (\<forall>q. pt_wf s q \<longrightarrow> tables_under (mem s) q [] \<inter> tables_under (mem s) r [] = {} \<longrightarrow>
       pt_wf s' q \<and> tables_under (mem s') q [] = tables_under (mem s) q [] \<and> translate (mem s') q = translate (mem s) q)"
proof -
  note g = mappages_frame [OF assms, where va = va and sz = sz and pa = pa and perm = perm]
  show ?thesis
    using g pt_grows_pages [OF g(1) assms] pt_grows_other [OF g(1) assms]
    unfolding Let_def by (intro conjI) (simp_all add: pt_grows_def, auto simp: only_new_def new_entry_def)
qed

theorem mappages_keeps_witness:
  "\<exists>q (s :: mm_state). mm_wf s \<and> pt_wf s q \<and> q \<noteq> 0x80640000 \<and>
     translate (mem (end_state (mappages 0x80640000 0x1000 0x2000 0x80700000 6 s))) 0x80640000 9 = None \<and>
     translate (mem (end_state (mappages 0x80640000 0x1000 0x2000 0x80700000 6 s))) q = (\<lambda>_. None)"
proof -
  obtain q qs where q: "free_list sample_pt = q # qs"
    using sample_pt_facts(4) by (cases "free_list sample_pt") auto
  let ?s = "snd (alloc_page sample_pt)"
  note f = fresh_root [OF sample_pt_facts(1) q] and o = pt_wf_alloc [OF sample_pt_facts(1,2)]
  have ne: "q \<noteq> 0x80640000"
    using pt_sepD(2) [OF sample_pt_facts(2) [unfolded pt_wf_def], of "[]"] q by auto
  have u: "tables_under (mem ?s) 0x80640000 [] = {0x80640000}" "tables_under (mem ?s) q [] = {q}"
    by (simp_all add: o(2) sample_pt_facts(5) fresh_tables [OF f(3)])
  have tr: "translate (mem ?s) 0x80640000 9 = None"
    by (simp add: o(3) sample_pt_facts(3))
  have wf: "mm_wf ?s" by (intro wf_pres sample_pt_facts)
  note k = mappages_keeps [OF this o(1), of "0x1000" "0x2000" "0x80700000" 6, unfolded Let_def]
  have "translate (mem (end_state (mappages 0x80640000 0x1000 0x2000 0x80700000 6 ?s))) 0x80640000 9 = None"
    using k tr by (auto simp: page_no_def dest!: spec [of _ 9])
  moreover have "translate (mem (end_state (mappages 0x80640000 0x1000 0x2000 0x80700000 6 ?s))) q = (\<lambda>_. None)"
    using k f(1,2) u ne by auto
  ultimately show ?thesis using wf f(1) ne by blast
qed

text \<open>
  C9: \<open>mappages\<close> refuses by panic a size of zero and a range whose first page is mapped, changing no
  cell; a range that starts at or above \<open>MAXVA\<close> gives -1 with the state unchanged.
\<close>

theorem mappages_refuses:
  assumes "mm_wf s" "pt_wf s r"
  shows "mappages r va 0 pa perm s = panic ''mappages: size is zero'' s \<and>
    (sz \<noteq> 0 \<longrightarrow> va \<ge> MAXVA \<longrightarrow> mappages r va sz pa perm s = Ret (- 1) s) \<and>
    (sz \<noteq> 0 \<longrightarrow> va < MAXVA \<longrightarrow> translate (mem s) r (page_no va) \<noteq> None \<longrightarrow>
       mappages r va sz pa perm s = panic ''mappages: remap'' s)"
proof -
  let ?a = "va div PGSIZE * PGSIZE"
  have a: "unat ?a = 4096 * page_no va" by (simp only: page_round(1) page_no_def)
  have "?a \<ge> MAXVA" if "va \<ge> MAXVA"
  proof -
    have "(2 ^ 38 :: nat) div 4096 \<le> page_no va"
      using that by (simp add: page_no_def word_le_nat_alt unat_MAXVA div_le_mono)
    then show ?thesis unfolding word_le_nat_alt unat_MAXVA a by simp
  qed
  then have "mappages r va sz pa perm s = Ret (- 1) s" if "sz \<noteq> 0" "va \<ge> MAXVA"
    using that by (simp add: mappages_def Let_def) (subst mappages_loop.simps, simp add: walk_def)
  moreover have "mappages r va sz pa perm s = panic ''mappages: remap'' s"
    if sz: "sz \<noteq> 0" and v: "va < MAXVA" and some: "translate (mem s) r (page_no va) \<noteq> None"
  proof -
    have lt: "unat ?a < 2 ^ 38" using v a by (simp add: page_no_def word_less_nat_alt unat_MAXVA)
    obtain t where t: "table_at (mem s) r (leaf_path (page_no va)) = Some t"
      "PTE_VALID (mem s (cell t (vpn_idx 0 (page_no va))))"
      using some by (auto simp: translate_def Let_def split: option.splits if_splits)
    have "walk r ?a True s = (cell t (vpn_idx 0 (page_no va)), s)"
      by (rule walk_present [OF lt _ t(1)]) (subst a, simp)
    moreover have "cell t (vpn_idx 0 (page_no va)) \<noteq> NULL"
      using pt_sepD(1,2) [OF assms(2) [unfolded pt_wf_def] leaf_path_pt t(1)] managed_page(2)
      by (intro cell_nonzero) auto
    ultimately show ?thesis
      using sz t(2) by (simp add: mappages_def Let_def) (subst mappages_loop.simps, simp)
  qed
  ultimately show ?thesis by (simp add: mappages_def)
qed

theorem mappages_refuses_witness:
  "mappages 0x80640000 (- 1) 1 0 6 sample_pt = Ret (- 1) sample_pt"
proof -
  have "(- 1 :: u64) \<ge> MAXVA" by (simp add: MAXVA_def)
  with mappages_refuses [OF sample_pt_facts(1,2), of "- 1" 0 6 1] show ?thesis by simp
qed

text \<open>
  C10: \<open>unmappages\<close> on a range below \<open>MAXVA\<close> removes the mappings up to the first page of the range
  that is not mapped: with no such page it returns with exactly the range unmapped, otherwise it
  panics there. No other translation changes and the invariants hold.
\<close>

theorem unmappages_unmaps:
  assumes "mm_wf s" "pt_wf s r" "sz \<noteq> 0" "unat va + unat sz \<le> 2 ^ 38" "m \<le> page_count va sz"
    and "\<forall>w. page_no va \<le> w \<longrightarrow> w < page_no va + m \<longrightarrow> translate (mem s) r w \<noteq> None"
    and "m < page_count va sz \<longrightarrow> translate (mem s) r (page_no va + m) = None"
  shows "\<exists>s'. unmappages r va sz s =
      (if m = page_count va sz then Ret () s' else panic ''unmappages: not mapped'' s') \<and>
    mm_wf s' \<and> pt_wf s' r \<and> set (free_list s') = set (free_list s) \<and>
    (\<forall>x < 2 ^ 27. translate (mem s') r x =
       (if page_no va \<le> x \<and> x < page_no va + m then None else translate (mem s) r x))"
proof -
  obtain s' where s': "unmappages r va sz s =
      (if m = page_count va sz then Ret () s' else panic ''unmappages: not mapped'' s')"
    "pt_grows r {} s s'"
    "\<forall>x < 2 ^ 27. translate (mem s') r x =
       (if page_no va \<le> x \<and> x < page_no va + m then None else translate (mem s) r x)"
    using unmappages_loop_range [OF assms(1,2) page_count_facts(3,4,1,2) [OF assms(3,4)] assms(5-7), of "{}"]
      assms(3) by (auto simp: unmappages_def)
  moreover have "mm_wf s'" "pt_wf s' r" using s'(2) by (simp_all add: pt_grows_def)
  ultimately show ?thesis using pt_grows_no_new [OF s'(2) assms(1)] by blast
qed

theorem unmappages_unmaps_witness:
  "\<exists>s s'. translate (mem s) 0x80640000 1 \<noteq> None \<and> unmappages 0x80640000 0x1000 0x1000 s = Ret () s' \<and>
     translate (mem (s' :: mm_state)) 0x80640000 1 = None"
proof -
  have n: "page_no 0x1000 = 1" "page_count 0x1000 0x1000 = 1"
    by (simp_all add: page_no_def page_count_def)
  have "room (range_paths 1 1) 0x80640000 sample_pt"
    using range_paths_le [of 1 1] sample_pt_facts(4) by (intro room_card) simp
  with mappages_ok [OF sample_pt_facts(1,2), of "0x1000" "0x1000" "range_paths 1 1" "0x80700000" 6] n
    sample_pt_facts(3) range_paths_pt
  obtain s where s: "pt_grows 0x80640000 (range_paths 1 1) sample_pt s"
    "translate (mem s) 0x80640000 1 \<noteq> None" by (auto dest!: spec [of _ 1])
  then have wf: "mm_wf s" "pt_wf s 0x80640000" by (simp_all add: pt_grows_def)
  have r: "\<forall>w. page_no 0x1000 \<le> w \<longrightarrow> w < page_no 0x1000 + 1 \<longrightarrow> translate (mem s) 0x80640000 w \<noteq> None"
  proof (intro allI impI)
    fix w assume "page_no 0x1000 \<le> w" "w < page_no 0x1000 + 1"
    then have "w = 1" using n by simp
    with s(2) show "translate (mem s) 0x80640000 w \<noteq> None" by simp
  qed
  have sz: "unat (0x1000 :: u64) + unat (0x1000 :: u64) \<le> 2 ^ 38" "(0x1000 :: u64) \<noteq> 0" by simp_all
  obtain s' where "unmappages 0x80640000 0x1000 0x1000 s = Ret () s'"
    "\<forall>x < 2 ^ 27. translate (mem s') 0x80640000 x =
       (if page_no 0x1000 \<le> x \<and> x < page_no 0x1000 + 1 then None else translate (mem s) 0x80640000 x)"
    using unmappages_unmaps [OF wf sz(2,1) _ r] n(2) by auto
  with s(2) n(1) show ?thesis by (intro exI conjI) (assumption, assumption, simp)
qed

text \<open>
  C11: With 101 free pages \<open>kvminit\<close> returns, and the kernel page table then maps RAM
  (\<open>KERNBASE\<close> to \<open>PHYSTOP\<close>), the PLIC and the UART (\<open>0x0C000000\<close> to \<open>0x10001000\<close>) and the CLINT
  (\<open>0x02000000\<close> to \<open>0x02010000\<close>) to themselves and nothing else: in particular not the test device
  at \<open>0x100000\<close> and the RTC at \<open>0x101000\<close>. RAM is mapped RWX, the devices RW.
\<close>

theorem kvminit_identity:
  fixes s :: "'z vm_state_scheme"
  assumes "mm_wf s" "101 \<le> length (free_list s)"
  shows "\<exists>s'. kvminit s = Ret () s' \<and> mm_wf s' \<and> pt_wf s' (kernel_pagetable s') \<and>
    (\<forall>x. unat x < 2 ^ 38 \<longrightarrow> va2pa (kernel_pagetable s') x s' =
       (if KERNBASE \<le> x \<and> x < PHYSTOP \<or> 0x0C000000 \<le> x \<and> x < 0x10001000 \<or>
           0x02000000 \<le> x \<and> x < 0x02010000 then x else 0)) \<and>
    (\<forall>w < 2 ^ 27. \<forall>e. translate (mem s') (kernel_pagetable s') w = Some e \<longrightarrow>
       e AND (PTE_R OR PTE_W OR PTE_X) =
         (if unat KERNBASE \<le> 4096 * w then PTE_R OR PTE_W OR PTE_X else PTE_R OR PTE_W))"
proof -
  obtain s' where k: "kvminit s = Ret () s'" "kvm_maps (length (free_list s)) (kernel_pagetable s') kvm_entry s'"
    using kvminit_ok [OF assms] by blast
  let ?p = "kernel_pagetable s'"
  have wf: "mm_wf s'" "pt_wf s' ?p" and tr: "\<And>w. w < 2 ^ 27 \<Longrightarrow> translate (mem s') ?p w = kvm_entry w"
    using k(2) by (simp_all add: kvm_maps_def kvm_wf_def)
  have "va2pa ?p x s' = (if KERNBASE \<le> x \<and> x < PHYSTOP \<or> 0x0C000000 \<le> x \<and> x < 0x10001000 \<or>
           0x02000000 \<le> x \<and> x < 0x02010000 then x else 0)" if x: "unat x < 2 ^ 38" for x
    using tr [OF page_no_less [OF x]] kvm_entry_addr [OF wf(2) x]
    by simp
  moreover have "e AND (PTE_R OR PTE_W OR PTE_X) =
       (if unat KERNBASE \<le> 4096 * w then PTE_R OR PTE_W OR PTE_X else PTE_R OR PTE_W)"
    if "w < 2 ^ 27" "translate (mem s') ?p w = Some e" for w e
    using that tr by (auto simp: kvm_entry_def KERNBASE_def leaf_entry_flags split: if_splits)
  ultimately show ?thesis using k(1) wf by blast
qed

theorem kvminit_identity_witness:
  "\<exists>s s'. mm_wf (s :: vm_state) \<and> kvminit s = Ret () s' \<and>
     va2pa (kernel_pagetable s') 0x80200000 s' = 0x80200000 \<and>
     va2pa (kernel_pagetable s') 0x100000 s' = 0 \<and> va2pa (kernel_pagetable s') 0x101000 s' = 0"
proof -
  let ?s = "mm_state.extend (mm_init sample_mm) (vm_state.fields 0)"
  have f: "free_list ?s = free_list (mm_init sample_mm)" "managed ?s = managed (mm_init sample_mm)"
    by (simp_all add: free_list_def mm_state.defs fun_eq_iff managed_def pool_start_def)
  have s: "mm_wf ?s" "101 \<le> length (free_list ?s)"
    using sample_pool by (simp_all add: mm_wf_def f)
  obtain s' where "kvminit ?s = Ret () s'" and a: "\<forall>x. unat x < 2 ^ 38 \<longrightarrow> va2pa (kernel_pagetable s') x s' =
       (if KERNBASE \<le> x \<and> x < PHYSTOP \<or> 0x0C000000 \<le> x \<and> x < 0x10001000 \<or>
           0x02000000 \<le> x \<and> x < 0x02010000 then x else 0)"
    using kvminit_identity [OF s] by blast
  with s(1) show ?thesis
    by (intro exI [of _ ?s] exI [of _ s']) (simp add: KERNBASE_def PHYSTOP_def)
qed

text \<open>
  A new table after a mapping, seen in any state \<open>t\<close> with the same memory and pool: freeing it gives back
  its root and every page the mapping took.
\<close>

lemma mapped_then_freed:
  assumes s1: "mm_wf s1" "pt_wf s1 r" "translate (mem s1) r = (\<lambda>_. None)" "pt_tables (mem s1) r = {[]}"
    and m: "mappages r va sz pa perm s1 = Ret n s2" "scast perm AND (PTE_R OR PTE_W OR PTE_X) \<noteq> (0 :: u64)"
    and t: "mem t = mem s2" "free_list t = free_list s2" "managed t = managed s2" "mm_wf t = mm_wf s2"
  shows "\<exists>s3. vm_free 3 r t = Some s3 \<and> mm_wf s3 \<and> set (free_list s3) = insert r (set (free_list s1)) \<and>
    length (free_list s3) = Suc (length (free_list s1))"
proof -
  note fr = mappages_frame [OF s1(1,2), where va = va and sz = sz and pa = pa and perm = perm, unfolded m(1) outcome.sel]
  have s2: "mm_wf t" "pt_wf t r" using fr(1) unfolding pt_wf_def t by (simp_all add: pt_grows_def pt_wf_def)
  have "e AND 14 \<noteq> 0" if "x < 2 ^ 27" "translate (mem t) r x = Some e" for x e
    using fr(2) that m(2) by (fastforce simp: only_new_def new_entry_def s1(3) t(1) leaf_entry_perm)
  then have "leaf_flags (mem t) r" by (simp add: leaf_flags_def)
  then obtain s3 qs where s3: "vm_free 3 r t = Some s3" "mm_wf s3" "free_list s3 = qs @ free_list s2"
    "distinct qs" "set qs = tables_under (mem s2) r []"
    using vm_free_pool [OF s2] by (auto simp: t)
  have "length qs = card (pt_tables (mem s2) r)"
    using s3(4,5) tables_under_card [OF s2(2)] by (simp add: t(1) flip: distinct_card)
  moreover have "length (free_list s2) + card (pt_tables (mem s2) r) = length (free_list s1) + 1"
    using fr(1) s1(4) by (simp add: pt_grows_def)
  ultimately have len: "length (free_list s3) = Suc (length (free_list s1))" using s3(3) by simp
  have "u = r \<or> u \<in> set (free_list s1)" if u: "u \<in> tables_under (mem s2) r []" for u
  proof -
    obtain p where p: "p \<in> pt_paths" "table_at (mem s2) r p = Some u" using u by (auto simp: tables_under_def)
    with fr(1) have "table_at (mem s1) r p = Some u \<or> u \<in> set (free_list s1)" by (auto simp: pt_grows_def)
    then have "u \<in> tables_under (mem s1) r [] \<or> u \<in> set (free_list s1)" using p(1) by (auto simp: tables_under_def)
    then show ?thesis by (auto simp: fresh_tables [OF s1(4)])
  qed
  moreover have "set (free_list s2) \<subseteq> set (free_list s1)" using fr(1) by (auto simp: pt_grows_def)
  ultimately have sub: "set (free_list s3) \<subseteq> insert r (set (free_list s1))" by (auto simp: s3(3,5))
  have "card (insert r (set (free_list s1))) \<le> Suc (length (free_list s1))"
    using card_insert_le_m1 card_length [of "free_list s1"] by (metis List.finite_set Suc_le_mono card_insert_if le_Suc_eq)
  then have "card (insert r (set (free_list s1))) \<le> card (set (free_list s3))"
    using len s3(2) by (simp add: mm_wf_def distinct_card)
  with sub have "set (free_list s3) = insert r (set (free_list s1))" by (intro card_seteq) simp_all
  with s3(1,2) len show ?thesis by blast
qed

lemma vm_free_mm_only:
  "vm_free d r s = Some s' \<Longrightarrow> mm_only s s'"
  "vm_free_loop d k i r s = Some s' \<Longrightarrow> mm_only s s'"
proof (induction d r s and d k i r s arbitrary: s' and s' rule: vm_free_vm_free_loop.induct)
  case (2 depth r s)
  then obtain t where t: "vm_free_loop depth 512 0 r s = Some t" "s' = free_page r t"
    by (auto split: option.splits)
  have "mm_only t s'" by (simp add: t(2) free_page_def mm_only_def)
  then show ?case using mm_only_trans "2.IH" [OF t(1)] by blast
next
  case (4 depth k i r s)
  then show ?case
    by (auto simp: Let_def split: if_splits option.splits) (meson mm_only_trans)
qed (simp_all add: mm_only_refl)

text \<open>
  C23: Creating a page table, mapping a range into it with some permission bit, successfully or not,
  and freeing it with \<open>vm_free\<close> gives every page back: \<open>vm_free\<close> ends within three levels and the
  allocator holds exactly the pages it held at the start.
\<close>

theorem vm_free_no_leak:
  assumes "mm_wf s" "vm_create_user_pagetable s = (r, s1)" "r \<noteq> NULL"
    and "mappages r va sz pa perm s1 = Ret n s2" "scast perm AND (PTE_R OR PTE_W OR PTE_X) \<noteq> (0 :: u64)"
  shows "\<exists>s3. vm_free 3 r s2 = Some s3 \<and> mm_wf s3 \<and> set (free_list s3) = set (free_list s) \<and>
    length (free_list s3) = length (free_list s)"
proof -
  have al: "alloc_page s = (r, s1)"
    using assms(2,3) by (auto simp: vm_create_user_pagetable_def Let_def split: prod.splits if_splits)
  then obtain ps where fl: "free_list s = r # ps"
    using pp.alloc_NULL_iff [OF assms(1)] pp.alloc_pops [OF assms(1)] assms(3) by (cases "free_list s") auto
  note f = fresh_root [OF assms(1) fl, unfolded al snd_conv]
  have s1: "mm_wf s1" "free_list s1 = ps"
    using mm_wf_alloc [OF assms(1)] free_list_alloc [OF assms(1) fl] by (simp_all add: al)
  from mapped_then_freed [OF s1(1) f assms(4,5) refl refl refl refl] show ?thesis by (simp add: s1(2) fl)
qed

theorem vm_free_no_leak_witness:
  "\<exists>r s1 s2 s3. vm_create_user_pagetable (mm_init sample_mm) = (r, s1) \<and>
     mappages r 0x1000 0x2000 0x80700000 6 s1 = Ret 0 s2 \<and> vm_free 3 r s2 = Some s3 \<and>
     length (free_list s3) = 31168"
proof -
  obtain ps where "free_list (mm_init sample_mm) = 0x80640000 # ps" using sample_first_page by blast
  then have al: "alloc_page (mm_init sample_mm) = (0x80640000, sample_pt)"
    using pp.alloc_pops [OF sample_pool(1)] by (simp add: sample_pt_def prod_eq_iff)
  then have c: "vm_create_user_pagetable (mm_init sample_mm) = (0x80640000, sample_pt)"
    by (simp add: vm_create_user_pagetable_def)
  have n: "page_no 0x1000 = 1" "page_count 0x1000 0x2000 = 2"
    by (simp_all add: page_no_def page_count_def)
  have "room (range_paths 1 2) 0x80640000 sample_pt"
    using range_paths_le [of 1 2] sample_pt_facts(4) by (intro room_card) simp
  with mappages_ok [OF sample_pt_facts(1,2), of "0x2000" "0x1000" "range_paths 1 2" "0x80700000" 6] n
    sample_pt_facts(3) range_paths_pt
  obtain s2 where m: "mappages 0x80640000 0x1000 0x2000 0x80700000 6 sample_pt = Ret 0 s2" by auto
  have nz: "(0x80640000 :: u64) \<noteq> NULL" by simp
  have p: "scast (6 :: u32) AND (PTE_R OR PTE_W OR PTE_X) \<noteq> (0 :: u64)" by simp
  from vm_free_no_leak [OF sample_pool(1) c nz m p] c m sample_pool(2) show ?thesis by auto
qed

end
