(* ===== verification/Process.thy ===== *)
theory Process
  imports Vm_Kernel
begin

text \<open>
  The process table (\<open>kernel/process/process.c\<close>, \<open>kernel/process/process.h\<close>): slots, process
  identifiers, the global tick counter and the statistics of a process.
\<close>

section \<open>Data\<close>

datatype proc_state_t = PROC_UNUSED | PROC_RUNNABLE | PROC_RUNNING | PROC_SLEEPING | PROC_ZOMBIE

datatype sched_policy_t = SCHED_NORMAL | SCHED_FIFO | SCHED_RR | SCHED_IDLE

text \<open>The values of the enumerators, as \<open>%d\<close> prints them.\<close>

primrec state_val :: "proc_state_t \<Rightarrow> u64" where
  "state_val PROC_UNUSED = 0"
| "state_val PROC_RUNNABLE = 1"
| "state_val PROC_RUNNING = 2"
| "state_val PROC_SLEEPING = 3"
| "state_val PROC_ZOMBIE = 4"

primrec policy_val :: "sched_policy_t \<Rightarrow> u64" where
  "policy_val SCHED_NORMAL = 0"
| "policy_val SCHED_FIFO = 1"
| "policy_val SCHED_RR = 2"
| "policy_val SCHED_IDLE = 3"

definition PRIORITY_MIN :: int where [simp]: "PRIORITY_MIN = 0"
definition PRIORITY_MAX :: int where [simp]: "PRIORITY_MAX = 139"
definition PRIORITY_DEFAULT :: int where [simp]: "PRIORITY_DEFAULT = 100"
definition PRIORITY_RT_MAX :: int where [simp]: "PRIORITY_RT_MAX = 99"
definition PRIORITY_NORMAL_MIN :: int where [simp]: "PRIORITY_NORMAL_MIN = 100"
definition MAX_PROCESSES :: nat where [simp]: "MAX_PROCESSES = 64"

record proc_stats_t =
  cpu_time :: u64
  context_switches :: u64
  start_time :: u64
  last_run :: u64

text \<open>
  A process. The fields of type \<open>int\<close> hold small numbers only (priorities are clamped, levels are
  below 4), so they are integers; \<open>p_name\<close> is the text up to the terminator.
\<close>

record process_t =
  p_pid :: u64
  p_state :: proc_state_t
  p_pagetable :: addr
  p_context :: context_t
  p_kernel_sp :: u64
  p_user_sp :: u64
  p_name :: string
  p_priority :: int
  p_dynamic_priority :: int
  p_policy :: sched_policy_t
  p_queue_level :: int
  p_time_slice :: u64
  p_cpu_affinity :: u64
  p_cpu_id :: int
  p_stats :: proc_stats_t

text \<open>
  A pointer to a process points into \<open>proc_table\<close> or, for the scheduler's idle processes, into
  \<open>idle_processes\<close>; a null pointer is \<open>None\<close>.
\<close>

datatype proc_ref = Proc nat | Idle nat

record proc_state = vm_state +
  proc_table :: "process_t list"
  next_pid :: u64
  global_ticks :: u64
  idle_processes :: "process_t list"

primrec get_proc :: "'z proc_state_scheme \<Rightarrow> proc_ref \<Rightarrow> process_t" where
  "get_proc s (Proc i) = proc_table s ! i"
| "get_proc s (Idle i) = idle_processes s ! i"

primrec upd_proc :: "(process_t \<Rightarrow> process_t) \<Rightarrow> proc_ref \<Rightarrow> 'z proc_state_scheme \<Rightarrow> 'z proc_state_scheme" where
  "upd_proc f (Proc i) s = s\<lparr>proc_table := (proc_table s)[i := f (proc_table s ! i)]\<rparr>"
| "upd_proc f (Idle i) s = s\<lparr>idle_processes := (idle_processes s)[i := f (idle_processes s ! i)]\<rparr>"

text \<open>The pointer is one of the two arrays' elements.\<close>

primrec valid_ref :: "'z proc_state_scheme \<Rightarrow> proc_ref \<Rightarrow> bool" where
  "valid_ref s (Proc i) \<longleftrightarrow> i < length (proc_table s)"
| "valid_ref s (Idle i) \<longleftrightarrow> i < length (idle_processes s)"

section \<open>Operations\<close>

definition get_ticks :: "'z proc_state_scheme \<Rightarrow> u64" where
  "get_ticks s = global_ticks s"

definition tick_increment :: "'z proc_state_scheme \<Rightarrow> 'z proc_state_scheme" where
  "tick_increment s = s\<lparr>global_ticks := global_ticks s + 1\<rparr>"

definition process_init :: "'z proc_state_scheme \<Rightarrow> 'z proc_state_scheme" where
  "process_init s = s\<lparr>proc_table := map (\<lambda>p. p\<lparr>p_state := PROC_UNUSED, p_pid := 0\<rparr>) (proc_table s)\<rparr>"

text \<open>The body of the loop of \<open>process_alloc\<close> on the slot it has found.\<close>

definition fresh_slot :: "u64 \<Rightarrow> u64 \<Rightarrow> process_t \<Rightarrow> process_t" where
  "fresh_slot pid now p =
     p\<lparr>p_pid := pid, p_state := PROC_RUNNABLE, p_name := '''',
       p_priority := PRIORITY_DEFAULT, p_dynamic_priority := PRIORITY_DEFAULT,
       p_policy := SCHED_NORMAL, p_queue_level := 0, p_time_slice := 0,
       p_cpu_affinity := 0xFFFFFFFFFFFFFFFF, p_cpu_id := - 1,
       p_stats := \<lparr>cpu_time = 0, context_switches = 0, start_time = now, last_run = 0\<rparr>\<rparr>"

text \<open>The scan: \<open>k\<close> slots to go, at slot \<open>i\<close>.\<close>

fun process_alloc_loop :: "nat \<Rightarrow> nat \<Rightarrow> 'z proc_state_scheme \<Rightarrow> proc_ref option \<times> 'z proc_state_scheme" where
  "process_alloc_loop 0 i s = (None, s)"
| "process_alloc_loop (Suc k) i s =
     (if p_state (proc_table s ! i) = PROC_UNUSED
      then (Some (Proc i),
            (upd_proc (fresh_slot (next_pid s) (global_ticks s)) (Proc i) s)\<lparr>next_pid := next_pid s + 1\<rparr>)
      else process_alloc_loop k (Suc i) s)"

definition process_alloc :: "'z proc_state_scheme \<Rightarrow> proc_ref option \<times> 'z proc_state_scheme" where
  "process_alloc s = process_alloc_loop MAX_PROCESSES 0 s"

definition process_free :: "proc_ref option \<Rightarrow> 'z proc_state_scheme \<Rightarrow> 'z proc_state_scheme" where
  "process_free p s =
     (case p of
        None \<Rightarrow> s
      | Some r \<Rightarrow> upd_proc (\<lambda>p. p\<lparr>p_state := PROC_UNUSED, p_pid := 0, p_priority := 0,
           p_dynamic_priority := 0, p_queue_level := 0, p_time_slice := 0, p_cpu_id := - 1,
           p_stats := (p_stats p)\<lparr>cpu_time := 0, context_switches := 0\<rparr>\<rparr>) r s)"

text \<open>The caller's structure after the call; \<open>None\<close> for a null \<open>stats\<close>.\<close>

definition process_get_stats ::
  "proc_ref option \<Rightarrow> proc_stats_t option \<Rightarrow> 'z proc_state_scheme \<Rightarrow> proc_stats_t option" where
  "process_get_stats p stats s =
     (case (p, stats) of
        (Some r, Some st) \<Rightarrow> Some (st\<lparr>cpu_time := cpu_time (p_stats (get_proc s r)),
           context_switches := context_switches (p_stats (get_proc s r)),
           start_time := start_time (p_stats (get_proc s r)),
           last_run := last_run (p_stats (get_proc s r))\<rparr>)
      | _ \<Rightarrow> stats)"

definition process_print_stats :: "proc_ref option \<Rightarrow> 'z proc_state_scheme \<Rightarrow> 'z proc_state_scheme" where
  "process_print_stats p s =
     (case p of
        None \<Rightarrow> s
      | Some r \<Rightarrow>
          let q = get_proc s r in
          if p_state q = PROC_UNUSED then s
          else
            let uptime = global_ticks s - start_time (p_stats q);
                s = kprintf ''Process %lu (%s):\<newline>'' [Num (p_pid q), Str (p_name q)] s;
                s = kprintf ''  State: %d, Priority: %d, Policy: %d\<newline>''
                      [Num (state_val (p_state q)), Num (word_of_int (p_priority q)),
                       Num (policy_val (p_policy q))] s;
                s = kprintf ''  CPU Time: %lu ticks\<newline>'' [Num (cpu_time (p_stats q))] s;
                s = kprintf ''  Context Switches: %lu\<newline>'' [Num (context_switches (p_stats q))] s;
                s = kprintf ''  Uptime: %lu ticks\<newline>'' [Num uptime] s
            in if uptime > 0
               then kprintf ''  CPU Usage: %lu%%\<newline>'' [Num (cpu_time (p_stats q) * 100 div uptime)] s
               else s)"

section \<open>Slots\<close>

lemma get_upd_same [simp]: "valid_ref s r \<Longrightarrow> get_proc (upd_proc f r s) r = f (get_proc s r)"
  by (cases r) simp_all

lemma get_upd_other [simp]: "r \<noteq> r' \<Longrightarrow> get_proc (upd_proc f r s) r' = get_proc s r'"
  by (cases r; cases r') simp_all

lemma valid_upd [simp]: "valid_ref (upd_proc f r s) r' = valid_ref s r'"
  by (cases r; cases r') simp_all

lemma upd_proc_fields [simp]:
  "next_pid (upd_proc f r s) = next_pid s" "global_ticks (upd_proc f r s) = global_ticks s"
  "length (proc_table (upd_proc f r s)) = length (proc_table s)"
  "length (idle_processes (upd_proc f r s)) = length (idle_processes s)"
  by (cases r, simp_all)+

text \<open>The scan stops at the first unused slot.\<close>

definition alloc_slot :: "nat \<Rightarrow> 'z proc_state_scheme \<Rightarrow> 'z proc_state_scheme" where
  "alloc_slot j s =
     (upd_proc (fresh_slot (next_pid s) (global_ticks s)) (Proc j) s)\<lparr>next_pid := next_pid s + 1\<rparr>"

lemma process_alloc_loop_scan:
  "process_alloc_loop k i s = (r, s') \<Longrightarrow>
     r = None \<and> s' = s \<and> (\<forall>l. i \<le> l \<longrightarrow> l < i + k \<longrightarrow> p_state (proc_table s ! l) \<noteq> PROC_UNUSED) \<or>
     (\<exists>j < i + k. i \<le> j \<and> r = Some (Proc j) \<and> s' = alloc_slot j s \<and>
        p_state (proc_table s ! j) = PROC_UNUSED \<and>
        (\<forall>l. i \<le> l \<longrightarrow> l < j \<longrightarrow> p_state (proc_table s ! l) \<noteq> PROC_UNUSED))"
proof (induction k i s rule: process_alloc_loop.induct)
  case (2 k i s)
  show ?case
  proof (cases "p_state (proc_table s ! i) = PROC_UNUSED")
    case True
    with "2.prems" show ?thesis
      by (intro disjI2 exI [of _ i]) (auto simp: alloc_slot_def)
  next
    case False
    have "(i \<le> l) = (l = i \<or> Suc i \<le> l)" for l by auto
    with 2 False show ?thesis by auto
  qed
qed simp

text \<open>
  The table's invariant: its size, and the identifiers of the slots in use, which are not zero, below
  the next identifier and pairwise different.
\<close>

definition in_use :: "'z proc_state_scheme \<Rightarrow> nat \<Rightarrow> bool" where
  "in_use s i \<longleftrightarrow> i < MAX_PROCESSES \<and> p_state (proc_table s ! i) \<noteq> PROC_UNUSED"

definition proc_wf :: "'z proc_state_scheme \<Rightarrow> bool" where
  "proc_wf s \<longleftrightarrow> length (proc_table s) = MAX_PROCESSES \<and> 0 < next_pid s \<and>
     (\<forall>i. in_use s i \<longrightarrow> 0 < p_pid (proc_table s ! i) \<and> p_pid (proc_table s ! i) < next_pid s) \<and>
     (\<forall>i j. in_use s i \<longrightarrow> in_use s j \<longrightarrow> p_pid (proc_table s ! i) = p_pid (proc_table s ! j) \<longrightarrow> i = j)"

lemma process_alloc_cases:
  assumes "process_alloc s = (r, s')"
  obtains (full) "r = None" "s' = s" "\<forall>i < MAX_PROCESSES. in_use s i"
  | (slot) j where "r = Some (Proc j)" "j < MAX_PROCESSES" "\<not> in_use s j" "\<forall>i < j. in_use s i"
      "s' = alloc_slot j s"
  using process_alloc_loop_scan [OF assms [unfolded process_alloc_def]] by (auto simp: in_use_def)

lemma alloc_slot_facts:
  assumes "j < MAX_PROCESSES" "length (proc_table s) = MAX_PROCESSES"
  shows "length (proc_table (alloc_slot j s)) = MAX_PROCESSES"
    "proc_table (alloc_slot j s) ! i =
       (if i = j then fresh_slot (next_pid s) (global_ticks s) (proc_table s ! j) else proc_table s ! i)"
    "in_use (alloc_slot j s) i \<longleftrightarrow> i = j \<or> in_use s i" "next_pid (alloc_slot j s) = next_pid s + 1"
  using assms by (auto simp: alloc_slot_def in_use_def fresh_slot_def nth_list_update)

lemma fresh_slot_fields:
  "fresh_slot pid now p =
     \<lparr>p_pid = pid, p_state = PROC_RUNNABLE, p_pagetable = p_pagetable p, p_context = p_context p,
      p_kernel_sp = p_kernel_sp p, p_user_sp = p_user_sp p, p_name = [],
      p_priority = PRIORITY_DEFAULT, p_dynamic_priority = PRIORITY_DEFAULT, p_policy = SCHED_NORMAL, p_queue_level = 0, p_time_slice = 0,
      p_cpu_affinity = 0xFFFFFFFFFFFFFFFF, p_cpu_id = - 1,
      p_stats = \<lparr>cpu_time = 0, context_switches = 0, start_time = now, last_run = 0\<rparr>\<rparr>"
  by (cases p) (simp add: fresh_slot_def)

lemma pid_less: "(n :: u64) \<noteq> - 1 \<Longrightarrow> n < n + 1"
  using unatSuc [of n] by (simp add: word_less_nat_alt add.commute eq_neg_iff_add_eq_0)

lemma proc_wf_alloc [wf_pres]:
  assumes "proc_wf s" "next_pid s \<noteq> - 1" "process_alloc s = (r, s')"
  shows "proc_wf s'"
  using assms(3)
proof (cases rule: process_alloc_cases)
  case (slot j)
  note inc = pid_less [OF assms(2)]
  have len: "length (proc_table s) = MAX_PROCESSES" and s: "0 < next_pid s"
    and pids: "\<And>i. in_use s i \<Longrightarrow> 0 < p_pid (proc_table s ! i) \<and> p_pid (proc_table s ! i) < next_pid s"
    and inj: "\<And>i j. in_use s i \<Longrightarrow> in_use s j \<Longrightarrow> p_pid (proc_table s ! i) = p_pid (proc_table s ! j) \<Longrightarrow> i = j"
    using assms(1) by (auto simp: proc_wf_def)
  note a = alloc_slot_facts [OF slot(2) len]
  have p: "p_pid (proc_table (alloc_slot j s) ! i) = (if i = j then next_pid s else p_pid (proc_table s ! i))" for i
    by (simp add: a(2) fresh_slot_def)
  have "next_pid s \<noteq> p_pid (proc_table s ! i)" "p_pid (proc_table s ! i) \<noteq> next_pid s" if "in_use s i" for i
    using pids [OF that] by auto
  then show ?thesis
    unfolding proc_wf_def slot(5) a(1,3,4) p
    using s inc pids inj slot(3) by (auto intro: order_less_trans)
qed (use assms(1) in simp)

section \<open>Properties\<close>

definition blank_process :: process_t where
  "blank_process = \<lparr>p_pid = 0, p_state = PROC_UNUSED, p_pagetable = 0, p_context = zero_context,
     p_kernel_sp = 0, p_user_sp = 0, p_name = '''', p_priority = 0, p_dynamic_priority = 0,
     p_policy = SCHED_NORMAL, p_queue_level = 0, p_time_slice = 0, p_cpu_affinity = 0, p_cpu_id = 0,
     p_stats = \<lparr>cpu_time = 0, context_switches = 0, start_time = 0, last_run = 0\<rparr>\<rparr>"

text \<open>The process table as the loader leaves it: all zero, on top of the sample image.\<close>

definition sample_proc :: proc_state where
  "sample_proc = vm_state.extend (mm_state.extend (mm_init sample_mm) (vm_state.fields 0))
     (proc_state.fields (replicate 64 blank_process) 1 0 (replicate 8 blank_process))"

lemma sample_proc_fields:
  "proc_table sample_proc = replicate 64 blank_process" "next_pid sample_proc = 1"
  "idle_processes sample_proc = replicate 8 blank_process" "global_ticks sample_proc = 0"
  by (simp_all add: sample_proc_def vm_state.defs proc_state.defs)

lemma sample_proc_wf: "proc_wf sample_proc"
  by (auto simp: proc_wf_def in_use_def sample_proc_fields blank_process_def)

text \<open>
  C22: \<open>process_alloc\<close> takes the first unused slot and returns null only when all 64 slots are in
  use, changing nothing. The process it returns is runnable, under an identifier no other process has, with
  no name, the default priority, the normal policy on the highest level, no time slice, all CPUs allowed
  and none assigned, and statistics that start now; its page table, context and stack pointers are what the
  slot held before. The counter of identifiers has advanced, every other slot is unchanged and the table's
  invariant holds. This is until the 64-bit counter of identifiers is about to wrap around.
\<close>

theorem process_alloc_fresh:
  assumes "proc_wf s" "next_pid s \<noteq> - 1" "process_alloc s = (r, s')"
  shows "proc_wf s' \<and>
    (case r of
       None \<Rightarrow> s' = s \<and> (\<forall>i < MAX_PROCESSES. in_use s i)
     | Some q \<Rightarrow> \<exists>j < MAX_PROCESSES. q = Proc j \<and> \<not> in_use s j \<and> (\<forall>i < j. in_use s i) \<and>
         get_proc s' q =
           \<lparr>p_pid = next_pid s, p_state = PROC_RUNNABLE, p_pagetable = p_pagetable (get_proc s q), p_context = p_context (get_proc s q),
            p_kernel_sp = p_kernel_sp (get_proc s q), p_user_sp = p_user_sp (get_proc s q), p_name = [],
            p_priority = PRIORITY_DEFAULT, p_dynamic_priority = PRIORITY_DEFAULT, p_policy = SCHED_NORMAL, p_queue_level = 0, p_time_slice = 0,
            p_cpu_affinity = 0xFFFFFFFFFFFFFFFF, p_cpu_id = - 1,
            p_stats = \<lparr>cpu_time = 0, context_switches = 0, start_time = global_ticks s, last_run = 0\<rparr>\<rparr> \<and>
         next_pid s' = next_pid s + 1 \<and>
         (\<forall>i. i \<noteq> j \<longrightarrow> proc_table s' ! i = proc_table s ! i) \<and>
         (\<forall>i. in_use s i \<longrightarrow> p_pid (proc_table s' ! i) \<noteq> p_pid (get_proc s' q)))"
proof -
  have wf': "proc_wf s'" by (rule wf_pres) (rule assms)+
  have len: "length (proc_table s) = MAX_PROCESSES" using assms(1) by (simp add: proc_wf_def)
  from assms(3) show ?thesis
  proof (cases rule: process_alloc_cases)
    case full
    with wf' show ?thesis by simp
  next
    case (slot j)
    note a = alloc_slot_facts [OF slot(2) len]
    have "p_pid (proc_table s ! i) \<noteq> next_pid s" if "in_use s i" for i
      using assms(1) that by (auto simp: proc_wf_def)
    with slot(3) have "\<forall>i. in_use s i \<longrightarrow> p_pid (proc_table s' ! i) \<noteq> next_pid s"
      by (auto simp: slot(5) a(2))
    moreover have "get_proc s' (Proc j) = fresh_slot (next_pid s) (global_ticks s) (get_proc s (Proc j))"
      by (simp add: get_proc.simps slot(5) a(2))
    ultimately show ?thesis using wf' slot a unfolding fresh_slot_fields by auto
  qed
qed

theorem process_alloc_fresh_witness:
  "proc_wf sample_proc \<and> (\<exists>q s'. process_alloc sample_proc = (Some q, s') \<and> q = Proc 0 \<and>
     p_pid (get_proc s' q) = 1 \<and> p_cpu_id (get_proc s' q) = - 1)"
proof -
  obtain r s' where a: "process_alloc sample_proc = (r, s')" by (cases "process_alloc sample_proc")
  have free: "\<not> in_use sample_proc i" for i
    by (auto simp: in_use_def sample_proc_fields blank_process_def)
  with process_alloc_fresh [OF sample_proc_wf _ a] show ?thesis
    using a sample_proc_wf by (cases r) (auto simp: sample_proc_fields dest: spec [of _ 0])
qed

text \<open>
  A slot that is freed and allocated again hands the page table, the saved registers and the
  stack pointers of its previous owner to the new process.
\<close>

theorem process_slot_stale:
  assumes "proc_wf s" "j < MAX_PROCESSES" "\<forall>i < j. in_use s i"
  shows "\<exists>s'. process_alloc (process_free (Some (Proc j)) s) = (Some (Proc j), s') \<and>
    p_pagetable (get_proc s' (Proc j)) = p_pagetable (get_proc s (Proc j)) \<and>
    p_context (get_proc s' (Proc j)) = p_context (get_proc s (Proc j)) \<and>
    p_kernel_sp (get_proc s' (Proc j)) = p_kernel_sp (get_proc s (Proc j)) \<and>
    p_user_sp (get_proc s' (Proc j)) = p_user_sp (get_proc s (Proc j))"
proof -
  let ?s = "process_free (Some (Proc j)) s"
  have len: "length (proc_table s) = MAX_PROCESSES" using assms(1) by (simp add: proc_wf_def)
  have nj: "\<not> in_use ?s j" using assms(2) len by (simp add: in_use_def process_free_def)
  have below: "in_use ?s i" if "i < j" for i
    using that assms(3) by (auto simp: in_use_def process_free_def)
  obtain r s' where a: "process_alloc ?s = (r, s')" by (cases "process_alloc ?s")
  then have "r = Some (Proc j) \<and> s' = alloc_slot j ?s"
  proof (cases rule: process_alloc_cases)
    case full
    with nj assms(2) show ?thesis by blast
  next
    case (slot k)
    then have "k = j" using nj below by (metis linorder_neqE_nat)
    with slot show ?thesis by simp
  qed
  with a assms(2) len show ?thesis
    by (simp add: alloc_slot_def fresh_slot_def process_free_def)
qed

theorem process_slot_stale_witness:
  "\<exists>s'. process_alloc (process_free (Some (Proc 0)) sample_proc) = (Some (Proc 0), s')"
  using process_slot_stale [OF sample_proc_wf, of 0] by auto

end
