(* ===== verification/Queues.thy ===== *)
theory Queues
  imports Process
begin

text \<open>
  The queues of the scheduler (\<open>mlfq_t\<close> and \<open>rt_queue_t\<close> of \<open>kernel/process/scheduler.c\<close>): a ring
  buffer and a sorted array of process pointers, and the contracts they implement over lists.
\<close>

section \<open>The ring buffer\<close>

record mlfq_t =
  q_slots :: "proc_ref option list"
  q_head :: nat
  q_tail :: nat
  q_size :: nat

definition mlfq_init :: "mlfq_t \<Rightarrow> mlfq_t" where
  "mlfq_init q = q\<lparr>q_head := 0, q_tail := 0, q_size := 0\<rparr>"

definition mlfq_enqueue :: "mlfq_t \<Rightarrow> proc_ref option \<Rightarrow> mlfq_t" where
  "mlfq_enqueue q proc =
     (if proc = None \<or> q_size q \<ge> MAX_PROCESSES then q
      else q\<lparr>q_slots := (q_slots q)[q_tail q := proc],
             q_tail := (q_tail q + 1) mod MAX_PROCESSES, q_size := q_size q + 1\<rparr>)"

definition mlfq_dequeue :: "mlfq_t \<Rightarrow> proc_ref option \<times> mlfq_t" where
  "mlfq_dequeue q =
     (if q_size q = 0 then (None, q)
      else (q_slots q ! q_head q,
            q\<lparr>q_head := (q_head q + 1) mod MAX_PROCESSES, q_size := q_size q - 1\<rparr>))"

section \<open>The sorted array\<close>

record rt_queue_t =
  rt_slots :: "proc_ref option list"
  rt_size :: nat

text \<open>
  The loop of \<open>rt_enqueue\<close> from slot \<open>i\<close> down: entries of lower priority move up by one. \<open>prio\<close> reads
  the priority of the process a pointer leads to.
\<close>

fun rt_shift_up :: "(proc_ref \<Rightarrow> int) \<Rightarrow> int \<Rightarrow> nat \<Rightarrow> proc_ref option list \<Rightarrow> nat \<times> proc_ref option list" where
  "rt_shift_up prio p 0 q = (0, q)"
| "rt_shift_up prio p (Suc i) q =
     (if prio (the (q ! i)) \<le> p then (Suc i, q) else rt_shift_up prio p i (q[Suc i := q ! i]))"

definition rt_enqueue :: "(proc_ref \<Rightarrow> int) \<Rightarrow> rt_queue_t \<Rightarrow> proc_ref option \<Rightarrow> rt_queue_t" where
  "rt_enqueue prio q proc =
     (case proc of
        None \<Rightarrow> q
      | Some r \<Rightarrow>
          if rt_size q \<ge> MAX_PROCESSES then q
          else let (i, slots) = rt_shift_up prio (prio r) (rt_size q) (rt_slots q)
               in q\<lparr>rt_slots := slots[i := proc], rt_size := rt_size q + 1\<rparr>)"

text \<open>The loop of \<open>rt_dequeue\<close>: \<open>k\<close> entries to move down, at slot \<open>i\<close>.\<close>

fun rt_shift_down :: "nat \<Rightarrow> nat \<Rightarrow> proc_ref option list \<Rightarrow> proc_ref option list" where
  "rt_shift_down 0 i q = q"
| "rt_shift_down (Suc k) i q = rt_shift_down k (Suc i) (q[i := q ! Suc i])"

definition rt_dequeue :: "rt_queue_t \<Rightarrow> proc_ref option \<times> rt_queue_t" where
  "rt_dequeue q =
     (if rt_size q = 0 then (None, q)
      else (rt_slots q ! 0,
            q\<lparr>rt_size := rt_size q - 1, rt_slots := rt_shift_down (rt_size q - 1) 0 (rt_slots q)\<rparr>))"

section \<open>Contracts\<close>

text \<open>A bounded queue over its contents as a list, oldest entry to leave first.\<close>

locale bounded_queue =
  fixes enq :: "'q \<Rightarrow> 'a option \<Rightarrow> 'q"
    and deq :: "'q \<Rightarrow> 'a option \<times> 'q"
    and view :: "'q \<Rightarrow> 'a list"
    and inv :: "'q \<Rightarrow> bool"
    and cap :: nat
  assumes enq_null: "enq q None = q"
    and enq_full: "inv q \<Longrightarrow> length (view q) = cap \<Longrightarrow> enq q (Some x) = q"
    and enq_adds: "inv q \<Longrightarrow> length (view q) < cap \<Longrightarrow>
      inv (enq q (Some x)) \<and> mset (view (enq q (Some x))) = add_mset x (mset (view q))"
    and deq_empty: "inv q \<Longrightarrow> view q = [] \<Longrightarrow> deq q = (None, q)"
    and deq_first: "inv q \<Longrightarrow> view q = x # xs \<Longrightarrow>
      fst (deq q) = Some x \<and> view (snd (deq q)) = xs \<and> inv (snd (deq q))"
    and bounded: "inv q \<Longrightarrow> length (view q) \<le> cap"
begin

lemma enq_inv: "inv q \<Longrightarrow> inv (enq q p)"
  using enq_null [of q] enq_full [of q] enq_adds [of q] bounded [of q]
  by (cases p; cases "length (view q) = cap") auto

lemma deq_inv: "inv q \<Longrightarrow> inv (snd (deq q))"
  using deq_empty deq_first by (cases "view q") auto

lemma deq_null_iff: "inv q \<Longrightarrow> fst (deq q) = None \<longleftrightarrow> view q = []"
  using deq_empty deq_first by (cases "view q") auto

lemma enq_set: "inv q \<Longrightarrow> length (view q) < cap \<Longrightarrow> set (view (enq q (Some x))) = insert x (set (view q))"
  using enq_adds [of q x] by (metis set_mset_add_mset_insert set_mset_mset)

lemma enq_distinct:
  assumes "inv q" "length (view q) < cap" "distinct (view q)" "x \<notin> set (view q)"
  shows "distinct (view (enq q (Some x)))"
proof -
  have "mset (view (enq q (Some x))) = mset (x # view q)" using enq_adds assms(1,2) by simp
  then show ?thesis using assms(3,4) by (metis distinct.simps(2) mset_eq_imp_distinct_iff)
qed

end

locale fifo_queue = bounded_queue +
  assumes enq_last: "inv q \<Longrightarrow> length (view q) < cap \<Longrightarrow> view (enq q (Some x)) = view q @ [x]"
begin

text \<open>What goes in comes out in the same order.\<close>

lemma enq_all_view:
  assumes "inv q" "length (view q) + length xs \<le> cap"
  shows "inv (fold (\<lambda>x q. enq q (Some x)) xs q) \<and> view (fold (\<lambda>x q. enq q (Some x)) xs q) = view q @ xs"
  using assms
proof (induction xs arbitrary: q)
  case (Cons x xs)
  then have "inv (enq q (Some x))" "view (enq q (Some x)) = view q @ [x]"
    using enq_adds enq_last by simp_all
  with Cons show ?case by simp
qed simp

end

text \<open>Insertion after the last entry whose key is not above that of the new one.\<close>

definition insert_stable :: "('a \<Rightarrow> int) \<Rightarrow> 'a \<Rightarrow> 'a list \<Rightarrow> 'a list" where
  "insert_stable key x xs =
     rev (dropWhile (\<lambda>y. key x < key y) (rev xs)) @ x # rev (takeWhile (\<lambda>y. key x < key y) (rev xs))"

lemma insert_stable_snoc:
  "insert_stable key x [] = [x]"
  "insert_stable key x (xs @ [y]) = (if key x < key y then insert_stable key x xs @ [y] else xs @ [y, x])"
  by (simp_all add: insert_stable_def)

lemma mset_insert_stable: "mset (insert_stable key x xs) = add_mset x (mset xs)"
  by (induction xs rule: rev_induct) (simp_all add: insert_stable_snoc)

lemma length_insert_stable [simp]: "length (insert_stable key x xs) = Suc (length xs)"
  by (metis mset_insert_stable size_add_mset size_mset)

lemma sorted_insert_stable:
  "sorted (map key xs) \<Longrightarrow> sorted (map key (insert_stable key x xs))"
proof (induction xs rule: rev_induct)
  case (snoc y xs)
  then have "sorted (map key xs)" "\<forall>z \<in> set xs. key z \<le> key y"
    by (auto simp: sorted_append)
  with snoc.IH show ?case
    using mset_insert_stable [of key x xs]
    by (auto simp: insert_stable_snoc sorted_append simp flip: set_mset_mset)
qed (simp add: insert_stable_snoc)

text \<open>Entries with one key keep their order of arrival.\<close>

lemma filter_insert_stable:
  assumes "sorted (map key xs)"
  shows "filter (\<lambda>y. key y = k) (insert_stable key x xs) =
    filter (\<lambda>y. key y = k) xs @ (if key x = k then [x] else [])"
  using assms
proof (induction xs rule: rev_induct)
  case (snoc y xs)
  then show ?case by (auto simp: insert_stable_snoc sorted_append)
qed (simp add: insert_stable_snoc)

locale prio_queue = bounded_queue +
  fixes key :: "'a \<Rightarrow> int"
  assumes enq_stable: "inv q \<Longrightarrow> length (view q) < cap \<Longrightarrow>
      view (enq q (Some x)) = insert_stable key x (view q)"
begin

lemma enq_sorted:
  "inv q \<Longrightarrow> length (view q) < cap \<Longrightarrow> sorted (map key (view q)) \<Longrightarrow> sorted (map key (view (enq q (Some x))))"
  by (simp add: enq_stable sorted_insert_stable)

lemma deq_sorted: "inv q \<Longrightarrow> sorted (map key (view q)) \<Longrightarrow> sorted (map key (view (snd (deq q))))"
  using deq_empty deq_first by (cases "view q") auto

text \<open>The entry that leaves a sorted queue has the least key, and is the oldest with that key.\<close>

lemma deq_least:
  assumes "inv q" "sorted (map key (view q))" "fst (deq q) = Some x"
  shows "\<forall>y \<in> set (view q). key x \<le> key y" "x = hd (filter (\<lambda>y. key y = key x) (view q))"
proof -
  obtain xs where "view q = x # xs"
    using assms(1,3) deq_empty deq_first by (cases "view q") auto
  with assms(2) show "\<forall>y \<in> set (view q). key x \<le> key y" "x = hd (filter (\<lambda>y. key y = key x) (view q))"
    by auto
qed

end

section \<open>The ring buffer is a FIFO queue\<close>

definition mlfq_view :: "mlfq_t \<Rightarrow> proc_ref list" where
  "mlfq_view q = map (\<lambda>k. the (q_slots q ! ((q_head q + k) mod MAX_PROCESSES))) [0..<q_size q]"

definition mlfq_wf :: "mlfq_t \<Rightarrow> bool" where
  "mlfq_wf q \<longleftrightarrow> length (q_slots q) = MAX_PROCESSES \<and> q_head q < MAX_PROCESSES \<and>
     q_size q \<le> MAX_PROCESSES \<and> q_tail q = (q_head q + q_size q) mod MAX_PROCESSES \<and>
     (\<forall>k < q_size q. q_slots q ! ((q_head q + k) mod MAX_PROCESSES) \<noteq> None)"

lemma length_mlfq_view [simp]: "length (mlfq_view q) = q_size q"
  by (simp add: mlfq_view_def)

text \<open>Different positions of a ring buffer are different slots.\<close>

lemma ring_slot_eq:
  assumes "k < 64" "l < 64" "(h + k) mod 64 = (h + l) mod (64 :: nat)"
  shows "k = l"
proof -
  have "k = l" if "k \<le> l" "l < 64" "(h + l) mod 64 = (h + k) mod 64" for k l
  proof -
    have "64 dvd l - k" using mod_eq_dvd_iff_nat [of "h + k" "h + l" 64] that by simp
    with that(2) have "l - k = 0" by (metis dvd_imp_le less_imp_diff_less linorder_not_less neq0_conv)
    with that(1) show ?thesis by simp
  qed
  from this [of k l] this [of l k] assms show ?thesis by (cases "k \<le> l") simp_all
qed

lemma mlfq_enqueue_wf:
  assumes "mlfq_wf q" "q_size q < MAX_PROCESSES"
  shows "mlfq_wf (mlfq_enqueue q (Some r)) \<and> mlfq_view (mlfq_enqueue q (Some r)) = mlfq_view q @ [r]"
proof -
  let ?h = "q_head q" and ?n = "q_size q"
  have q: "length (q_slots q) = 64" "?h < 64" "?n < 64" "q_tail q = (?h + ?n) mod 64"
    "\<And>k. k < ?n \<Longrightarrow> q_slots q ! ((?h + k) mod 64) \<noteq> None"
    using assms by (simp_all add: mlfq_wf_def)
  have slot: "(q_slots q)[q_tail q := Some r] ! ((?h + k) mod 64) =
      (if k = ?n then Some r else q_slots q ! ((?h + k) mod 64))" if "k \<le> ?n" for k
    using ring_slot_eq [of k ?n ?h] that q(1,3,4) by (auto simp: nth_list_update)
  have e: "mlfq_enqueue q (Some r) = q\<lparr>q_slots := (q_slots q)[q_tail q := Some r],
      q_tail := (q_tail q + 1) mod 64, q_size := ?n + 1\<rparr>"
    using q(3) by (simp add: mlfq_enqueue_def)
  have "mlfq_view (mlfq_enqueue q (Some r)) = mlfq_view q @ [r]"
    by (simp add: mlfq_view_def e slot)
  moreover have "mlfq_wf (mlfq_enqueue q (Some r))"
    using q slot by (simp add: mlfq_wf_def e mod_Suc_eq less_Suc_eq)
  ultimately show ?thesis by simp
qed

lemma mlfq_dequeue_wf:
  assumes "mlfq_wf q" "mlfq_view q = r # rs"
  shows "fst (mlfq_dequeue q) = Some r \<and> mlfq_view (snd (mlfq_dequeue q)) = rs \<and>
    mlfq_wf (snd (mlfq_dequeue q))"
proof -
  let ?h = "q_head q"
  obtain n where n: "q_size q = Suc n" using assms(2) by (cases "q_size q") (auto simp: mlfq_view_def)
  have q: "length (q_slots q) = 64" "?h < 64" "n < 64"
    "\<And>k. k \<le> n \<Longrightarrow> q_slots q ! ((?h + k) mod 64) \<noteq> None" "q_tail q = (?h + Suc n) mod 64"
    using assms(1) n by (simp_all add: mlfq_wf_def)
  have "mlfq_view q = the (q_slots q ! ?h) # map (\<lambda>k. the (q_slots q ! ((?h + Suc k) mod 64))) [0..<n]"
    using q(2) by (simp add: mlfq_view_def n upt_conv_Cons map_Suc_upt [symmetric] del: upt_Suc)
  with assms(2) have r: "r = the (q_slots q ! ?h)" "rs = map (\<lambda>k. the (q_slots q ! ((?h + Suc k) mod 64))) [0..<n]"
    by simp_all
  moreover have "q_slots q ! ?h \<noteq> None" using q(4) [of 0] q(2) by simp
  moreover have "(Suc ?h mod 64 + k) mod 64 = (?h + Suc k) mod 64" for k
    by (metis add_Suc_right add_Suc_shift mod_add_left_eq)
  moreover have "q_slots q ! (Suc (?h + k) mod 64) \<noteq> None" if "k < n" for k
    using q(4) [of "Suc k"] that by simp
  ultimately show ?thesis
    using q n by (auto simp: mlfq_dequeue_def mlfq_view_def mlfq_wf_def)
qed

interpretation mq: fifo_queue mlfq_enqueue mlfq_dequeue mlfq_view mlfq_wf MAX_PROCESSES
proof unfold_locales
  fix q :: mlfq_t and x :: proc_ref and xs
  show "mlfq_enqueue q None = q" by (simp add: mlfq_enqueue_def)
  assume q: "mlfq_wf q"
  show "length (mlfq_view q) = MAX_PROCESSES \<Longrightarrow> mlfq_enqueue q (Some x) = q"
    by (simp add: mlfq_enqueue_def)
  show "length (mlfq_view q) \<le> MAX_PROCESSES" using q by (simp add: mlfq_wf_def)
  show "mlfq_view q = [] \<Longrightarrow> mlfq_dequeue q = (None, q)"
    by (metis length_mlfq_view list.size(3) mlfq_dequeue_def)
  show "mlfq_view q = x # xs \<Longrightarrow> fst (mlfq_dequeue q) = Some x \<and> mlfq_view (snd (mlfq_dequeue q)) = xs \<and>
      mlfq_wf (snd (mlfq_dequeue q))" by (rule mlfq_dequeue_wf [OF q])
  assume "length (mlfq_view q) < MAX_PROCESSES"
  then have n: "q_size q < MAX_PROCESSES" by simp
  show "mlfq_wf (mlfq_enqueue q (Some x)) \<and>
      mset (mlfq_view (mlfq_enqueue q (Some x))) = add_mset x (mset (mlfq_view q))"
    and "mlfq_view (mlfq_enqueue q (Some x)) = mlfq_view q @ [x]"
    using mlfq_enqueue_wf [OF q n] by simp_all
qed

section \<open>The sorted array is a stable priority queue\<close>

definition rt_view :: "rt_queue_t \<Rightarrow> proc_ref list" where
  "rt_view q = map the (take (rt_size q) (rt_slots q))"

definition rt_wf :: "rt_queue_t \<Rightarrow> bool" where
  "rt_wf q \<longleftrightarrow> length (rt_slots q) = MAX_PROCESSES \<and> rt_size q \<le> MAX_PROCESSES \<and>
     None \<notin> set (take (rt_size q) (rt_slots q))"

lemma length_rt_view [simp]: "rt_wf q \<Longrightarrow> length (rt_view q) = rt_size q"
  by (simp add: rt_view_def rt_wf_def)

lemma rt_shift_up_spec:
  assumes "i < length q" "rt_shift_up prio (prio r) i q = (j, q')"
  shows "map the (take (Suc i) (q'[j := Some r])) = insert_stable prio r (map the (take i q)) \<and>
    length q' = length q \<and> (\<forall>k > i. q'[j := Some r] ! k = q ! k) \<and>
    (None \<notin> set (take i q) \<longrightarrow> None \<notin> set (take (Suc i) (q'[j := Some r])))"
  using assms
proof (induction i arbitrary: q)
  case 0
  then show ?case by (cases q) (auto simp: insert_stable_snoc)
next
  case (Suc i)
  have tk: "take (Suc i) q = take i q @ [q ! i]" using Suc.prems(1) by (simp add: take_Suc_conv_app_nth)
  show ?case
  proof (cases "prio (the (q ! i)) \<le> prio r")
    case True
    with Suc.prems have "j = Suc i" "q' = q" by simp_all
    with True Suc.prems(1) tk show ?thesis
      by (auto simp: take_Suc_conv_app_nth insert_stable_snoc)
  next
    case False
    let ?q = "q[Suc i := q ! i]"
    let ?r = "q'[j := Some r]"
    have ih: "map the (take (Suc i) ?r) = insert_stable prio r (map the (take i ?q))"
      "length q' = length q" "\<forall>k > i. ?r ! k = ?q ! k"
      "None \<notin> set (take i ?q) \<Longrightarrow> None \<notin> set (take (Suc i) ?r)"
      using Suc.IH [of ?q] Suc.prems False by simp_all
    have "take (Suc (Suc i)) ?r = take (Suc i) ?r @ [q ! i]"
      using ih(2,3) Suc.prems(1) by (subst take_Suc_conv_app_nth) auto
    with ih False Suc.prems(1) tk show ?thesis by (auto simp: insert_stable_snoc)
  qed
qed

lemma rt_enqueue_wf:
  assumes "rt_wf q" "rt_size q < MAX_PROCESSES"
  shows "rt_wf (rt_enqueue prio q (Some r)) \<and>
    rt_view (rt_enqueue prio q (Some r)) = insert_stable prio r (rt_view q)"
proof -
  obtain j q' where s: "rt_shift_up prio (prio r) (rt_size q) (rt_slots q) = (j, q')"
    by (cases "rt_shift_up prio (prio r) (rt_size q) (rt_slots q)")
  have "rt_size q < length (rt_slots q)" using assms by (simp add: rt_wf_def)
  from rt_shift_up_spec [OF this s] assms s show ?thesis
    by (auto simp: rt_enqueue_def rt_view_def rt_wf_def)
qed

lemma rt_shift_down_nth:
  "i + k < length q \<Longrightarrow> length (rt_shift_down k i q) = length q \<and>
     rt_shift_down k i q ! l = (if i \<le> l \<and> l < i + k then q ! Suc l else q ! l)"
proof (induction k i q rule: rt_shift_down.induct)
  case (2 k i q)
  then show ?case by (auto simp: nth_list_update)
qed auto

lemma rt_dequeue_wf:
  assumes "rt_wf q" "rt_view q = r # rs"
  shows "fst (rt_dequeue q) = Some r \<and> rt_view (snd (rt_dequeue q)) = rs \<and> rt_wf (snd (rt_dequeue q))"
proof -
  obtain n where n: "rt_size q = Suc n" using assms by (cases "rt_size q") (auto simp: rt_view_def)
  have q: "length (rt_slots q) = 64" "n < 64" "None \<notin> set (take (Suc n) (rt_slots q))"
    using assms(1) n by (simp_all add: rt_wf_def)
  let ?d = "rt_shift_down n 0 (rt_slots q)"
  have d: "length ?d = 64" "\<And>l. l < n \<Longrightarrow> ?d ! l = rt_slots q ! Suc l"
    using rt_shift_down_nth [of 0 n "rt_slots q"] q by simp_all
  have "take (Suc n) (rt_slots q) = rt_slots q ! 0 # take n (tl (rt_slots q))"
    using q(1) by (cases "rt_slots q") auto
  moreover have "take n ?d = take n (tl (rt_slots q))"
    using d q(1,2) by (intro nth_equalityI) (simp_all add: nth_tl)
  ultimately show ?thesis
    using assms(2) q d(1) n by (auto simp: rt_dequeue_def rt_view_def rt_wf_def)
qed

interpretation rq: prio_queue "rt_enqueue prio" rt_dequeue rt_view rt_wf MAX_PROCESSES prio for prio
proof unfold_locales
  fix q :: rt_queue_t and x :: proc_ref and xs
  show "rt_enqueue prio q None = q" by (simp add: rt_enqueue_def)
  assume q: "rt_wf q"
  show "length (rt_view q) = MAX_PROCESSES \<Longrightarrow> rt_enqueue prio q (Some x) = q"
    using q by (simp add: rt_enqueue_def)
  show "length (rt_view q) \<le> MAX_PROCESSES" using q by (simp add: rt_wf_def)
  show "rt_view q = [] \<Longrightarrow> rt_dequeue q = (None, q)"
    using q by (metis length_rt_view list.size(3) rt_dequeue_def)
  show "rt_view q = x # xs \<Longrightarrow> fst (rt_dequeue q) = Some x \<and> rt_view (snd (rt_dequeue q)) = xs \<and>
      rt_wf (snd (rt_dequeue q))" by (rule rt_dequeue_wf [OF q])
  assume "length (rt_view q) < MAX_PROCESSES"
  then have n: "rt_size q < MAX_PROCESSES" using q by simp
  show "rt_wf (rt_enqueue prio q (Some x)) \<and>
      mset (rt_view (rt_enqueue prio q (Some x))) = add_mset x (mset (rt_view q))"
    and "rt_view (rt_enqueue prio q (Some x)) = insert_stable prio x (rt_view q)"
    using rt_enqueue_wf [OF q n] by (simp_all add: mset_insert_stable)
qed

section \<open>Sequences of operations\<close>

datatype 'a qop = Enq "'a option" | Deq

text \<open>What a sequence of operations returns, and the queue it leaves.\<close>

fun run_ops :: "('q \<Rightarrow> 'a option \<Rightarrow> 'q) \<Rightarrow> ('q \<Rightarrow> 'a option \<times> 'q) \<Rightarrow> 'a qop list \<Rightarrow> 'q \<Rightarrow> 'a option list \<times> 'q" where
  "run_ops enq deq [] q = ([], q)"
| "run_ops enq deq (Enq x # ops) q = run_ops enq deq ops (enq q x)"
| "run_ops enq deq (Deq # ops) q =
     (let (x, q) = deq q; (out, q) = run_ops enq deq ops q in (x # out, q))"

text \<open>The specifications: bounded lists with an insertion \<open>ins\<close>, and removal at the front.\<close>

definition list_enq :: "nat \<Rightarrow> ('a \<Rightarrow> 'a list \<Rightarrow> 'a list) \<Rightarrow> 'a list \<Rightarrow> 'a option \<Rightarrow> 'a list" where
  "list_enq cap ins xs x =
     (case x of None \<Rightarrow> xs | Some y \<Rightarrow> if length xs \<ge> cap then xs else ins y xs)"

fun list_deq :: "'a list \<Rightarrow> 'a option \<times> 'a list" where
  "list_deq [] = (None, [])"
| "list_deq (x # xs) = (Some x, xs)"

lemma run_ops_refines:
  assumes "\<And>q x. ok q \<Longrightarrow> ok (enq q x) \<and> view (enq q x) = enq' (view q) x"
    and "\<And>q. ok q \<Longrightarrow> ok (snd (deq q)) \<and> (fst (deq q), view (snd (deq q))) = deq' (view q)"
    and "ok q" "run_ops enq deq ops q = (out, q')"
  shows "run_ops enq' deq' ops (view q) = (out, view q') \<and> ok q'"
  using assms(3,4)
proof (induction ops arbitrary: q out)
  case (Cons op ops)
  show ?case
  proof (cases op)
    case (Enq x)
    with Cons.IH [of "enq q x" out] Cons.prems assms(1) [OF Cons.prems(1), of x] show ?thesis by simp
  next
    case Deq
    note d = assms(2) [OF Cons.prems(1)]
    obtain out' where r: "run_ops enq deq ops (snd (deq q)) = (out', q')" "out = fst (deq q) # out'"
      using Cons.prems(2) Deq by (auto simp: case_prod_beta Let_def prod_eq_iff)
    have "deq' (view q) = (fst (deq q), view (snd (deq q)))" using d by simp
    with Cons.IH [OF _ r(1)] d r(2) Deq show ?thesis by simp
  qed
qed simp

context bounded_queue
begin

lemma deq_list: "inv q \<Longrightarrow> inv (snd (deq q)) \<and> (fst (deq q), view (snd (deq q))) = list_deq (view q)"
  using deq_empty deq_first deq_inv by (cases "view q") auto

lemma enq_list:
  assumes "inv q" "\<And>y. length (view q) < cap \<Longrightarrow> view (enq q (Some y)) = ins y (view q)"
  shows "inv (enq q x) \<and> view (enq q x) = list_enq cap ins (view q) x"
  using enq_inv [OF assms(1), of x] enq_null enq_full [OF assms(1)] bounded [OF assms(1)] assms(2)
  by (auto simp: list_enq_def split: option.split)

end

context fifo_queue
begin

lemma run_fifo:
  "inv q \<Longrightarrow> run_ops enq deq ops q = (out, q') \<Longrightarrow>
     run_ops (list_enq cap (\<lambda>x xs. xs @ [x])) list_deq ops (view q) = (out, view q') \<and> inv q'"
  by (rule run_ops_refines [where enq = enq and deq = deq and ok = inv])
    (use enq_list enq_last deq_list in auto)

end

context prio_queue
begin

lemma run_prio:
  assumes "inv q" "sorted (map key (view q))" "run_ops enq deq ops q = (out, q')"
  shows "run_ops (list_enq cap (insert_stable key)) list_deq ops (view q) = (out, view q') \<and>
    inv q' \<and> sorted (map key (view q'))"
proof (rule run_ops_refines [where ok = "\<lambda>q. inv q \<and> sorted (map key (view q))", OF _ _ _ assms(3)])
  fix q x
  assume q: "inv q \<and> sorted (map key (view q))"
  then have e: "inv (enq q x) \<and> view (enq q x) = list_enq cap (insert_stable key) (view q) x"
    using enq_list enq_stable by auto
  then show "(inv (enq q x) \<and> sorted (map key (view (enq q x)))) \<and>
      view (enq q x) = list_enq cap (insert_stable key) (view q) x"
    using q by (simp add: list_enq_def sorted_insert_stable split: option.split)
next
  fix q
  assume "inv q \<and> sorted (map key (view q))"
  then show "(inv (snd (deq q)) \<and> sorted (map key (view (snd (deq q))))) \<and>
      (fst (deq q), view (snd (deq q))) = list_deq (view q)"
    using deq_list deq_sorted by auto
qed (use assms in simp)

end

section \<open>Properties\<close>

text \<open>An empty ring buffer and an empty sorted array.\<close>

definition empty_mlfq :: mlfq_t where
  "empty_mlfq = \<lparr>q_slots = replicate MAX_PROCESSES None, q_head = 0, q_tail = 0, q_size = 0\<rparr>"

definition empty_rt :: rt_queue_t where
  "empty_rt = \<lparr>rt_slots = replicate MAX_PROCESSES None, rt_size = 0\<rparr>"

lemma empty_queues: "mlfq_wf empty_mlfq" "mlfq_view empty_mlfq = []" "rt_wf empty_rt" "rt_view empty_rt = []"
  by (simp_all add: empty_mlfq_def empty_rt_def mlfq_wf_def mlfq_view_def rt_wf_def rt_view_def)

text \<open>
  C18: every sequence of \<open>mlfq_enqueue\<close> and \<open>mlfq_dequeue\<close> calls on a ready queue returns exactly
  what a first-in first-out list of at most 64 entries returns, however often head and tail have
  wrapped around the array; an enqueue of a null pointer or into a full queue does nothing.
\<close>

theorem mlfq_refines_fifo:
  assumes "mlfq_wf q" "run_ops mlfq_enqueue mlfq_dequeue ops q = (out, q')"
  shows "run_ops (list_enq MAX_PROCESSES (\<lambda>x xs. xs @ [x])) list_deq ops (mlfq_view q) = (out, mlfq_view q') \<and>
    mlfq_wf q'"
  using mq.run_fifo assms by blast

theorem mlfq_refines_fifo_witness:
  "mlfq_wf empty_mlfq \<and> fst (run_ops mlfq_enqueue mlfq_dequeue
     [Enq (Some (Proc 4)), Enq (Some (Proc 2)), Deq, Enq None, Deq, Deq] empty_mlfq) =
     [Some (Proc 4), Some (Proc 2), None]"
proof -
  let ?ops = "[Enq (Some (Proc 4)), Enq (Some (Proc 2)), Deq, Enq None, Deq, Deq]"
  obtain out q' where r: "run_ops mlfq_enqueue mlfq_dequeue ?ops empty_mlfq = (out, q')"
    by (cases "run_ops mlfq_enqueue mlfq_dequeue ?ops empty_mlfq")
  from mlfq_refines_fifo [OF empty_queues(1) r] have "out = [Some (Proc 4), Some (Proc 2), None]"
    by (simp add: empty_queues list_enq_def)
  with r show ?thesis by (simp add: empty_queues del: run_ops.simps)
qed

text \<open>
  C19: every sequence of \<open>rt_enqueue\<close> and \<open>rt_dequeue\<close> calls on the real-time queue returns what a
  list kept sorted by priority with stable insertion returns: the process that leaves has the least
  priority number of all that wait, and is the one of that priority that has waited longest.
\<close>

theorem rt_queue_serves_priority:
  assumes "rt_wf q" "sorted (map prio (rt_view q))" "run_ops (rt_enqueue prio) rt_dequeue ops q = (out, q')"
  shows "run_ops (list_enq MAX_PROCESSES (insert_stable prio)) list_deq ops (rt_view q) = (out, rt_view q') \<and>
    rt_wf q' \<and> sorted (map prio (rt_view q')) \<and>
    (\<forall>r. fst (rt_dequeue q') = Some r \<longrightarrow>
       (\<forall>x \<in> set (rt_view q'). prio r \<le> prio x) \<and> r = hd (filter (\<lambda>x. prio x = prio r) (rt_view q')))"
proof -
  note s = rq.run_prio [OF assms]
  then show ?thesis using rq.deq_least [where prio = prio] by blast
qed

theorem rt_queue_serves_priority_witness:
  "rt_wf empty_rt \<and> fst (run_ops (rt_enqueue (\<lambda>r. if r = Proc 7 then 10 else 20)) rt_dequeue
     [Enq (Some (Proc 3)), Enq (Some (Proc 1)), Enq (Some (Proc 7)), Deq, Deq, Deq, Deq] empty_rt) =
     [Some (Proc 7), Some (Proc 3), Some (Proc 1), None]"
proof -
  let ?prio = "\<lambda>r. if r = Proc 7 then 10 else 20 :: int"
  let ?ops = "[Enq (Some (Proc 3)), Enq (Some (Proc 1)), Enq (Some (Proc 7)), Deq, Deq, Deq, Deq]"
  obtain out q' where r: "run_ops (rt_enqueue ?prio) rt_dequeue ?ops empty_rt = (out, q')"
    by (cases "run_ops (rt_enqueue ?prio) rt_dequeue ?ops empty_rt")
  have "sorted (map ?prio (rt_view empty_rt))" by (simp add: empty_queues)
  from rt_queue_serves_priority [OF empty_queues(3) this r]
  have "out = [Some (Proc 7), Some (Proc 3), Some (Proc 1), None]"
    by (simp add: empty_queues list_enq_def insert_stable_def)
  with r show ?thesis by (simp add: empty_queues del: run_ops.simps)
qed

end
