(* ===== verification/Scheduler.thy ===== *)
theory Scheduler
  imports Queues
begin

text \<open>
  The scheduler (\<open>kernel/process/scheduler.c\<close>, with \<open>swtch\<close> of \<open>kernel/process/swtch.S\<close>): four ready
  queues with feedback, a real-time queue above them, context switches, the timer tick with its
  time slices and the periodic boost, with the invariant and what every operation keeps of it.
\<close>

section \<open>State\<close>

definition NUM_QUEUE_LEVELS :: nat where [simp]: "NUM_QUEUE_LEVELS = 4"
definition MAX_CPUS :: nat where [simp]: "MAX_CPUS = 8"

definition queue_time_slices :: "u64 list" where
  "queue_time_slices = [5, 10, 20, 40]"

record cpu_sched_t =
  cpu_current :: "proc_ref option"
  cpu_idle :: "proc_ref option"
  cpu_number :: int
  cpu_ticks :: u64
  cpu_idle_ticks :: u64

record sched_state = proc_state +
  ready_queues :: "mlfq_t list"
  rt_queue :: rt_queue_t
  cpu_data :: "cpu_sched_t list"
  num_cpus :: nat
  current_cpu :: nat

definition upd_cpu :: "(cpu_sched_t \<Rightarrow> cpu_sched_t) \<Rightarrow> nat \<Rightarrow> 'z sched_state_scheme \<Rightarrow> 'z sched_state_scheme" where
  "upd_cpu f i s = s\<lparr>cpu_data := (cpu_data s)[i := f (cpu_data s ! i)]\<rparr>"

definition upd_queue :: "(mlfq_t \<Rightarrow> mlfq_t) \<Rightarrow> nat \<Rightarrow> 'z sched_state_scheme \<Rightarrow> 'z sched_state_scheme" where
  "upd_queue f i s = s\<lparr>ready_queues := (ready_queues s)[i := f (ready_queues s ! i)]\<rparr>"

declare upd_cpu_def [state_updates] upd_queue_def [state_updates] upd_proc.simps [state_updates]

section \<open>Initialisation\<close>

definition init_idle_process :: "nat \<Rightarrow> 'z sched_state_scheme \<Rightarrow> 'z sched_state_scheme" where
  "init_idle_process cpu_id s =
     upd_cpu (\<lambda>c. c\<lparr>cpu_idle := Some (Idle cpu_id)\<rparr>) cpu_id
       (upd_proc (\<lambda>p. p\<lparr>p_pid := - 1 - of_nat cpu_id, p_state := PROC_RUNNABLE,
          p_priority := PRIORITY_MAX, p_policy := SCHED_IDLE,
          p_queue_level := int NUM_QUEUE_LEVELS - 1, p_cpu_id := int cpu_id,
          p_cpu_affinity := push_bit cpu_id 1, p_name := take 31 ''idle'',
          p_stats := \<lparr>cpu_time = 0, context_switches = 0, start_time = get_ticks s, last_run = 0\<rparr>\<rparr>)
          (Idle cpu_id) s)"

fun init_queues :: "nat \<Rightarrow> nat \<Rightarrow> 'z sched_state_scheme \<Rightarrow> 'z sched_state_scheme" where
  "init_queues 0 i s = s"
| "init_queues (Suc k) i s =
     init_queues k (Suc i)
       (kprintf ''[SCHED] Queue %d: time slice = %lu ticks\<newline>''
          [Num (of_nat i), Num (queue_time_slices ! i)] (upd_queue mlfq_init i s))"

fun init_cpus :: "nat \<Rightarrow> nat \<Rightarrow> 'z sched_state_scheme \<Rightarrow> 'z sched_state_scheme" where
  "init_cpus 0 i s = s"
| "init_cpus (Suc k) i s =
     init_cpus k (Suc i)
       (init_idle_process i
         (upd_cpu (\<lambda>c. c\<lparr>cpu_current := None, cpu_number := int i, cpu_ticks := 0,
            cpu_idle_ticks := 0\<rparr>) i s))"

definition scheduler_init :: "'z sched_state_scheme \<Rightarrow> 'z sched_state_scheme" where
  "scheduler_init s =
     (let s = kprintf ''[SCHED] Initializing advanced scheduler\<newline>'' [] s;
          s = kprintf ''[SCHED] Multi-level feedback queue (MLFQ) with %d levels\<newline>''
                [Num (of_nat NUM_QUEUE_LEVELS)] s;
          s = kprintf ''[SCHED] Real-time scheduling support enabled\<newline>'' [] s;
          s = kprintf ''[SCHED] SMP support: %d CPU(s)\<newline>'' [Num (of_nat (num_cpus s))] s;
          s = init_queues NUM_QUEUE_LEVELS 0 s;
          s = s\<lparr>rt_queue := (rt_queue s)\<lparr>rt_size := 0\<rparr>\<rparr>;
          s = init_cpus (num_cpus s) 0 s
      in kprintf ''[SCHED] Scheduler initialized\<newline>'' [] s)"

section \<open>Queueing and choosing\<close>

definition prio_in :: "'z sched_state_scheme \<Rightarrow> proc_ref \<Rightarrow> int" where
  "prio_in s r = p_priority (get_proc s r)"

definition clamp_level :: "int \<Rightarrow> nat" where
  "clamp_level level =
     (let level = (if level < 0 then 0 else level);
          level = (if level \<ge> int NUM_QUEUE_LEVELS then int NUM_QUEUE_LEVELS - 1 else level)
      in nat level)"

definition sched_add :: "proc_ref option \<Rightarrow> 'z sched_state_scheme \<Rightarrow> 'z sched_state_scheme" where
  "sched_add proc s =
     (case proc of
        None \<Rightarrow> s
      | Some r \<Rightarrow>
          let s = upd_proc (\<lambda>p. p\<lparr>p_state := PROC_RUNNABLE\<rparr>) r s; p = get_proc s r in
          if p_policy p = SCHED_FIFO \<or> p_policy p = SCHED_RR
          then s\<lparr>rt_queue := rt_enqueue (prio_in s) (rt_queue s) proc\<rparr>
          else if p_policy p = SCHED_IDLE then s
          else upd_queue (\<lambda>q. mlfq_enqueue q proc) (clamp_level (p_queue_level p)) s)"

text \<open>The scan over the levels: \<open>k\<close> levels to go, at \<open>level\<close>; the idle process when all are empty.\<close>

fun sched_next_loop ::
  "nat \<Rightarrow> nat \<Rightarrow> nat \<Rightarrow> 'z sched_state_scheme \<Rightarrow> proc_ref option \<times> 'z sched_state_scheme" where
  "sched_next_loop cpu_id 0 level s = (cpu_idle (cpu_data s ! cpu_id), s)"
| "sched_next_loop cpu_id (Suc k) level s =
     (if q_size (ready_queues s ! level) > 0 then
        let (proc, q) = mlfq_dequeue (ready_queues s ! level);
            s = s\<lparr>ready_queues := (ready_queues s)[level := q]\<rparr>
        in (case proc of
              Some r \<Rightarrow> (Some r, upd_proc (\<lambda>p. p\<lparr>p_time_slice := queue_time_slices ! level\<rparr>) r s)
            | None \<Rightarrow> sched_next_loop cpu_id k (Suc level) s)
      else sched_next_loop cpu_id k (Suc level) s)"

definition sched_next :: "nat \<Rightarrow> 'z sched_state_scheme \<Rightarrow> proc_ref option \<times> 'z sched_state_scheme" where
  "sched_next cpu_id s =
     (if rt_size (rt_queue s) > 0 then
        let (proc, q) = rt_dequeue (rt_queue s); s = s\<lparr>rt_queue := q\<rparr>
        in (case proc of
              Some r \<Rightarrow> (Some r, s)
            | None \<Rightarrow> sched_next_loop cpu_id NUM_QUEUE_LEVELS 0 s)
      else sched_next_loop cpu_id NUM_QUEUE_LEVELS 0 s)"

definition current_proc :: "'z sched_state_scheme \<Rightarrow> proc_ref option" where
  "current_proc s = cpu_current (cpu_data s ! current_cpu s)"

definition sched_cpu_id :: "'z sched_state_scheme \<Rightarrow> nat" where
  "sched_cpu_id s = current_cpu s"

definition sched_set_priority :: "proc_ref option \<Rightarrow> int \<Rightarrow> 'z sched_state_scheme \<Rightarrow> 'z sched_state_scheme" where
  "sched_set_priority proc priority s =
     (case proc of
        None \<Rightarrow> s
      | Some r \<Rightarrow>
          let priority = (if priority < PRIORITY_MIN then PRIORITY_MIN else priority);
              priority = (if priority > PRIORITY_MAX then PRIORITY_MAX else priority);
              s = upd_proc (\<lambda>p. p\<lparr>p_priority := priority, p_dynamic_priority := priority\<rparr>) r s
          in if priority \<le> PRIORITY_RT_MAX then upd_proc (\<lambda>p. p\<lparr>p_policy := SCHED_RR\<rparr>) r s
             else let range = PRIORITY_MAX - PRIORITY_NORMAL_MIN + 1;
                      level = (priority - PRIORITY_NORMAL_MIN) * int NUM_QUEUE_LEVELS div range;
                      level = (if level \<ge> int NUM_QUEUE_LEVELS then int NUM_QUEUE_LEVELS - 1 else level)
                  in upd_proc (\<lambda>p. p\<lparr>p_queue_level := level\<rparr>) r s)"

definition sched_set_policy :: "proc_ref option \<Rightarrow> sched_policy_t \<Rightarrow> 'z sched_state_scheme \<Rightarrow> 'z sched_state_scheme" where
  "sched_set_policy proc policy s =
     (case proc of None \<Rightarrow> s | Some r \<Rightarrow> upd_proc (\<lambda>p. p\<lparr>p_policy := policy\<rparr>) r s)"

section \<open>Switching\<close>

text \<open>
  \<open>swtch(old, new)\<close>: the callee-saved registers go to the old context unless it is null, and the new
  context becomes the registers; control continues at the return address loaded with them.
\<close>

definition swtch :: "proc_ref option \<Rightarrow> proc_ref option \<Rightarrow> 'z sched_state_scheme \<Rightarrow> 'z sched_state_scheme" where
  "swtch old new s =
     (let s = (case old of None \<Rightarrow> s | Some r \<Rightarrow> upd_proc (\<lambda>p. p\<lparr>p_context := cpu_regs s\<rparr>) r s)
      in case new of None \<Rightarrow> s | Some r \<Rightarrow> s\<lparr>cpu_regs := p_context (get_proc s r)\<rparr>)"

text \<open>The part of \<open>context_switch\<close> on the old process.\<close>

definition retire_old :: "proc_ref option \<Rightarrow> 'z sched_state_scheme \<Rightarrow> 'z sched_state_scheme" where
  "retire_old old s =
     (case old of
        None \<Rightarrow> s
      | Some r \<Rightarrow>
          if p_state (get_proc s r) \<noteq> PROC_RUNNING then s
          else
            let s = upd_proc (\<lambda>p. p\<lparr>p_stats := (p_stats p)\<lparr>context_switches := context_switches (p_stats p) + 1\<rparr>\<rparr>) r s
            in if old = cpu_idle (cpu_data s ! current_cpu s)
               then upd_proc (\<lambda>p. p\<lparr>p_state := PROC_RUNNABLE\<rparr>) r s
               else if p_policy (get_proc s r) = SCHED_NORMAL
               then let s = (if p_time_slice (get_proc s r) = 0 \<and>
                                p_queue_level (get_proc s r) < int NUM_QUEUE_LEVELS - 1
                             then upd_proc (\<lambda>p. p\<lparr>p_queue_level := p_queue_level p + 1\<rparr>) r s else s)
                    in sched_add old (upd_proc (\<lambda>p. p\<lparr>p_state := PROC_RUNNABLE\<rparr>) r s)
               else if p_policy (get_proc s r) = SCHED_RR
               then sched_add old (upd_proc (\<lambda>p. p\<lparr>p_state := PROC_RUNNABLE\<rparr>) r s)
               else s)"

text \<open>The part on the new one, before \<open>swtch\<close>.\<close>

definition load_new :: "proc_ref \<Rightarrow> 'z sched_state_scheme \<Rightarrow> 'z sched_state_scheme" where
  "load_new r s =
     (let s = upd_proc (\<lambda>p. p\<lparr>p_state := PROC_RUNNING,
                p_stats := (p_stats p)\<lparr>last_run := get_ticks s, context_switches := context_switches (p_stats p) + 1\<rparr>,
                p_cpu_id := int (current_cpu s)\<rparr>) r s;
          s = upd_cpu (\<lambda>c. c\<lparr>cpu_current := Some r\<rparr>) (current_cpu s) s
      in if p_pagetable (get_proc s r) \<noteq> NULL
         then sfence_vma (w_satp (SATP_SV39 OR drop_bit 12 (p_pagetable (get_proc s r))) s)
         else s)"

text \<open>The result says whether \<open>swtch\<close> was executed, i.e. whether control has left for another context.\<close>

definition context_switch ::
  "proc_ref option \<Rightarrow> proc_ref option \<Rightarrow> 'z sched_state_scheme \<Rightarrow> bool \<times> 'z sched_state_scheme" where
  "context_switch old new s =
     (if old = new then (False, s)
      else let s = retire_old old s in
           case new of
             None \<Rightarrow> (False, s)
           | Some r \<Rightarrow> (True, swtch old new (load_new r s)))"

definition sched_yield :: "'z sched_state_scheme \<Rightarrow> bool \<times> 'z sched_state_scheme" where
  "sched_yield s =
     (let old = cpu_current (cpu_data s ! current_cpu s);
          (new, s) = sched_next (current_cpu s) s
      in if new \<noteq> None then context_switch old new s else (False, s))"

section \<open>Ticks\<close>

text \<open>The boost of one level: \<open>k\<close> entries to go.\<close>

fun age_level :: "nat \<Rightarrow> nat \<Rightarrow> 'z sched_state_scheme \<Rightarrow> 'z sched_state_scheme" where
  "age_level 0 level s = s"
| "age_level (Suc k) level s =
     (if q_size (ready_queues s ! level) > 0 then
        let (p, q) = mlfq_dequeue (ready_queues s ! level);
            s = s\<lparr>ready_queues := (ready_queues s)[level := q]\<rparr>
        in age_level k level
             (case p of
                None \<Rightarrow> s
              | Some r \<Rightarrow>
                  if p_policy (get_proc s r) = SCHED_NORMAL
                  then upd_queue (\<lambda>q. mlfq_enqueue q p) 0
                         (upd_proc (\<lambda>p. p\<lparr>p_queue_level := 0, p_time_slice := queue_time_slices ! 0\<rparr>) r s)
                  else s)
      else s)"

fun age_levels :: "nat \<Rightarrow> nat \<Rightarrow> 'z sched_state_scheme \<Rightarrow> 'z sched_state_scheme" where
  "age_levels 0 level s = s"
| "age_levels (Suc k) level s =
     age_levels k (Suc level) (age_level (q_size (ready_queues s ! level)) level s)"

definition sched_aging :: "'z sched_state_scheme \<Rightarrow> 'z sched_state_scheme" where
  "sched_aging s =
     (if get_ticks s mod 100 = 0 then age_levels (NUM_QUEUE_LEVELS - 1) 1 s else s)"

text \<open>A tick is charged to the running process: CPU time, idle time, time slice.\<close>

definition tick_charge :: "proc_ref \<Rightarrow> 'z sched_state_scheme \<Rightarrow> 'z sched_state_scheme" where
  "tick_charge r s =
     (let s = upd_proc (\<lambda>p. p\<lparr>p_stats := (p_stats p)\<lparr>cpu_time := cpu_time (p_stats p) + 1\<rparr>\<rparr>) r s;
          s = (if Some r = cpu_idle (cpu_data s ! current_cpu s)
               then upd_cpu (\<lambda>c. c\<lparr>cpu_idle_ticks := cpu_idle_ticks c + 1\<rparr>) (current_cpu s) s
               else s)
      in if p_time_slice (get_proc s r) > 0
         then upd_proc (\<lambda>p. p\<lparr>p_time_slice := p_time_slice p - 1\<rparr>) r s else s)"

text \<open>
  When the tick preempts the current process, the rest of \<open>sched_tick\<close>, which is \<open>sched_aging\<close>, runs in
  that process's context when it is next switched to; the result says whether that is so.
\<close>

definition sched_tick :: "'z sched_state_scheme \<Rightarrow> bool \<times> 'z sched_state_scheme" where
  "sched_tick s =
     (let proc = cpu_current (cpu_data s ! current_cpu s);
          s = tick_increment s;
          s = upd_cpu (\<lambda>c. c\<lparr>cpu_ticks := cpu_ticks c + 1\<rparr>) (current_cpu s) s
      in case proc of
           None \<Rightarrow> (False, s)
         | Some r \<Rightarrow>
             let s = tick_charge r s;
                 (left, s) =
                   (if p_time_slice (get_proc s r) = 0 \<and>
                       (p_policy (get_proc s r) = SCHED_NORMAL \<or> p_policy (get_proc s r) = SCHED_RR)
                    then sched_yield s else (False, s))
             in if left then (True, s) else (False, sched_aging s))"

section \<open>Statistics and the main loop\<close>

definition print_cpu_stats :: "nat \<Rightarrow> 'z sched_state_scheme \<Rightarrow> 'z sched_state_scheme" where
  "print_cpu_stats cpu_id s =
     (let c = cpu_data s ! cpu_id;
          s = kprintf ''CPU %d:\<newline>'' [Num (of_nat cpu_id)] s;
          s = kprintf ''  Total ticks: %lu\<newline>'' [Num (cpu_ticks c)] s;
          s = kprintf ''  Idle ticks: %lu\<newline>'' [Num (cpu_idle_ticks c)] s;
          s = (if cpu_ticks c > 0
               then let busy_ticks = cpu_ticks c - cpu_idle_ticks c;
                        usage = busy_ticks * 100 div cpu_ticks c
                    in kprintf ''  CPU Usage: %lu%%\<newline>'' [Num usage] s
               else s)
      in case cpu_current c of
           None \<Rightarrow> s
         | Some r \<Rightarrow> kprintf ''  Current process: %s (PID %lu)\<newline>''
             [Str (p_name (get_proc s r)), Num (p_pid (get_proc s r))] s)"

definition print_queue_stats :: "nat \<Rightarrow> 'z sched_state_scheme \<Rightarrow> 'z sched_state_scheme" where
  "print_queue_stats i s =
     kprintf ''  Queue %d: %d processes (time slice: %lu)\<newline>''
       [Num (of_nat i), Num (of_nat (q_size (ready_queues s ! i))), Num (queue_time_slices ! i)] s"

definition sched_print_stats :: "'z sched_state_scheme \<Rightarrow> 'z sched_state_scheme" where
  "sched_print_stats s =
     (let s = kprintf ''\<newline>[SCHED] Scheduler Statistics:\<newline>'' [] s;
          s = kprintf ''========================================\<newline>'' [] s;
          s = fold print_cpu_stats [0..<num_cpus s] s;
          s = kprintf ''\<newline>Queue Status:\<newline>'' [] s;
          s = kprintf ''  RT Queue: %d processes\<newline>'' [Num (of_nat (rt_size (rt_queue s)))] s;
          s = fold print_queue_stats [0..<NUM_QUEUE_LEVELS] s
      in kprintf ''========================================\<newline>'' [] s)"

text \<open>
  One turn of the loop of \<open>scheduler\<close>; it never saves a context of its own, so once it has switched
  nothing returns to it.
\<close>

definition scheduler_turn :: "'z sched_state_scheme \<Rightarrow> bool \<times> 'z sched_state_scheme" where
  "scheduler_turn s =
     (let (proc, s) = sched_next (current_cpu s) s
      in if proc \<noteq> None then context_switch None proc s else (False, s))"

text \<open>
  The loop of \<open>scheduler\<close> for at most \<open>n\<close> turns; the result says whether it has switched away. Its
  context is saved nowhere, so it is never resumed.
\<close>

fun scheduler_loop :: "nat \<Rightarrow> 'z sched_state_scheme \<Rightarrow> bool \<times> 'z sched_state_scheme" where
  "scheduler_loop 0 s = (False, s)"
| "scheduler_loop (Suc n) s =
     (let (left, s) = scheduler_turn s in if left then (True, s) else scheduler_loop n s)"

definition scheduler :: "nat \<Rightarrow> 'z sched_state_scheme \<Rightarrow> bool \<times> 'z sched_state_scheme" where
  "scheduler n s = scheduler_loop n (kprintf ''[SCHED] Starting scheduler\<newline>'' [] s)"

section \<open>Frames\<close>

lemma upd_proc_sched [simp]:
  "ready_queues (upd_proc f r s) = ready_queues s" "rt_queue (upd_proc f r s) = rt_queue s"
  "cpu_data (upd_proc f r s) = cpu_data s" "num_cpus (upd_proc f r s) = num_cpus s"
  "current_cpu (upd_proc f r s) = current_cpu s" "cpu_regs (upd_proc f r s) = cpu_regs s"
  by (cases r, simp_all)+

lemma upd_cpu_fields [simp]:
  "ready_queues (upd_cpu g i s) = ready_queues s" "rt_queue (upd_cpu g i s) = rt_queue s"
  "current_cpu (upd_cpu g i s) = current_cpu s" "num_cpus (upd_cpu g i s) = num_cpus s"
  "length (cpu_data (upd_cpu g i s)) = length (cpu_data s)" "global_ticks (upd_cpu g i s) = global_ticks s"
  "proc_table (upd_cpu g i s) = proc_table s" "idle_processes (upd_cpu g i s) = idle_processes s"
  by (simp_all add: upd_cpu_def)

lemma upd_queue_fields [simp]:
  "rt_queue (upd_queue h i s) = rt_queue s" "cpu_data (upd_queue h i s) = cpu_data s"
  "current_cpu (upd_queue h i s) = current_cpu s" "global_ticks (upd_queue h i s) = global_ticks s"
  "proc_table (upd_queue h i s) = proc_table s" "idle_processes (upd_queue h i s) = idle_processes s"
  "ready_queues (upd_queue h i s) = (ready_queues s)[i := h (ready_queues s ! i)]"
  by (simp_all add: upd_queue_def)

lemma get_proc_cong:
  "proc_table s' = proc_table s \<Longrightarrow> idle_processes s' = idle_processes s \<Longrightarrow> get_proc s' = get_proc s"
  "proc_table s' = proc_table s \<Longrightarrow> idle_processes s' = idle_processes s \<Longrightarrow> valid_ref s' = valid_ref s"
proof -
  assume a: "proc_table s' = proc_table s" "idle_processes s' = idle_processes s"
  show "get_proc s' = get_proc s" using a by (intro ext) (case_tac x; simp)
  show "valid_ref s' = valid_ref s" using a by (intro ext) (case_tac x; simp)
qed

lemma get_proc_frame [simp]:
  "get_proc (s\<lparr>ready_queues := qs\<rparr>) = get_proc s" "get_proc (s\<lparr>rt_queue := q\<rparr>) = get_proc s"
  "get_proc (upd_cpu g i s) = get_proc s" "get_proc (upd_queue h i s) = get_proc s"
  "get_proc (s\<lparr>cpu_regs := c\<rparr>) = get_proc s" "get_proc (tick_increment s) = get_proc s"
  "get_proc (w_satp x s) = get_proc s" "get_proc (sfence_vma s) = get_proc s"
  by (rule get_proc_cong(1); simp add: tick_increment_def w_satp_def sfence_vma_def)+

lemma valid_ref_frame [simp]:
  "valid_ref (s\<lparr>ready_queues := qs\<rparr>) = valid_ref s" "valid_ref (s\<lparr>rt_queue := q\<rparr>) = valid_ref s"
  "valid_ref (upd_cpu g i s) = valid_ref s" "valid_ref (upd_queue h i s) = valid_ref s"
  "valid_ref (s\<lparr>cpu_regs := c\<rparr>) = valid_ref s" "valid_ref (tick_increment s) = valid_ref s"
  "valid_ref (w_satp x s) = valid_ref s" "valid_ref (sfence_vma s) = valid_ref s"
  by (rule get_proc_cong(2); simp add: tick_increment_def w_satp_def sfence_vma_def)+

declare get_proc.simps [simp del] upd_proc.simps [simp del]

section \<open>The queues as lists\<close>

text \<open>All waiting processes: the real-time queue, then the levels.\<close>

definition level_view :: "'z sched_state_scheme \<Rightarrow> nat \<Rightarrow> proc_ref list" where
  "level_view s l = mlfq_view (ready_queues s ! l)"

definition queued :: "'z sched_state_scheme \<Rightarrow> proc_ref list" where
  "queued s = rt_view (rt_queue s) @ concat (map mlfq_view (ready_queues s))"

definition queues_wf :: "'z sched_state_scheme \<Rightarrow> bool" where
  "queues_wf s \<longleftrightarrow> length (ready_queues s) = NUM_QUEUE_LEVELS \<and> list_all mlfq_wf (ready_queues s) \<and>
     rt_wf (rt_queue s)"

lemma mset_concat_update:
  "l < length xs \<Longrightarrow> mset (concat (map f (xs[l := q]))) + mset (f (xs ! l)) = mset (concat (map f xs)) + mset (f q)"
  by (induction xs arbitrary: l) (auto split: nat.split)

lemma queues_wfD: "queues_wf s \<Longrightarrow> l < NUM_QUEUE_LEVELS \<Longrightarrow> mlfq_wf (ready_queues s ! l)"
  by (simp add: queues_wf_def list_all_length)

lemma queues_wf_update:
  assumes "queues_wf s" "mlfq_wf q"
  shows "queues_wf (s\<lparr>ready_queues := (ready_queues s)[l := q]\<rparr>)"
  using assms set_update_subset_insert [of "ready_queues s" l q] by (auto simp: queues_wf_def list_all_iff)

lemma queued_update_level:
  assumes "queues_wf s" "l < NUM_QUEUE_LEVELS"
  shows "mset (queued (s\<lparr>ready_queues := (ready_queues s)[l := q]\<rparr>)) + mset (level_view s l) =
    mset (queued s) + mset (mlfq_view q)"
  using assms mset_concat_update [of l "ready_queues s" mlfq_view q]
  by (simp add: queued_def queues_wf_def level_view_def)

lemma mset_nth_concat: "l < length xs \<Longrightarrow> mset (f (xs ! l)) \<subseteq># mset (concat (map f xs))"
proof (induction xs arbitrary: l)
  case (Cons x xs)
  show ?case
  proof (cases l)
    case (Suc k)
    with Cons.IH [of k] Cons.prems show ?thesis by (simp add: subset_mset.add_increasing)
  qed simp
qed simp

lemma queued_level: "queues_wf s \<Longrightarrow> l < NUM_QUEUE_LEVELS \<Longrightarrow> mset (level_view s l) \<subseteq># mset (queued s)"
  using mset_nth_concat [of l "ready_queues s" mlfq_view]
  by (simp add: queued_def queues_wf_def level_view_def subset_mset.add_increasing)

text \<open>The waiting processes are different elements of the process table.\<close>

definition queued_ok :: "'z sched_state_scheme \<Rightarrow> bool" where
  "queued_ok s \<longleftrightarrow> queues_wf s \<and> distinct (queued s) \<and> set (queued s) \<subseteq> Proc ` {..<MAX_PROCESSES}"

text \<open>So there is room in every queue for one more.\<close>

lemma queued_room:
  assumes "queued_ok s" "i < MAX_PROCESSES" "Proc i \<notin> set (queued s)"
  shows "length (queued s) < MAX_PROCESSES" "length (rt_view (rt_queue s)) < MAX_PROCESSES"
    "\<And>l. l < NUM_QUEUE_LEVELS \<Longrightarrow> length (level_view s l) < MAX_PROCESSES"
proof -
  have "set (queued s) \<subset> Proc ` {..<MAX_PROCESSES}"
    using assms by (auto simp: queued_ok_def)
  then have "card (set (queued s)) < card (Proc ` {..<MAX_PROCESSES})"
    by (intro psubset_card_mono) auto
  also have "\<dots> = MAX_PROCESSES" by (subst card_image) (auto simp: inj_on_def)
  finally show *: "length (queued s) < MAX_PROCESSES"
    using assms(1) by (simp add: queued_ok_def distinct_card)
  then show "length (rt_view (rt_queue s)) < MAX_PROCESSES" by (simp add: queued_def)
  show "length (level_view s l) < MAX_PROCESSES" if "l < NUM_QUEUE_LEVELS" for l
  proof -
    have "mset (level_view s l) \<subseteq># mset (queued s)"
      using assms(1) that by (simp add: queued_ok_def queued_level)
    from size_mset_mono [OF this] * show ?thesis by simp
  qed
qed

lemma queued_add_ok:
  assumes "queued_ok s" "i < MAX_PROCESSES" "Proc i \<notin> set (queued s)"
    and "queues_wf s'" "mset (queued s') = add_mset (Proc i) (mset (queued s))"
  shows "queued_ok s'"
proof -
  have "distinct (queued s') = distinct (Proc i # queued s)"
    using assms(5) by (intro mset_eq_imp_distinct_iff) simp
  moreover have "set (queued s') = insert (Proc i) (set (queued s))"
    by (metis assms(5) set_mset_add_mset_insert set_mset_mset)
  ultimately show ?thesis using assms by (auto simp: queued_ok_def)
qed

lemma queued_remove_ok:
  assumes "queued_ok s" "queues_wf s'" "mset (queued s) = add_mset r (mset (queued s'))"
  shows "queued_ok s'" "r \<notin> set (queued s')" "set (queued s) = insert r (set (queued s'))"
proof -
  have d: "distinct (queued s) = distinct (r # queued s')"
    using assms(3) by (intro mset_eq_imp_distinct_iff) simp
  show st: "set (queued s) = insert r (set (queued s'))"
    by (metis assms(3) set_mset_add_mset_insert set_mset_mset)
  show "queued_ok s'" "r \<notin> set (queued s')"
    using d st assms by (auto simp: queued_ok_def)
qed

section \<open>Adding\<close>

lemma clamp_level_less [simp]: "clamp_level l < NUM_QUEUE_LEVELS"
  by (auto simp: clamp_level_def Let_def)

lemma upd_queue_alt: "upd_queue h l s = s\<lparr>ready_queues := (ready_queues s)[l := h (ready_queues s ! l)]\<rparr>"
  by (simp add: upd_queue_def)

text \<open>Enqueueing at the end of a level.\<close>

lemma enqueue_level:
  assumes "queued_ok s" "i < MAX_PROCESSES" "Proc i \<notin> set (queued s)" "l < NUM_QUEUE_LEVELS"
  defines "s' \<equiv> upd_queue (\<lambda>q. mlfq_enqueue q (Some (Proc i))) l s"
  shows "queued_ok s'" "mset (queued s') = add_mset (Proc i) (mset (queued s))"
    "level_view s' l = level_view s l @ [Proc i]" "\<And>k. k \<noteq> l \<Longrightarrow> level_view s' k = level_view s k"
proof -
  let ?q = "ready_queues s ! l"
  have wf: "queues_wf s" using assms(1) by (simp add: queued_ok_def)
  have len: "length (ready_queues s) = NUM_QUEUE_LEVELS" using wf by (simp add: queues_wf_def)
  have q: "mlfq_wf ?q" "length (mlfq_view ?q) < MAX_PROCESSES"
    using queues_wfD [OF wf assms(4)] queued_room(3) [OF assms(1-4)] by (simp_all add: level_view_def)
  have v: "mlfq_view (mlfq_enqueue ?q (Some (Proc i))) = mlfq_view ?q @ [Proc i]"
    by (rule mq.enq_last [OF q])
  have "queues_wf s'"
    unfolding s'_def upd_queue_alt using mq.enq_adds [OF q] by (intro queues_wf_update [OF wf]) simp
  moreover show m: "mset (queued s') = add_mset (Proc i) (mset (queued s))"
    using queued_update_level [OF wf assms(4), of "mlfq_enqueue ?q (Some (Proc i))"]
    by (simp add: s'_def upd_queue_alt v level_view_def)
  ultimately show "queued_ok s'" using queued_add_ok assms(1-3) by blast
  show "level_view s' l = level_view s l @ [Proc i]"
    using v assms(4) len by (simp add: level_view_def s'_def)
  show "level_view s' k = level_view s k" if "k \<noteq> l" for k
    using that by (simp add: level_view_def s'_def)
qed

lemma enqueue_rt:
  fixes prio :: "proc_ref \<Rightarrow> int"
  assumes "queued_ok s" "i < MAX_PROCESSES" "Proc i \<notin> set (queued s)"
  defines "s' \<equiv> s\<lparr>rt_queue := rt_enqueue prio (rt_queue s) (Some (Proc i))\<rparr>"
  shows "queued_ok s'" "mset (queued s') = add_mset (Proc i) (mset (queued s))"
    "rt_view (rt_queue s') = insert_stable prio (Proc i) (rt_view (rt_queue s))"
    "level_view s' = level_view s"
proof -
  have wf: "queues_wf s" using assms(1) by (simp add: queued_ok_def)
  have q: "rt_wf (rt_queue s)" "length (rt_view (rt_queue s)) < MAX_PROCESSES"
    using wf queued_room(2) [OF assms(1-3)] by (simp_all add: queues_wf_def)
  have "queues_wf s'"
    using wf rq.enq_adds [OF q] by (simp add: queues_wf_def s'_def)
  moreover show m: "mset (queued s') = add_mset (Proc i) (mset (queued s))"
    using rq.enq_adds [OF q] by (simp add: queued_def s'_def)
  ultimately show "queued_ok s'" using queued_add_ok assms(1-3) by blast
  show "rt_view (rt_queue s') = insert_stable prio (Proc i) (rt_view (rt_queue s))"
    using rq.enq_stable [OF q] by (simp add: s'_def)
  show "level_view s' = level_view s" by (simp add: level_view_def s'_def fun_eq_iff)
qed

lemma queued_ok_frame:
  "rt_queue s' = rt_queue s \<Longrightarrow> ready_queues s' = ready_queues s \<Longrightarrow>
     queued s' = queued s \<and> queued_ok s' = queued_ok s \<and> level_view s' = level_view s"
  by (simp add: queued_def queued_ok_def queues_wf_def level_view_def fun_eq_iff)

lemma sched_add_queued:
  assumes "queued_ok s" "i < MAX_PROCESSES" "Proc i \<notin> set (queued s)" "length (proc_table s) = MAX_PROCESSES"
    and "p_policy (get_proc s (Proc i)) \<noteq> SCHED_IDLE"
  defines "s' \<equiv> sched_add (Some (Proc i)) s"
  shows "queued_ok s'" "mset (queued s') = add_mset (Proc i) (mset (queued s))"
    "\<And>x. get_proc s' x = (if x = Proc i then (get_proc s (Proc i))\<lparr>p_state := PROC_RUNNABLE\<rparr> else get_proc s x)"
    "cpu_data s' = cpu_data s" "current_cpu s' = current_cpu s" "valid_ref s' = valid_ref s"
    "p_policy (get_proc s (Proc i)) = SCHED_NORMAL \<Longrightarrow> rt_queue s' = rt_queue s \<and>
       level_view s' = (level_view s)(clamp_level (p_queue_level (get_proc s (Proc i))) :=
         level_view s (clamp_level (p_queue_level (get_proc s (Proc i)))) @ [Proc i])"
    "p_policy (get_proc s (Proc i)) \<noteq> SCHED_NORMAL \<Longrightarrow> level_view s' = level_view s \<and>
       rt_view (rt_queue s') = insert_stable (prio_in s) (Proc i) (rt_view (rt_queue s))"
proof -
  let ?s = "upd_proc (\<lambda>p. p\<lparr>p_state := PROC_RUNNABLE\<rparr>) (Proc i) s"
  let ?l = "clamp_level (p_queue_level (get_proc s (Proc i)))"
  have fr: "queued ?s = queued s" "queued_ok ?s = queued_ok s" "level_view ?s = level_view s"
    using queued_ok_frame [of ?s s] by auto
  have v: "valid_ref s (Proc i)" using assms(2,4) by simp
  note lev = enqueue_level [of ?s i, unfolded fr, OF assms(1-3) clamp_level_less [of "p_queue_level (get_proc s (Proc i))"]]
  note rt = enqueue_rt [of ?s i "prio_in s", unfolded fr, OF assms(1-3)]
  have gp: "get_proc ?s x = (if x = Proc i then (get_proc s (Proc i))\<lparr>p_state := PROC_RUNNABLE\<rparr> else get_proc s x)" for x
    using v by auto
  have pr: "prio_in ?s = prio_in s" by (simp add: fun_eq_iff prio_in_def gp)
  have n: "s' = upd_queue (\<lambda>q. mlfq_enqueue q (Some (Proc i))) ?l ?s" if "p_policy (get_proc s (Proc i)) = SCHED_NORMAL"
    using that v by (simp add: s'_def sched_add_def Let_def)
  have r: "s' = ?s\<lparr>rt_queue := rt_enqueue (prio_in s) (rt_queue ?s) (Some (Proc i))\<rparr>" if "p_policy (get_proc s (Proc i)) \<noteq> SCHED_NORMAL"
  proof -
    have "p_policy (get_proc s (Proc i)) = SCHED_FIFO \<or> p_policy (get_proc s (Proc i)) = SCHED_RR"
      using that assms(5) by (cases "p_policy (get_proc s (Proc i))") auto
    then have "p_policy (get_proc ?s (Proc i)) = SCHED_FIFO \<or> p_policy (get_proc ?s (Proc i)) = SCHED_RR"
      by (simp add: gp)
    then show ?thesis unfolding s'_def sched_add_def Let_def by (simp add: pr)
  qed
  show "rt_queue s' = rt_queue s \<and> level_view s' = (level_view s)(?l := level_view s ?l @ [Proc i])"
    if "p_policy (get_proc s (Proc i)) = SCHED_NORMAL"
    using lev(3,4) unfolding n [OF that] by (auto simp: fun_eq_iff)
  show "level_view s' = level_view s \<and> rt_view (rt_queue s') = insert_stable (prio_in s) (Proc i) (rt_view (rt_queue s))"
    if "p_policy (get_proc s (Proc i)) \<noteq> SCHED_NORMAL"
    using rt(3,4) unfolding r [OF that] by simp
  have "queued_ok s' \<and> mset (queued s') = add_mset (Proc i) (mset (queued s)) \<and>
    get_proc s' = get_proc ?s \<and> cpu_data s' = cpu_data s \<and> current_cpu s' = current_cpu s \<and> valid_ref s' = valid_ref ?s"
  proof (cases "p_policy (get_proc s (Proc i)) = SCHED_NORMAL")
    case True
    show ?thesis unfolding n [OF True] using lev(1,2) by simp
  next
    case False
    show ?thesis unfolding r [OF False] using rt(1,2) by simp
  qed
  then show "queued_ok s'" "mset (queued s') = add_mset (Proc i) (mset (queued s))"
    "cpu_data s' = cpu_data s" "current_cpu s' = current_cpu s" "valid_ref s' = valid_ref s"
    "get_proc s' x = (if x = Proc i then (get_proc s (Proc i))\<lparr>p_state := PROC_RUNNABLE\<rparr> else get_proc s x)" for x
    by (simp_all add: gp fun_eq_iff)
qed

section \<open>Choosing\<close>

text \<open>Taking the first process of a level.\<close>

lemma dequeue_level:
  assumes "queued_ok s" "l < NUM_QUEUE_LEVELS" "level_view s l = r # rs"
  defines "s' \<equiv> s\<lparr>ready_queues := (ready_queues s)[l := snd (mlfq_dequeue (ready_queues s ! l))]\<rparr>"
  shows "fst (mlfq_dequeue (ready_queues s ! l)) = Some r" "queued_ok s'"
    "mset (queued s) = add_mset r (mset (queued s'))" "r \<notin> set (queued s')"
    "level_view s' = (level_view s)(l := rs)"
proof -
  let ?q = "ready_queues s ! l"
  have wf: "queues_wf s" using assms(1) by (simp add: queued_ok_def)
  have len: "length (ready_queues s) = NUM_QUEUE_LEVELS" using wf by (simp add: queues_wf_def)
  have d: "fst (mlfq_dequeue ?q) = Some r" "mlfq_view (snd (mlfq_dequeue ?q)) = rs" "mlfq_wf (snd (mlfq_dequeue ?q))"
    using mq.deq_first [OF queues_wfD [OF wf assms(2)]] assms(3) by (simp_all add: level_view_def)
  show "fst (mlfq_dequeue ?q) = Some r" by (rule d(1))
  have wf': "queues_wf s'" unfolding s'_def by (rule queues_wf_update [OF wf d(3)])
  show m: "mset (queued s) = add_mset r (mset (queued s'))"
    using queued_update_level [OF wf assms(2), of "snd (mlfq_dequeue ?q)"] assms(3) d(2)
    by (simp add: s'_def)
  show "queued_ok s'" "r \<notin> set (queued s')" using queued_remove_ok [OF assms(1) wf' m] by simp_all
  show "level_view s' = (level_view s)(l := rs)"
    using d(2) assms(2) len by (auto simp: level_view_def s'_def fun_eq_iff nth_list_update)
qed

lemma q_size_view: "q_size (ready_queues s ! l) > 0 \<longleftrightarrow> level_view s l \<noteq> []"
  by (simp add: level_view_def flip: length_greater_0_conv)

text \<open>The first level with a waiting process is served.\<close>

lemma sched_next_loop_serves:
  assumes "queued_ok s" "l + k \<le> NUM_QUEUE_LEVELS" "m < k" "level_view s (l + m) = r # rs"
    and "\<forall>j < m. level_view s (l + j) = []"
  shows "sched_next_loop c k l s = (Some r, upd_proc (\<lambda>p. p\<lparr>p_time_slice := queue_time_slices ! (l + m)\<rparr>) r
    (s\<lparr>ready_queues := (ready_queues s)[l + m := snd (mlfq_dequeue (ready_queues s ! (l + m)))]\<rparr>))"
  using assms(2-5)
proof (induction k arbitrary: l m)
  case (Suc k)
  show ?case
  proof (cases m)
    case 0
    have "q_size (ready_queues s ! l) > 0" using Suc.prems(3) 0 by (simp add: q_size_view)
    moreover have "fst (mlfq_dequeue (ready_queues s ! l)) = Some r"
      using dequeue_level(1) [OF assms(1), of l] Suc.prems 0 by simp
    ultimately show ?thesis using 0 by (simp add: case_prod_beta)
  next
    case (Suc m')
    have "\<not> q_size (ready_queues s ! l) > 0"
      using Suc.prems(4) [rule_format, of 0] Suc by (simp add: q_size_view)
    moreover have "level_view s (Suc l + j) = []" if "j < m'" for j
      using Suc.prems(4) [rule_format, of "Suc j"] Suc that by simp
    ultimately show ?thesis using Suc.IH [of "Suc l" m'] Suc.prems Suc by simp
  qed
qed simp

lemma sched_next_loop_idle:
  "\<forall>j < k. level_view s (l + j) = [] \<Longrightarrow> sched_next_loop c k l s = (cpu_idle (cpu_data s ! c), s)"
proof (induction k arbitrary: l)
  case (Suc k)
  have "\<not> q_size (ready_queues s ! l) > 0" using Suc.prems [rule_format, of 0] by (simp add: q_size_view)
  moreover have "level_view s (Suc l + j) = []" if "j < k" for j
    using Suc.prems [rule_format, of "Suc j"] that by simp
  ultimately show ?case using Suc.IH by simp
qed simp

lemma set_queued: "queues_wf s \<Longrightarrow>
  set (queued s) = set (rt_view (rt_queue s)) \<union> (\<Union>l < NUM_QUEUE_LEVELS. set (level_view s l))"
  by (fastforce simp: queued_def level_view_def queues_wf_def in_set_conv_nth)

lemma queued_Nil_iff: "queues_wf s \<Longrightarrow>
  queued s = [] \<longleftrightarrow> rt_view (rt_queue s) = [] \<and> (\<forall>l < NUM_QUEUE_LEVELS. level_view s l = [])"
  using set_queued [of s] by (metis (no_types, lifting) SUP_bot_conv(1) Un_empty lessThan_iff set_empty)

lemma sched_next_rt:
  assumes "queued_ok s" "rt_view (rt_queue s) = r # rs"
  defines "s' \<equiv> s\<lparr>rt_queue := snd (rt_dequeue (rt_queue s))\<rparr>"
  shows "sched_next c s = (Some r, s')" "queued_ok s'" "mset (queued s) = add_mset r (mset (queued s'))"
    "rt_view (rt_queue s') = rs" "level_view s' = level_view s"
proof -
  have wf: "queues_wf s" and rt: "rt_wf (rt_queue s)" using assms(1) by (simp_all add: queued_ok_def queues_wf_def)
  note d = rq.deq_first [OF rt assms(2)]
  have "rt_size (rt_queue s) > 0" using length_rt_view [OF rt] assms(2) by simp
  then show "sched_next c s = (Some r, s')"
    using d by (simp add: sched_next_def s'_def case_prod_beta)
  have wf': "queues_wf s'" using wf d by (simp add: queues_wf_def s'_def)
  show m: "mset (queued s) = add_mset r (mset (queued s'))"
    using d assms(2) by (simp add: queued_def s'_def)
  show "queued_ok s'" by (rule queued_remove_ok(1) [OF assms(1) wf' m])
  show "rt_view (rt_queue s') = rs" "level_view s' = level_view s"
    using d by (simp_all add: s'_def level_view_def fun_eq_iff)
qed

lemma sched_next_level:
  assumes "queued_ok s" "rt_view (rt_queue s) = []" "l < NUM_QUEUE_LEVELS" "level_view s l = r # rs"
    and "\<forall>j < l. level_view s j = []"
  defines "s' \<equiv> upd_proc (\<lambda>p. p\<lparr>p_time_slice := queue_time_slices ! l\<rparr>) r
      (s\<lparr>ready_queues := (ready_queues s)[l := snd (mlfq_dequeue (ready_queues s ! l))]\<rparr>)"
  shows "sched_next c s = (Some r, s')" "queued_ok s'" "mset (queued s) = add_mset r (mset (queued s'))"
    "rt_queue s' = rt_queue s" "level_view s' = (level_view s)(l := rs)"
proof -
  have rt: "rt_wf (rt_queue s)" using assms(1) by (simp add: queued_ok_def queues_wf_def)
  have "\<not> rt_size (rt_queue s) > 0" using length_rt_view [OF rt] assms(2) by simp
  then show "sched_next c s = (Some r, s')"
    using sched_next_loop_serves [OF assms(1), of 0 NUM_QUEUE_LEVELS l r rs c] assms(3-5)
    by (simp add: sched_next_def s'_def)
  let ?t = "s\<lparr>ready_queues := (ready_queues s)[l := snd (mlfq_dequeue (ready_queues s ! l))]\<rparr>"
  note d = dequeue_level [OF assms(1,3,4)]
  have "queued s' = queued ?t" "queued_ok s' = queued_ok ?t" "level_view s' = level_view ?t"
    using queued_ok_frame [of s' ?t] by (auto simp: s'_def)
  with d show "queued_ok s'" "mset (queued s) = add_mset r (mset (queued s'))"
    "level_view s' = (level_view s)(l := rs)" by simp_all
  show "rt_queue s' = rt_queue s" by (simp add: s'_def)
qed

lemma sched_next_idle:
  assumes "queued_ok s" "queued s = []"
  shows "sched_next c s = (cpu_idle (cpu_data s ! c), s)"
proof -
  have wf: "queues_wf s" and rt: "rt_wf (rt_queue s)" using assms(1) by (simp_all add: queued_ok_def queues_wf_def)
  have "\<not> rt_size (rt_queue s) > 0" using assms(2) length_rt_view [OF rt] by (simp add: queued_def)
  moreover have "\<forall>j < NUM_QUEUE_LEVELS. level_view s (0 + j) = []" using assms(2) queued_Nil_iff [OF wf] by simp
  ultimately show ?thesis using sched_next_loop_idle [of NUM_QUEUE_LEVELS s 0 c] by (simp add: sched_next_def)
qed

text \<open>What one choice does, whichever queue serves it.\<close>

lemma sched_next_cases:
  assumes "queued_ok s" "sched_next c s = (p, s')"
  obtains (idle) "queued s = []" "p = cpu_idle (cpu_data s ! c)" "s' = s"
  | (served) r ts where "p = Some r" "queued_ok s'" "mset (queued s) = add_mset r (mset (queued s'))"
      "set (rt_view (rt_queue s')) \<subseteq> set (rt_view (rt_queue s))"
      "\<And>l. set (level_view s' l) \<subseteq> set (level_view s l)"
      "cpu_data s' = cpu_data s" "current_cpu s' = current_cpu s" "valid_ref s' = valid_ref s"
      "\<And>x. valid_ref s r \<Longrightarrow> get_proc s' x = (if x = r then (get_proc s r)\<lparr>p_time_slice := ts\<rparr> else get_proc s x)"
proof -
  consider (rt) r rs where "rt_view (rt_queue s) = r # rs"
    | (lev) "rt_view (rt_queue s) = []" "\<exists>l < NUM_QUEUE_LEVELS. level_view s l \<noteq> []" | (none) "queued s = []"
    using queued_Nil_iff [of s] assms(1) by (cases "rt_view (rt_queue s)") (auto simp: queued_ok_def)
  then show thesis
  proof cases
    case rt
    note n = sched_next_rt [OF assms(1) rt]
    show thesis
      by (rule served [of r "p_time_slice (get_proc s r)"]) (use n assms(2) rt in \<open>auto simp: \<close>)
  next
    case lev
    obtain l where l: "l < NUM_QUEUE_LEVELS" "level_view s l \<noteq> []" "\<forall>j < l. level_view s j = []"
    proof -
      obtain l where "l < NUM_QUEUE_LEVELS \<and> level_view s l \<noteq> []"
        "\<forall>j < l. \<not> (j < NUM_QUEUE_LEVELS \<and> level_view s j \<noteq> [])"
        using lev(2) exists_least_iff [of "\<lambda>l. l < NUM_QUEUE_LEVELS \<and> level_view s l \<noteq> []"] by blast
      then show ?thesis using that [of l] by (meson less_trans)
    qed
    then obtain r rs where r: "level_view s l = r # rs" by (cases "level_view s l") auto
    note n = sched_next_level [OF assms(1) lev(1) l(1) r l(3)]
    show thesis
      by (rule served [of r "queue_time_slices ! l"]) (use n assms(2) r in \<open>auto simp: \<close>)
  next
    case none
    with idle sched_next_idle [OF assms(1) none, of c] assms(2) show thesis by simp
  qed
qed

section \<open>The scheduler's invariant\<close>

text \<open>The arrays have their sizes and the running CPU has its idle process.\<close>

definition cpu_ok :: "'z sched_state_scheme \<Rightarrow> bool" where
  "cpu_ok s \<longleftrightarrow> length (proc_table s) = MAX_PROCESSES \<and> length (idle_processes s) = MAX_CPUS \<and>
     length (cpu_data s) = MAX_CPUS \<and> current_cpu s < MAX_CPUS \<and>
     cpu_idle (cpu_data s ! current_cpu s) = Some (Idle (current_cpu s)) \<and>
     p_policy (get_proc s (Idle (current_cpu s))) = SCHED_IDLE"

text \<open>A waiting process is runnable and waits in the queue of its policy.\<close>

definition typed :: "'z sched_state_scheme \<Rightarrow> bool" where
  "typed s \<longleftrightarrow> (\<forall>r \<in> set (queued s). p_state (get_proc s r) = PROC_RUNNABLE) \<and>
     (\<forall>r \<in> set (rt_view (rt_queue s)). p_policy (get_proc s r) \<in> {SCHED_FIFO, SCHED_RR}) \<and>
     (\<forall>l < NUM_QUEUE_LEVELS. \<forall>r \<in> set (level_view s l). p_policy (get_proc s r) = SCHED_NORMAL)"

text \<open>A process the scheduler may run: the idle process or a table entry that is not an idle one.\<close>

definition runnable_ref :: "'z sched_state_scheme \<Rightarrow> proc_ref \<Rightarrow> bool" where
  "runnable_ref s r \<longleftrightarrow> r = Idle (current_cpu s) \<or>
     (\<exists>i < MAX_PROCESSES. r = Proc i) \<and> p_policy (get_proc s r) \<noteq> SCHED_IDLE"

definition sched_wf :: "'z sched_state_scheme \<Rightarrow> bool" where
  "sched_wf s \<longleftrightarrow> cpu_ok s \<and> queued_ok s \<and> typed s \<and>
     (case current_proc s of
        None \<Rightarrow> True
      | Some r \<Rightarrow> runnable_ref s r \<and> r \<notin> set (queued s) \<and> p_state (get_proc s r) = PROC_RUNNING)"

text \<open>The invariant and the views depend on the scheduler's and the table's fields only.\<close>

lemma sched_frame:
  assumes "proc_table t = proc_table s" "idle_processes t = idle_processes s" "ready_queues t = ready_queues s"
    "rt_queue t = rt_queue s" "cpu_data t = cpu_data s" "current_cpu t = current_cpu s"
  shows "sched_wf t = sched_wf s" "queued t = queued s" "current_proc t = current_proc s" "get_proc t = get_proc s"
proof -
  show g: "get_proc t = get_proc s" using assms by (intro get_proc_cong(1)) simp_all
  show "queued t = queued s" "current_proc t = current_proc s"
    using assms by (simp_all add: queued_def current_proc_def)
  show "sched_wf t = sched_wf s" using assms g
    by (simp add: sched_wf_def cpu_ok_def queued_ok_def queues_wf_def queued_def typed_def level_view_def
        runnable_ref_def current_proc_def split: option.split)
qed

lemma runnable_valid: "cpu_ok s \<Longrightarrow> runnable_ref s r \<Longrightarrow> valid_ref s r"
  by (auto simp: cpu_ok_def runnable_ref_def)

lemma queued_policy:
  assumes "queued_ok s" "typed s" "r \<in> set (queued s)"
  shows "p_policy (get_proc s r) \<noteq> SCHED_IDLE" "\<exists>i < MAX_PROCESSES. r = Proc i"
proof -
  have "queues_wf s" using assms(1) by (simp add: queued_ok_def)
  with assms(2,3) show "p_policy (get_proc s r) \<noteq> SCHED_IDLE"
    by (auto simp: set_queued typed_def)
  show "\<exists>i < MAX_PROCESSES. r = Proc i" using assms(1,3) by (auto simp: queued_ok_def)
qed

text \<open>
  A change of the process table and the CPU data that leaves state and policy of the waiting
  processes alone keeps the queues' part of the invariant.
\<close>

lemma typed_frame:
  assumes "typed s" "queues_wf s" "rt_queue s' = rt_queue s" "ready_queues s' = ready_queues s"
    and "\<And>r. r \<in> set (queued s) \<Longrightarrow> p_state (get_proc s' r) = p_state (get_proc s r) \<and>
      p_policy (get_proc s' r) = p_policy (get_proc s r)"
  shows "typed s'"
proof -
  have f: "queued s' = queued s" "level_view s' = level_view s"
    using queued_ok_frame [OF assms(3,4)] by simp_all
  have "r \<in> set (queued s)" if "r \<in> set (rt_view (rt_queue s)) \<or> (\<exists>l < NUM_QUEUE_LEVELS. r \<in> set (level_view s l))" for r
    using that set_queued [OF assms(2)] by auto
  then show ?thesis
    unfolding typed_def f assms(3) using assms(1,5) unfolding typed_def by metis
qed

text \<open>Updating a process that does not wait.\<close>

lemma upd_proc_keeps:
  assumes "cpu_ok s" "queued_ok s" "typed s" "r \<notin> set (queued s)"
    and "r = Idle (current_cpu s) \<Longrightarrow> p_policy (f (get_proc s r)) = p_policy (get_proc s r)"
  shows "cpu_ok (upd_proc f r s)" "queued_ok (upd_proc f r s)" "typed (upd_proc f r s)"
    "queued (upd_proc f r s) = queued s"
proof -
  have fr: "queued (upd_proc f r s) = queued s" "queued_ok (upd_proc f r s) = queued_ok s"
    using queued_ok_frame [of "upd_proc f r s" s] by auto
  then show "queued_ok (upd_proc f r s)" "queued (upd_proc f r s) = queued s" using assms(2) by simp_all
  show "cpu_ok (upd_proc f r s)"
    using assms(1,5) by (cases "r = Idle (current_cpu s)") (auto simp: cpu_ok_def)
  have "get_proc (upd_proc f r s) x = get_proc s x" if "x \<in> set (queued s)" for x
    using that assms(4) by (metis get_upd_other)
  then show "typed (upd_proc f r s)"
    using assms(2) by (intro typed_frame [OF assms(3)]) (auto simp: queued_ok_def)
qed

lemma sched_next_keeps:
  assumes "cpu_ok s" "queued_ok s" "typed s" "sched_next (current_cpu s) s = (p, s')"
  obtains r where "p = Some r" "cpu_ok s'" "queued_ok s'" "typed s'" "runnable_ref s' r" "r \<notin> set (queued s')"
    "cpu_data s' = cpu_data s" "current_cpu s' = current_cpu s"
    "\<And>x. x \<noteq> r \<Longrightarrow> get_proc s' x = get_proc s x"
    "set (queued s) - {r} = set (queued s')" "r \<in> set (queued s) \<or> queued s = [] \<and> r = Idle (current_cpu s) \<and> s' = s"
    "p_state (get_proc s' r) = p_state (get_proc s r)" "p_policy (get_proc s' r) = p_policy (get_proc s r)"
    "mset (queued s) = (if r \<in> set (queued s) then {#r#} else {#}) + mset (queued s')"
  using assms(2,4)
proof (cases rule: sched_next_cases)
  case idle
  with assms show thesis by (intro that [of "Idle (current_cpu s)"]) (auto simp: cpu_ok_def runnable_ref_def)
next
  case (served r ts)
  have wf': "queues_wf s'" using served(2) by (simp add: queued_ok_def)
  note q = queued_remove_ok [OF assms(2) wf' served(3)]
  obtain i where i: "i < MAX_PROCESSES" "r = Proc i"
    using queued_policy(2) [OF assms(2,3), of r] q(3) by auto
  have v: "valid_ref s r" using assms(1) i by (simp add: cpu_ok_def)
  have gp: "get_proc s' x = (if x = r then (get_proc s r)\<lparr>p_time_slice := ts\<rparr> else get_proc s x)" for x
    using served(9) [OF v] .
  have same: "p_state (get_proc s' x) = p_state (get_proc s x)" "p_policy (get_proc s' x) = p_policy (get_proc s x)" for x
    by (simp_all add: gp)
  have "typed s'"
    using assms(3) q(3) served(4,5) by (fastforce simp: typed_def same)
  moreover have "cpu_ok s'"
  proof -
    have "length (proc_table s') = length (proc_table s)" "length (idle_processes s') = length (idle_processes s)"
      using fun_cong [OF served(8)] by (metis linorder_neqE_nat less_irrefl valid_ref.simps)+
    then show ?thesis using assms(1) by (simp add: cpu_ok_def served(6,7) same)
  qed
  moreover have "p_policy (get_proc s r) \<noteq> SCHED_IDLE"
    using queued_policy(1) [OF assms(2,3), of r] q(3) by simp
  ultimately show thesis
    using served(1-3,6,7) q i gp by (intro that [of r]) (auto simp: runnable_ref_def same)
qed

lemma sched_add_keeps:
  assumes "cpu_ok s" "queued_ok s" "typed s" "i < MAX_PROCESSES" "Proc i \<notin> set (queued s)"
    and "p_policy (get_proc s (Proc i)) \<noteq> SCHED_IDLE"
  defines "s' \<equiv> sched_add (Some (Proc i)) s"
  shows "cpu_ok s'" "queued_ok s'" "typed s'"
proof -
  have len: "length (proc_table s) = MAX_PROCESSES" using assms(1) by (simp add: cpu_ok_def)
  note a = sched_add_queued [OF assms(2,4,5) len assms(6), folded s'_def]
  have gp: "get_proc s' x = (if x = Proc i then (get_proc s (Proc i))\<lparr>p_state := PROC_RUNNABLE\<rparr> else get_proc s x)" for x
    by (rule a(3))
  have same: "p_policy (get_proc s' x) = p_policy (get_proc s x)" for x by (simp add: gp)
  have qs: "set (queued s') = insert (Proc i) (set (queued s))"
    by (metis a(2) set_mset_add_mset_insert set_mset_mset)
  show "queued_ok s'" by (rule a(1))
  have "length (proc_table s') = length (proc_table s)" "length (idle_processes s') = length (idle_processes s)"
    using fun_cong [OF a(6)] by (metis linorder_neqE_nat less_irrefl valid_ref.simps)+
  then show "cpu_ok s'" using assms(1) by (simp add: cpu_ok_def a(4,5) same)
  have st: "\<forall>r \<in> set (queued s'). p_state (get_proc s' r) = PROC_RUNNABLE"
    using assms(3) by (auto simp: qs gp typed_def)
  show "typed s'"
  proof (cases "p_policy (get_proc s (Proc i)) = SCHED_NORMAL")
    case True
    with a(7) st assms(3) show ?thesis by (auto simp: typed_def same)
  next
    case False
    have "set (rt_view (rt_queue s')) = insert (Proc i) (set (rt_view (rt_queue s)))"
      using a(8) [OF False] mset_insert_stable by (metis set_mset_add_mset_insert set_mset_mset)
    moreover have "p_policy (get_proc s (Proc i)) \<in> {SCHED_FIFO, SCHED_RR}"
      using False assms(6) by (cases "p_policy (get_proc s (Proc i))") auto
    ultimately show ?thesis using a(8) [OF False] st assms(3) by (auto simp: typed_def same)
  qed
qed

text \<open>The old process goes back to its queue unless it is the idle process or of policy \<open>SCHED_FIFO\<close>.\<close>

definition requeues :: "'z sched_state_scheme \<Rightarrow> proc_ref \<Rightarrow> bool" where
  "requeues s r \<longleftrightarrow> r \<noteq> Idle (current_cpu s) \<and> p_policy (get_proc s r) \<in> {SCHED_NORMAL, SCHED_RR}"

lemma upd_upd: "valid_ref s r \<Longrightarrow> upd_proc g r (upd_proc f r s) = upd_proc (\<lambda>p. g (f p)) r s"
  by (cases r) (simp_all add: upd_proc.simps)

lemma retire_old_shape:
  assumes "cpu_ok s" "runnable_ref s r" "p_state (get_proc s r) = PROC_RUNNING"
  obtains k where "\<And>p. p_policy (k p) = p_policy p"
    "\<not> requeues s r \<Longrightarrow> r \<noteq> Idle (current_cpu s) \<Longrightarrow> (\<And>p. p_state (k p) = p_state p)"
    "retire_old (Some r) s = (if requeues s r then sched_add (Some r) (upd_proc k r s) else upd_proc k r s)"
    "p_queue_level (k (get_proc s r)) = p_queue_level (get_proc s r) +
       (if r \<noteq> Idle (current_cpu s) \<and> p_policy (get_proc s r) = SCHED_NORMAL \<and> p_time_slice (get_proc s r) = 0 \<and>
           p_queue_level (get_proc s r) < int NUM_QUEUE_LEVELS - 1 then 1 else 0)"
    "\<And>p. p_time_slice (k p) = p_time_slice p"
proof -
  let ?f = "\<lambda>p. p\<lparr>p_stats := (p_stats p)\<lparr>context_switches := context_switches (p_stats p) + 1\<rparr>\<rparr>"
  let ?g = "\<lambda>p. p\<lparr>p_state := PROC_RUNNABLE\<rparr>"
  let ?h = "\<lambda>p. p\<lparr>p_queue_level := p_queue_level p + 1\<rparr>"
  have v: "valid_ref s r" by (rule runnable_valid [OF assms(1,2)])
  have gp: "get_proc (upd_proc ?f r s) r = ?f (get_proc s r)" using v by simp
  have idle: "cpu_idle (cpu_data s ! current_cpu s) = Some (Idle (current_cpu s))"
    using assms(1) by (simp add: cpu_ok_def)
  let ?demote = "p_time_slice (get_proc s r) = 0 \<and> p_queue_level (get_proc s r) < int NUM_QUEUE_LEVELS - 1"
  consider (idle) "r = Idle (current_cpu s)"
    | (dem) "r \<noteq> Idle (current_cpu s)" "p_policy (get_proc s r) = SCHED_NORMAL" "?demote"
    | (norm) "r \<noteq> Idle (current_cpu s)" "p_policy (get_proc s r) = SCHED_NORMAL" "\<not> ?demote"
    | (rr) "r \<noteq> Idle (current_cpu s)" "p_policy (get_proc s r) = SCHED_RR"
    | (fifo) "r \<noteq> Idle (current_cpu s)" "p_policy (get_proc s r) = SCHED_FIFO"
    using assms(2) by (cases "p_policy (get_proc s r)") (auto simp: runnable_ref_def)
  then show thesis
  proof cases
    case idle': idle
    show thesis
      by (rule that [of "\<lambda>p. ?g (?f p)"])
        (use idle' v assms(3) idle in \<open>auto simp: retire_old_def requeues_def upd_upd Let_def\<close>)
  next
    case dem
    show thesis
      by (rule that [of "\<lambda>p. ?g (?h (?f p))"])
        (use dem v assms(3) idle gp in \<open>auto simp: retire_old_def requeues_def upd_upd Let_def\<close>)
  next
    case norm
    show thesis
      by (rule that [of "\<lambda>p. ?g (?f p)"])
        (use norm v assms(3) idle gp in \<open>auto simp: retire_old_def requeues_def upd_upd Let_def\<close>)
  next
    case rr
    show thesis
      by (rule that [of "\<lambda>p. ?g (?f p)"])
        (use rr v assms(3) idle gp in \<open>auto simp: retire_old_def requeues_def upd_upd Let_def\<close>)
  next
    case fifo
    show thesis
      by (rule that [of ?f])
        (use fifo v assms(3) idle gp in \<open>auto simp: retire_old_def requeues_def upd_upd Let_def\<close>)
  qed
qed

lemma retire_old_keeps:
  assumes "cpu_ok s" "queued_ok s" "typed s" "runnable_ref s r" "r \<notin> set (queued s)"
    and "p_state (get_proc s r) = PROC_RUNNING"
  defines "s' \<equiv> retire_old (Some r) s"
  shows "cpu_ok s'" "queued_ok s'" "typed s'" "cpu_data s' = cpu_data s" "current_cpu s' = current_cpu s"
    "\<And>x. x \<noteq> r \<Longrightarrow> get_proc s' x = get_proc s x"
    "mset (queued s') = (if requeues s r then {#r#} else {#}) + mset (queued s)"
    "\<not> requeues s r \<Longrightarrow> r \<noteq> Idle (current_cpu s) \<Longrightarrow> p_state (get_proc s' r) = PROC_RUNNING"
proof -
  have v: "valid_ref s r" by (rule runnable_valid [OF assms(1,4)])
  obtain k where k: "\<And>p. p_policy (k p) = p_policy p"
    "\<forall>p. \<not> requeues s r \<longrightarrow> r \<noteq> Idle (current_cpu s) \<longrightarrow> p_state (k p) = p_state p"
    "s' = (if requeues s r then sched_add (Some r) (upd_proc k r s) else upd_proc k r s)"
    unfolding s'_def by (rule retire_old_shape [OF assms(1,4,6)]) blast
  let ?t = "upd_proc k r s"
  have t: "cpu_ok ?t" "queued_ok ?t" "typed ?t" "queued ?t = queued s"
    using upd_proc_keeps [OF assms(1-3,5), of k] k(1) by simp_all
  have "cpu_ok s' \<and> queued_ok s' \<and> typed s' \<and> cpu_data s' = cpu_data s \<and> current_cpu s' = current_cpu s \<and>
    (\<forall>x. x \<noteq> r \<longrightarrow> get_proc s' x = get_proc s x) \<and>
    mset (queued s') = (if requeues s r then {#r#} else {#}) + mset (queued s)"
  proof (cases "requeues s r")
    case False
    then show ?thesis using t k(3) by (auto simp del: split_paired_All)
  next
    case True
    then obtain i where i: "i < MAX_PROCESSES" "r = Proc i" using assms(4) by (auto simp: runnable_ref_def requeues_def)
    have p: "p_policy (get_proc ?t (Proc i)) \<noteq> SCHED_IDLE" using True v by (auto simp: requeues_def i k(1))
    have n: "Proc i \<notin> set (queued ?t)" using assms(5) t(4) i by simp
    have len: "length (proc_table ?t) = MAX_PROCESSES" using t(1) by (simp add: cpu_ok_def)
    note a = sched_add_queued [OF t(2) i(1) n len p] and b = sched_add_keeps [OF t(1-3) i(1) n p]
    have s': "s' = sched_add (Some (Proc i)) ?t" using True k(3) i by simp
    show ?thesis unfolding s' using a(1-5) b True t(4) by (simp add: i(2))
  qed
  then show "cpu_ok s'" "queued_ok s'" "typed s'" "cpu_data s' = cpu_data s" "current_cpu s' = current_cpu s"
    "\<And>x. x \<noteq> r \<Longrightarrow> get_proc s' x = get_proc s x"
    "mset (queued s') = (if requeues s r then {#r#} else {#}) + mset (queued s)" by simp_all
  have "\<not> requeues s r \<longrightarrow> r \<noteq> Idle (current_cpu s) \<longrightarrow> p_state (get_proc s' r) = PROC_RUNNING"
    using k(2,3) v assms(6) by simp
  then show "\<not> requeues s r \<Longrightarrow> r \<noteq> Idle (current_cpu s) \<Longrightarrow> p_state (get_proc s' r) = PROC_RUNNING" by simp
qed

lemma machine_fields [simp]:
  "ready_queues (w_satp x s) = ready_queues s" "rt_queue (w_satp x s) = rt_queue s"
  "cpu_data (w_satp x s) = cpu_data s" "current_cpu (w_satp x s) = current_cpu s"
  "proc_table (w_satp x s) = proc_table s" "idle_processes (w_satp x s) = idle_processes s"
  "ready_queues (sfence_vma s) = ready_queues s" "rt_queue (sfence_vma s) = rt_queue s"
  "cpu_data (sfence_vma s) = cpu_data s" "current_cpu (sfence_vma s) = current_cpu s"
  "proc_table (sfence_vma s) = proc_table s" "idle_processes (sfence_vma s) = idle_processes s"
  by (simp_all add: w_satp_def sfence_vma_def)

lemma upd_cpu_data: "cpu_data (upd_cpu g i s) = (cpu_data s)[i := g (cpu_data s ! i)]"
  by (simp add: upd_cpu_def)

text \<open>The queues, the table sizes, and policies and states are all the invariant depends on.\<close>

lemma keeps_frame:
  assumes "cpu_ok s" "queued_ok s" "typed s"
    and "rt_queue s' = rt_queue s" "ready_queues s' = ready_queues s"
    and "length (proc_table s') = length (proc_table s)" "length (idle_processes s') = length (idle_processes s)"
    and "length (cpu_data s') = length (cpu_data s)" "current_cpu s' = current_cpu s"
    and "cpu_idle (cpu_data s' ! current_cpu s) = cpu_idle (cpu_data s ! current_cpu s)"
    and "\<And>x. p_policy (get_proc s' x) = p_policy (get_proc s x)"
    and "\<And>x. x \<in> set (queued s) \<Longrightarrow> p_state (get_proc s' x) = p_state (get_proc s x)"
  shows "cpu_ok s'" "queued_ok s'" "typed s'" "queued s' = queued s" "runnable_ref s' = runnable_ref s"
proof -
  show "queued_ok s'" "queued s' = queued s" using queued_ok_frame [OF assms(4,5)] assms(2) by simp_all
  show "typed s'" using assms(2,11,12) by (intro typed_frame [OF assms(3) _ assms(4,5)]) (simp_all add: queued_ok_def)
  show "cpu_ok s'" using assms(1,6-11) by (simp add: cpu_ok_def)
  show "runnable_ref s' = runnable_ref s" using assms(9,11) by (auto simp: runnable_ref_def fun_eq_iff)
qed

lemma load_new_keeps:
  assumes "cpu_ok s" "queued_ok s" "typed s" "r \<notin> set (queued s)" "runnable_ref s r"
  defines "s' \<equiv> load_new r s"
  shows "cpu_ok s'" "queued_ok s'" "typed s'" "queued s' = queued s" "runnable_ref s' = runnable_ref s"
    "current_proc s' = Some r" "p_state (get_proc s' r) = PROC_RUNNING" "current_cpu s' = current_cpu s"
    "\<And>x. x \<noteq> r \<Longrightarrow> get_proc s' x = get_proc s x"
proof -
  have v: "valid_ref s r" by (rule runnable_valid [OF assms(1,5)])
  have c: "current_cpu s < length (cpu_data s)" using assms(1) by (simp add: cpu_ok_def)
  obtain k where k: "\<And>p. p_policy (k p) = p_policy p" "\<And>p. p_state (k p) = PROC_RUNNING"
    and gp: "get_proc s' = get_proc (upd_proc k r s)"
    and f: "rt_queue s' = rt_queue s" "ready_queues s' = ready_queues s"
      "length (proc_table s') = length (proc_table s)" "length (idle_processes s') = length (idle_processes s)"
      "current_cpu s' = current_cpu s"
      "cpu_data s' = (cpu_data s)[current_cpu s := (cpu_data s ! current_cpu s)\<lparr>cpu_current := Some r\<rparr>]"
    by (rule that [of "\<lambda>p. p\<lparr>p_state := PROC_RUNNING,
                p_stats := (p_stats p)\<lparr>last_run := get_ticks s, context_switches := context_switches (p_stats p) + 1\<rparr>,
                p_cpu_id := int (current_cpu s)\<rparr>"])
      (auto simp: s'_def load_new_def Let_def upd_cpu_data)
  have g: "get_proc s' x = (if x = r then k (get_proc s r) else get_proc s x)" for x
    using v by (auto simp: gp)
  have "p_state (get_proc s' x) = p_state (get_proc s x)" if "x \<in> set (queued s)" for x
    using that assms(4) by (auto simp: g)
  then show "cpu_ok s'" "queued_ok s'" "typed s'" "queued s' = queued s" "runnable_ref s' = runnable_ref s"
    using keeps_frame [OF assms(1-3), of s'] f c k(1) by (simp_all add: g)
  show "current_proc s' = Some r" "p_state (get_proc s' r) = PROC_RUNNING" "current_cpu s' = current_cpu s"
    "\<And>x. x \<noteq> r \<Longrightarrow> get_proc s' x = get_proc s x"
    using f c k(2) by (simp_all add: current_proc_def g)
qed

lemma swtch_keeps:
  fixes new :: "proc_ref option"
  assumes "cpu_ok s" "queued_ok s" "typed s" "old = None \<or> (\<exists>r. old = Some r \<and> valid_ref s r)"
  defines "s' \<equiv> swtch old new s"
  shows "cpu_ok s'" "queued_ok s'" "typed s'" "queued s' = queued s" "runnable_ref s' = runnable_ref s"
    "current_proc s' = current_proc s" "current_cpu s' = current_cpu s"
    "\<And>x. p_state (get_proc s' x) = p_state (get_proc s x)"
proof -
  define t where "t = (case old of None \<Rightarrow> s | Some r \<Rightarrow> upd_proc (\<lambda>p. p\<lparr>p_context := cpu_regs s\<rparr>) r s)"
  have "\<exists>c. s' = t\<lparr>cpu_regs := c\<rparr>"
    by (rule exI [of _ "cpu_regs s'"]) (auto simp: s'_def swtch_def Let_def t_def split: option.splits)
  then obtain c where t: "s' = t\<lparr>cpu_regs := c\<rparr>" by blast
  have same: "p_policy (get_proc s' x) = p_policy (get_proc s x) \<and> p_state (get_proc s' x) = p_state (get_proc s x)" for x
    using assms(4) unfolding t t_def by (cases "old = Some x") (auto split: option.split)
  have f: "rt_queue s' = rt_queue s" "ready_queues s' = ready_queues s"
      "length (proc_table s') = length (proc_table s)" "length (idle_processes s') = length (idle_processes s)"
      "current_cpu s' = current_cpu s" "cpu_data s' = cpu_data s"
    unfolding t t_def by (simp_all split: option.split)
  show "cpu_ok s'" "queued_ok s'" "typed s'" "queued s' = queued s" "runnable_ref s' = runnable_ref s"
    using keeps_frame [OF assms(1-3) f(1-4)] f same by simp_all
  show "current_proc s' = current_proc s" "current_cpu s' = current_cpu s"
    "\<And>x. p_state (get_proc s' x) = p_state (get_proc s x)"
    using f same by (simp_all add: current_proc_def)
qed

section \<open>Nothing is lost\<close>

text \<open>The table processes the scheduler knows: those that wait and the one that runs.\<close>

definition running :: "'z sched_state_scheme \<Rightarrow> proc_ref multiset" where
  "running s = (case current_proc s of Some (Proc i) \<Rightarrow> {#Proc i#} | _ \<Rightarrow> {#})"

definition tracked :: "'z sched_state_scheme \<Rightarrow> proc_ref multiset" where
  "tracked s = running s + mset (queued s)"

text \<open>The running process when a switch would not put it back into a queue.\<close>

definition dropped :: "'z sched_state_scheme \<Rightarrow> proc_ref multiset" where
  "dropped s = (case current_proc s of
     Some r \<Rightarrow> if r \<noteq> Idle (current_cpu s) \<and> \<not> requeues s r then {#r#} else {#} | None \<Rightarrow> {#})"

lemma sched_wfD:
  assumes "sched_wf s"
  shows "cpu_ok s" "queued_ok s" "typed s"
    "\<And>r. current_proc s = Some r \<Longrightarrow> runnable_ref s r \<and> r \<notin> set (queued s) \<and> p_state (get_proc s r) = PROC_RUNNING"
  using assms by (auto simp: sched_wf_def)

lemma retire_current:
  assumes "cpu_ok s" "queued_ok s" "typed s" "\<And>r. old = Some r \<Longrightarrow> runnable_ref s r \<and> r \<notin> set (queued s) \<and>
      p_state (get_proc s r) = PROC_RUNNING"
  defines "s' \<equiv> retire_old old s"
  shows "cpu_ok s'" "queued_ok s'" "typed s'" "cpu_data s' = cpu_data s" "current_cpu s' = current_cpu s"
    "\<And>x. Some x \<noteq> old \<Longrightarrow> get_proc s' x = get_proc s x"
    "mset (queued s') = (case old of Some r \<Rightarrow> if requeues s r then {#r#} else {#} | None \<Rightarrow> {#}) + mset (queued s)"
    "\<And>r. old = Some r \<Longrightarrow> \<not> requeues s r \<Longrightarrow> r \<noteq> Idle (current_cpu s) \<Longrightarrow> p_state (get_proc s' r) = PROC_RUNNING"
proof -
  have "cpu_ok s' \<and> queued_ok s' \<and> typed s' \<and> cpu_data s' = cpu_data s \<and> current_cpu s' = current_cpu s \<and>
    (\<forall>x. Some x \<noteq> old \<longrightarrow> get_proc s' x = get_proc s x) \<and>
    mset (queued s') = (case old of Some r \<Rightarrow> if requeues s r then {#r#} else {#} | None \<Rightarrow> {#}) + mset (queued s) \<and>
    (\<forall>r. old = Some r \<longrightarrow> \<not> requeues s r \<longrightarrow> r \<noteq> Idle (current_cpu s) \<longrightarrow> p_state (get_proc s' r) = PROC_RUNNING)"
  proof (cases old)
    case None
    then show ?thesis using assms(1-3) by (simp add: s'_def retire_old_def)
  next
    case (Some r)
    with assms(4) have r: "runnable_ref s r" "r \<notin> set (queued s)" "p_state (get_proc s r) = PROC_RUNNING" by auto
    show ?thesis using retire_old_keeps [OF assms(1-3) r] by (simp add: s'_def Some)
  qed
  then show "cpu_ok s'" "queued_ok s'" "typed s'" "cpu_data s' = cpu_data s" "current_cpu s' = current_cpu s"
    "\<And>x. Some x \<noteq> old \<Longrightarrow> get_proc s' x = get_proc s x"
    "mset (queued s') = (case old of Some r \<Rightarrow> if requeues s r then {#r#} else {#} | None \<Rightarrow> {#}) + mset (queued s)"
    "\<And>r. old = Some r \<Longrightarrow> \<not> requeues s r \<Longrightarrow> r \<noteq> Idle (current_cpu s) \<Longrightarrow> p_state (get_proc s' r) = PROC_RUNNING"
    by simp_all
qed

lemma context_switch_keeps:
  assumes "cpu_ok s" "queued_ok s" "typed s"
    and old: "\<And>x. old = Some x \<Longrightarrow> runnable_ref s x \<and> x \<notin> set (queued s) \<and> p_state (get_proc s x) = PROC_RUNNING"
    and new: "runnable_ref s r" "r \<notin> set (queued s)" "old \<noteq> Some r"
  defines "s' \<equiv> snd (context_switch old (Some r) s)"
  shows "sched_wf s'" "current_proc s' = Some r" "current_cpu s' = current_cpu s"
    "mset (queued s') = (case old of Some x \<Rightarrow> if requeues s x then {#x#} else {#} | None \<Rightarrow> {#}) + mset (queued s)"
    "\<And>x. old = Some x \<Longrightarrow> \<not> requeues s x \<Longrightarrow> x \<noteq> Idle (current_cpu s) \<Longrightarrow> p_state (get_proc s' x) = PROC_RUNNING"
proof -
  let ?s1 = "retire_old old s"
  let ?s2 = "load_new r ?s1"
  have s': "s' = swtch old (Some r) ?s2" using new(3) by (simp add: s'_def context_switch_def)
  note a = retire_current [where old = old, OF assms(1-3) old, simplified]
  have r1: "r \<notin> set (queued ?s1)"
  proof -
    have "set (queued ?s1) = set_mset ((case old of Some x \<Rightarrow> if requeues s x then {#x#} else {#} | None \<Rightarrow> {#}) + mset (queued s))"
      by (simp only: a(7) [symmetric] set_mset_mset)
    then show ?thesis using new(2,3) by (auto split: option.splits)
  qed
  have r2: "runnable_ref ?s1 r" using new(1,3) a(5,6) by (simp add: runnable_ref_def)
  note b = load_new_keeps [OF a(1-3) r1 r2]
  have v: "old = None \<or> (\<exists>x. old = Some x \<and> valid_ref ?s2 x)"
  proof (cases old)
    case (Some x)
    then have "valid_ref s x" using old runnable_valid [OF assms(1)] by blast
    then have "valid_ref ?s2 x" using assms(1) b(1) by (cases x) (auto simp: cpu_ok_def)
    with Some show ?thesis by simp
  qed simp
  note c = swtch_keeps [OF b(1-3) v, of "Some r"]
  show "sched_wf s'" "current_proc s' = Some r" "current_cpu s' = current_cpu s"
    using c b r1 r2 a(5) by (simp_all add: s' sched_wf_def)
  show "mset (queued s') = (case old of Some x \<Rightarrow> if requeues s x then {#x#} else {#} | None \<Rightarrow> {#}) + mset (queued s)"
    using a(7) b(4) c(4) by (simp add: s')
  show "p_state (get_proc s' x) = PROC_RUNNING" if "old = Some x" "\<not> requeues s x" "x \<noteq> Idle (current_cpu s)" for x
    using a(8) [OF that] b(9) [of x] c(8) new(3) that(1) by (auto simp: s')
qed

text \<open>No process changes but the one that was running and the one that is chosen.\<close>

lemma context_switch_others:
  assumes "old \<noteq> Some x" "new \<noteq> Some x"
  shows "get_proc (snd (context_switch old new s)) x = get_proc s x"
proof -
  have add: "get_proc (sched_add old t) x = get_proc t x" for t :: "'a sched_state_scheme"
    using assms(1) by (cases old) (simp_all add: sched_add_def if_distrib [of "\<lambda>s. get_proc s x"] Let_def)
  have "get_proc (retire_old old s) x = get_proc s x"
  proof (cases old)
    case (Some r)
    then have u: "get_proc (upd_proc f r t) x = get_proc t x" for f and t :: "'a sched_state_scheme" using assms(1) by simp
    show ?thesis
      unfolding retire_old_def Some option.case Let_def add [unfolded Some] u if_distrib [of "\<lambda>s. get_proc s x"] if_cancel ..
  qed (simp add: retire_old_def)
  moreover have "get_proc (load_new r t) x = get_proc t x" if "new = Some r" for r and t :: "'a sched_state_scheme"
    using assms(2) that by (simp add: load_new_def Let_def)
  ultimately show ?thesis
    using assms by (cases old; cases new) (simp_all add: context_switch_def swtch_def Let_def)
qed

lemma sched_yield_keeps:
  assumes "sched_wf s"
  defines "s' \<equiv> snd (sched_yield s)"
  shows "sched_wf s'" "tracked s' + dropped s = tracked s" "current_cpu s' = current_cpu s"
    "queued s = [] \<Longrightarrow> current_proc s' = Some (Idle (current_cpu s))"
    "queued s \<noteq> [] \<Longrightarrow> \<exists>r \<in> set (queued s). current_proc s' = Some r"
    "fst (sched_yield s) \<longleftrightarrow> current_proc s' \<noteq> current_proc s"
    "\<And>x. current_proc s \<noteq> Some x \<Longrightarrow> current_proc s' \<noteq> Some x \<Longrightarrow> get_proc s' x = get_proc s x"
proof -
  note w = sched_wfD [OF assms(1)]
  obtain p s1 where n: "sched_next (current_cpu s) s = (p, s1)" by (cases "sched_next (current_cpu s) s")
  obtain r where r: "p = Some r" "cpu_ok s1" "queued_ok s1" "typed s1" "runnable_ref s1 r" "r \<notin> set (queued s1)"
    "cpu_data s1 = cpu_data s" "current_cpu s1 = current_cpu s"
    "\<And>x. x \<noteq> r \<Longrightarrow> get_proc s1 x = get_proc s x"
    "set (queued s) - {r} = set (queued s1)" "r \<in> set (queued s) \<or> queued s = [] \<and> r = Idle (current_cpu s) \<and> s1 = s"
    "p_state (get_proc s1 r) = p_state (get_proc s r)" "p_policy (get_proc s1 r) = p_policy (get_proc s r)"
    "mset (queued s) = (if r \<in> set (queued s) then {#r#} else {#}) + mset (queued s1)"
    using sched_next_keeps [OF w(1-3) n] by blast
  have y: "sched_yield s = context_switch (current_proc s) (Some r) s1"
    using n r(1) by (simp add: sched_yield_def current_proc_def)
  have c1: "current_proc s1 = current_proc s" using r(7,8) by (simp add: current_proc_def)
  have all: "sched_wf s' \<and> tracked s' + dropped s = tracked s \<and> current_cpu s' = current_cpu s \<and>
    (queued s = [] \<longrightarrow> current_proc s' = Some (Idle (current_cpu s))) \<and>
    (queued s \<noteq> [] \<longrightarrow> (\<exists>r \<in> set (queued s). current_proc s' = Some r)) \<and>
    (fst (sched_yield s) \<longleftrightarrow> current_proc s' \<noteq> current_proc s) \<and>
    (\<forall>x. current_proc s \<noteq> Some x \<longrightarrow> current_proc s' \<noteq> Some x \<longrightarrow> get_proc s' x = get_proc s x)"
  proof (cases "current_proc s = Some r")
    case True
    then have "r \<notin> set (queued s)" using w(4) by blast
    with r(11) have i: "queued s = []" "r = Idle (current_cpu s)" "s1 = s" by auto
    with True y have "sched_yield s = (False, s)" by (simp add: context_switch_def)
    with True i assms(1) show ?thesis by (simp add: s'_def dropped_def)
  next
    case False
    have old: "runnable_ref s1 x \<and> x \<notin> set (queued s1) \<and> p_state (get_proc s1 x) = PROC_RUNNING"
      and same: "requeues s1 x = requeues s x" if "current_proc s = Some x" for x
    proof -
      have "x \<noteq> r" using that False by auto
      then show "runnable_ref s1 x \<and> x \<notin> set (queued s1) \<and> p_state (get_proc s1 x) = PROC_RUNNING"
        "requeues s1 x = requeues s x"
        using w(4) [OF that] r(8,9,10) by (auto simp: runnable_ref_def requeues_def)
    qed
    note c = context_switch_keeps [where old = "current_proc s", OF r(2-4) old r(5,6) False, folded y s'_def]
    have q: "mset (queued s') = (case current_proc s of Some x \<Rightarrow> if requeues s x then {#x#} else {#} | None \<Rightarrow> {#}) + mset (queued s1)"
      using c(4) same by (auto split: option.splits)
    have run: "running s' = (if r \<in> set (queued s) then {#r#} else {#})"
      using r(11) queued_policy(2) [OF w(2,3), of r] c(2) by (auto simp: running_def)
    have "running s = (case current_proc s of Some x \<Rightarrow> if requeues s x then {#x#} else {#} | None \<Rightarrow> {#}) + dropped s"
      using w(4) by (auto simp: running_def dropped_def requeues_def runnable_ref_def split: option.splits proc_ref.splits)
    then have "tracked s' + dropped s = tracked s"
      using q run r(14) by (simp add: tracked_def)
    moreover have "fst (sched_yield s)" using y False by (auto simp: context_switch_def)
    moreover have "get_proc s' x = get_proc s x" if "current_proc s \<noteq> Some x" "x \<noteq> r" for x
      using context_switch_others [of "current_proc s" x "Some r" s1] that r(9) by (simp add: s'_def y)
    ultimately show ?thesis using c(1-3) r(8,11) False by auto
  qed
  then show "sched_wf s'" "tracked s' + dropped s = tracked s" "current_cpu s' = current_cpu s"
    "queued s = [] \<Longrightarrow> current_proc s' = Some (Idle (current_cpu s))"
    "queued s \<noteq> [] \<Longrightarrow> \<exists>r \<in> set (queued s). current_proc s' = Some r"
    "fst (sched_yield s) \<longleftrightarrow> current_proc s' \<noteq> current_proc s"
    "\<And>x. current_proc s \<noteq> Some x \<Longrightarrow> current_proc s' \<noteq> Some x \<Longrightarrow> get_proc s' x = get_proc s x" by simp_all
qed

section \<open>Aging\<close>

text \<open>What the boost leaves alone.\<close>

definition boosted :: "'z sched_state_scheme \<Rightarrow> 'z sched_state_scheme \<Rightarrow> bool" where
  "boosted s s' \<longleftrightarrow> cpu_ok s' \<and> queued_ok s' \<and> typed s' \<and> mset (queued s') = mset (queued s) \<and>
     rt_queue s' = rt_queue s \<and> cpu_data s' = cpu_data s \<and> current_cpu s' = current_cpu s \<and>
     global_ticks s' = global_ticks s \<and>
     (\<forall>x. get_proc s' x = get_proc s x \<or> x \<in> set (queued s) \<and>
        get_proc s' x = (get_proc s x)\<lparr>p_queue_level := 0, p_time_slice := 5\<rparr>)"

lemma boosted_refl: "cpu_ok s \<Longrightarrow> queued_ok s \<Longrightarrow> typed s \<Longrightarrow> boosted s s"
  by (simp add: boosted_def)

lemma boostedD:
  assumes "boosted s s'"
  shows "cpu_ok s'" "queued_ok s'" "typed s'" "mset (queued s') = mset (queued s)" "rt_queue s' = rt_queue s"
    "cpu_data s' = cpu_data s" "current_cpu s' = current_cpu s" "global_ticks s' = global_ticks s"
    "set (queued s') = set (queued s)"
    "get_proc s' x = get_proc s x \<or> x \<in> set (queued s) \<and> get_proc s' x = (get_proc s x)\<lparr>p_queue_level := 0, p_time_slice := 5\<rparr>"
  using assms mset_eq_setD [of "queued s'" "queued s"] by (simp_all only: boosted_def simp_thms)

lemma boosted_trans:
  assumes 1: "boosted s s'" and 2: "boosted s' s''"
  shows "boosted s s''"
  unfolding boosted_def
proof (intro conjI allI)
  fix x
  show "get_proc s'' x = get_proc s x \<or> x \<in> set (queued s) \<and>
        get_proc s'' x = (get_proc s x)\<lparr>p_queue_level := 0, p_time_slice := 5\<rparr>"
    using boostedD(10) [OF 1, of x] boostedD(10) [OF 2, of x] boostedD(9) [OF 1]
    by (elim disjE conjE) simp_all
qed (simp_all only: boostedD [OF 1] boostedD [OF 2])

lemma boosted_wf: "boosted s s' \<Longrightarrow> sched_wf s \<Longrightarrow> sched_wf s' \<and> tracked s' = tracked s \<and> current_proc s' = current_proc s"
proof -
  assume b: "boosted s s'" and w: "sched_wf s"
  have q: "set (queued s') = set (queued s)" using b by (metis boosted_def mset_eq_setD)
  have c: "current_proc s' = current_proc s" using b by (simp add: boosted_def current_proc_def)
  have g: "p_state (get_proc s' x) = p_state (get_proc s x) \<and> p_policy (get_proc s' x) = p_policy (get_proc s x)" for x
  proof -
    have "get_proc s' x = get_proc s x \<or> get_proc s' x = (get_proc s x)\<lparr>p_queue_level := 0, p_time_slice := 5\<rparr>"
      using b by (auto simp: boosted_def)
    then show ?thesis by auto
  qed
  have "runnable_ref s' = runnable_ref s" using b g by (auto simp: boosted_def runnable_ref_def fun_eq_iff)
  with b w c g q show ?thesis
    by (simp add: sched_wf_def boosted_def tracked_def running_def split: option.splits)
qed

text \<open>One process moves from the front of a level to the end of level 0.\<close>

lemma age_step:
  assumes "cpu_ok s" "queued_ok s" "typed s" "0 < level" "level < NUM_QUEUE_LEVELS" "level_view s level = r # rs"
  obtains s' where "age_level (Suc k) level s = age_level k level s'" "boosted s s'"
    "level_view s' = (level_view s)(0 := level_view s 0 @ [r], level := rs)"
    "get_proc s' r = (get_proc s r)\<lparr>p_queue_level := 0, p_time_slice := 5\<rparr>" "\<And>x. x \<noteq> r \<Longrightarrow> get_proc s' x = get_proc s x"
proof -
  let ?s1 = "s\<lparr>ready_queues := (ready_queues s)[level := snd (mlfq_dequeue (ready_queues s ! level))]\<rparr>"
  let ?f = "\<lambda>p. p\<lparr>p_queue_level := 0, p_time_slice := queue_time_slices ! 0\<rparr>"
  let ?s2 = "upd_proc ?f r ?s1"
  let ?s3 = "upd_queue (\<lambda>q. mlfq_enqueue q (Some r)) 0 ?s2"
  have wf: "queues_wf s" using assms(2) by (simp add: queued_ok_def)
  note d = dequeue_level [OF assms(2,5,6)]
  have rq: "r \<in> set (queued s)" using assms(5,6) set_queued [OF wf] by fastforce
  obtain i where i: "i < MAX_PROCESSES" "r = Proc i" using queued_policy(2) [OF assms(2,3) rq] by blast
  have pol: "p_policy (get_proc s r) = SCHED_NORMAL" using assms(3,5,6) by (auto simp: typed_def)
  have sub: "set (queued ?s1) \<subseteq> set (queued s)"
    using d(3) by (metis set_mset_mset set_mset_add_mset_insert subset_insertI)
  have t1: "typed ?s1"
  proof -
    have "set (level_view ?s1 l) \<subseteq> set (level_view s l)" for l using d(5) assms(6) by auto
    then show ?thesis using assms(3) sub unfolding typed_def by (simp add: subset_iff)
  qed
  have c1: "cpu_ok ?s1" using assms(1) by (simp add: cpu_ok_def)
  have u: "cpu_ok ?s2" "queued_ok ?s2" "typed ?s2" "queued ?s2 = queued ?s1"
    using upd_proc_keeps [OF c1 d(2) t1 d(4), of ?f] by simp_all
  have l2: "level_view ?s2 = level_view ?s1" using queued_ok_frame [of ?s2 ?s1] by simp
  have n2: "Proc i \<notin> set (queued ?s2)" using u(4) d(4) i by simp
  note e = enqueue_level [OF u(2) i(1) n2, of 0, folded i(2)]
  have v: "valid_ref s r" using assms(1) i by (simp add: cpu_ok_def)
  have gp: "get_proc ?s3 x = (if x = r then (get_proc s r)\<lparr>p_queue_level := 0, p_time_slice := 5\<rparr> else get_proc s x)" for x
    using v by (auto simp: queue_time_slices_def)
  have q3: "mset (queued ?s3) = mset (queued s)" using e(2) u(4) d(3) by simp
  then have qs: "set (queued ?s3) = set (queued s)" by (metis mset_eq_setD)
  have lv: "level_view ?s3 = (level_view s)(0 := level_view s 0 @ [r], level := rs)"
    using e(3,4) l2 d(5) assms(4) by (auto simp: fun_eq_iff)
  show thesis
  proof (rule that)
    show "age_level (Suc k) level s = age_level k level ?s3"
      using d(1) pol assms(6) by (simp add: q_size_view case_prod_beta)
    show "level_view ?s3 = (level_view s)(0 := level_view s 0 @ [r], level := rs)" by (rule lv)
    show "get_proc ?s3 r = (get_proc s r)\<lparr>p_queue_level := 0, p_time_slice := 5\<rparr>"
      unfolding gp by simp
    show "get_proc ?s3 x = get_proc s x" if "x \<noteq> r" for x unfolding gp using that by simp
    have "typed ?s3"
    proof -
      have "p_state (get_proc ?s3 x) = p_state (get_proc s x)" "p_policy (get_proc ?s3 x) = p_policy (get_proc s x)" for x
        unfolding gp by simp_all
      moreover have "\<forall>x \<in> set (level_view s 0). p_policy (get_proc s x) = SCHED_NORMAL"
        using assms(3) unfolding typed_def NUM_QUEUE_LEVELS_def by (metis zero_less_numeral)
      ultimately show ?thesis using assms(3,5,6) pol unfolding typed_def qs lv by auto
    qed
    moreover have "cpu_ok ?s3" using u(1) by (simp add: cpu_ok_def)
    ultimately show "boosted s ?s3"
      using e(1) q3 rq gp by (auto simp: boosted_def)
  qed
qed

lemma age_level_all:
  assumes "cpu_ok s" "queued_ok s" "typed s" "0 < level" "level < NUM_QUEUE_LEVELS" "level_view s level = rs"
  shows "boosted s (age_level (length rs) level s) \<and>
    level_view (age_level (length rs) level s) = (level_view s)(0 := level_view s 0 @ rs, level := []) \<and>
    (\<forall>r \<in> set rs. p_queue_level (get_proc (age_level (length rs) level s) r) = 0 \<and>
       p_time_slice (get_proc (age_level (length rs) level s) r) = 5) \<and>
    (\<forall>x. x \<notin> set rs \<longrightarrow> get_proc (age_level (length rs) level s) x = get_proc s x)"
  using assms(1-3,6)
proof (induction rs arbitrary: s)
  case Nil
  then show ?case by (auto simp: boosted_refl fun_eq_iff)
next
  case (Cons r rs)
  from age_step [OF Cons.prems(1-3) assms(4,5) Cons.prems(4), of "length rs"] obtain s' where
    s': "age_level (length (r # rs)) level s = age_level (length rs) level s'" "boosted s s'"
    "level_view s' = (level_view s)(0 := level_view s 0 @ [r], level := rs)"
    "get_proc s' r = (get_proc s r)\<lparr>p_queue_level := 0, p_time_slice := 5\<rparr>" "\<And>x. x \<noteq> r \<Longrightarrow> get_proc s' x = get_proc s x" by auto
  let ?t = "age_level (length rs) level s'"
  have ih: "boosted s' ?t" "level_view ?t = (level_view s')(0 := level_view s' 0 @ rs, level := [])"
    "\<forall>r \<in> set rs. p_queue_level (get_proc ?t r) = 0 \<and> p_time_slice (get_proc ?t r) = 5"
    "\<forall>x. x \<notin> set rs \<longrightarrow> get_proc ?t x = get_proc s' x"
    using Cons.IH [of s'] s'(2,3) by (auto simp: boosted_def)
  have "get_proc ?t r = get_proc s' r \<or> get_proc ?t r = (get_proc s' r)\<lparr>p_queue_level := 0, p_time_slice := 5\<rparr>"
    using ih(1) by (auto simp: boosted_def)
  then have "p_queue_level (get_proc ?t r) = 0 \<and> p_time_slice (get_proc ?t r) = 5" using s'(4) by auto
  with ih(3) have "\<forall>x \<in> set (r # rs). p_queue_level (get_proc ?t x) = 0 \<and> p_time_slice (get_proc ?t x) = 5" by simp
  moreover have "\<forall>x. x \<notin> set (r # rs) \<longrightarrow> get_proc ?t x = get_proc s x" using ih(4) s'(5) by simp
  moreover have "level_view ?t = (level_view s)(0 := level_view s 0 @ r # rs, level := [])"
    using ih(2) s'(3) assms(4) by (auto simp: fun_eq_iff)
  ultimately show ?case unfolding s'(1) using boosted_trans [OF s'(2) ih(1)] by blast
qed

lemma boosted_fields: "boosted s s' \<Longrightarrow> cpu_ok s' \<and> queued_ok s' \<and> typed s'"
  by (simp add: boosted_def)

lemma boosted_keeps_boost:
  assumes "boosted s s'" "p_queue_level (get_proc s x) = 0 \<and> p_time_slice (get_proc s x) = 5"
  shows "p_queue_level (get_proc s' x) = 0 \<and> p_time_slice (get_proc s' x) = 5"
proof -
  have "get_proc s' x = get_proc s x \<or> get_proc s' x = (get_proc s x)\<lparr>p_queue_level := 0, p_time_slice := 5\<rparr>"
    using assms(1) by (auto simp: boosted_def)
  then show ?thesis using assms(2) by auto
qed

lemma age_levels_all:
  assumes "cpu_ok s" "queued_ok s" "typed s"
  defines "s' \<equiv> age_levels (NUM_QUEUE_LEVELS - 1) 1 s"
  shows "boosted s s'"
    "level_view s' 0 = level_view s 0 @ level_view s 1 @ level_view s 2 @ level_view s 3"
    "\<And>l. 0 < l \<Longrightarrow> l < NUM_QUEUE_LEVELS \<Longrightarrow> level_view s' l = []"
    "\<And>r. r \<in> set (level_view s 1 @ level_view s 2 @ level_view s 3) \<Longrightarrow>
       p_queue_level (get_proc s' r) = 0 \<and> p_time_slice (get_proc s' r) = 5"
    "\<And>r. r \<notin> set (level_view s 1 @ level_view s 2 @ level_view s 3) \<Longrightarrow> get_proc s' r = get_proc s r"
proof -
  have size: "q_size (ready_queues t ! l) = length (level_view t l)" for t :: "'a sched_state_scheme" and l
    by (simp add: level_view_def)
  define s1 where "s1 = age_level (length (level_view s 1)) 1 s"
  define s2 where "s2 = age_level (length (level_view s1 2)) 2 s1"
  define s3 where "s3 = age_level (length (level_view s2 3)) 3 s2"
  have s': "s' = s3"
    by (simp add: s'_def s1_def s2_def s3_def size numeral_3_eq_3 numeral_2_eq_2)
  have a1: "boosted s s1 \<and> level_view s1 = (level_view s)(0 := level_view s 0 @ level_view s 1, 1 := []) \<and>
      (\<forall>r \<in> set (level_view s 1). p_queue_level (get_proc s1 r) = 0 \<and> p_time_slice (get_proc s1 r) = 5) \<and>
      (\<forall>x. x \<notin> set (level_view s 1) \<longrightarrow> get_proc s1 x = get_proc s x)"
    unfolding s1_def using age_level_all [OF assms(1-3), of 1] by simp
  then have w1: "cpu_ok s1" "queued_ok s1" "typed s1" using boosted_fields by auto
  have a2: "boosted s1 s2 \<and> level_view s2 = (level_view s1)(0 := level_view s1 0 @ level_view s1 2, 2 := []) \<and>
      (\<forall>r \<in> set (level_view s1 2). p_queue_level (get_proc s2 r) = 0 \<and> p_time_slice (get_proc s2 r) = 5) \<and>
      (\<forall>x. x \<notin> set (level_view s1 2) \<longrightarrow> get_proc s2 x = get_proc s1 x)"
    unfolding s2_def using age_level_all [OF w1, of 2] by simp
  then have w2: "cpu_ok s2" "queued_ok s2" "typed s2" using boosted_fields by auto
  have a3: "boosted s2 s3 \<and> level_view s3 = (level_view s2)(0 := level_view s2 0 @ level_view s2 3, 3 := []) \<and>
      (\<forall>r \<in> set (level_view s2 3). p_queue_level (get_proc s3 r) = 0 \<and> p_time_slice (get_proc s3 r) = 5) \<and>
      (\<forall>x. x \<notin> set (level_view s2 3) \<longrightarrow> get_proc s3 x = get_proc s2 x)"
    unfolding s3_def using age_level_all [OF w2, of 3] by simp
  show "boosted s s'" using a1 a2 a3 boosted_trans s' by blast
  show "level_view s' 0 = level_view s 0 @ level_view s 1 @ level_view s 2 @ level_view s 3"
    using a1 a2 a3 s' by simp
  show "level_view s' l = []" if "0 < l" "l < NUM_QUEUE_LEVELS" for l
    using a1 a2 a3 s' that by (auto simp: less_Suc_eq numeral_eq_Suc)
  have lv: "level_view s1 2 = level_view s 2" "level_view s2 3 = level_view s 3" using a1 a2 by simp_all
  show "get_proc s' r = get_proc s r" if "r \<notin> set (level_view s 1 @ level_view s 2 @ level_view s 3)" for r
    using a1 a2 a3 lv that unfolding s' by auto
  from lv a1 a2 a3 boosted_keeps_boost [of s1 s2] boosted_keeps_boost [of s2 s3]
  show "p_queue_level (get_proc s' r) = 0 \<and> p_time_slice (get_proc s' r) = 5"
    if "r \<in> set (level_view s 1 @ level_view s 2 @ level_view s 3)" for r
    using that unfolding s' by auto
qed

section \<open>A tick\<close>

definition dec_slice :: "u64 \<Rightarrow> u64" where
  "dec_slice t = (if t > 0 then t - 1 else t)"

text \<open>The state in which the tick decides about preemption.\<close>

definition ticked :: "proc_ref \<Rightarrow> 'z sched_state_scheme \<Rightarrow> 'z sched_state_scheme" where
  "ticked r s = tick_charge r
     (upd_cpu (\<lambda>c. c\<lparr>cpu_ticks := cpu_ticks c + 1\<rparr>) (current_cpu s) (tick_increment s))"

lemma tick_increment_fields [simp]:
  "ready_queues (tick_increment s) = ready_queues s" "rt_queue (tick_increment s) = rt_queue s"
  "cpu_data (tick_increment s) = cpu_data s" "current_cpu (tick_increment s) = current_cpu s"
  "proc_table (tick_increment s) = proc_table s" "idle_processes (tick_increment s) = idle_processes s"
  "global_ticks (tick_increment s) = global_ticks s + 1"
  by (simp_all add: tick_increment_def)

lemma tick_charge_facts:
  assumes "valid_ref s r"
  shows "get_proc (tick_charge r s) x = (if x = r then (get_proc s r)
      \<lparr>p_stats := (p_stats (get_proc s r))\<lparr>cpu_time := cpu_time (p_stats (get_proc s r)) + 1\<rparr>,
       p_time_slice := dec_slice (p_time_slice (get_proc s r))\<rparr> else get_proc s x)"
    "ready_queues (tick_charge r s) = ready_queues s" "rt_queue (tick_charge r s) = rt_queue s"
    "current_cpu (tick_charge r s) = current_cpu s" "global_ticks (tick_charge r s) = global_ticks s"
    "length (proc_table (tick_charge r s)) = length (proc_table s)"
    "length (idle_processes (tick_charge r s)) = length (idle_processes s)"
    "length (cpu_data (tick_charge r s)) = length (cpu_data s)"
    "current_cpu s < length (cpu_data s) \<Longrightarrow>
       cpu_idle (cpu_data (tick_charge r s) ! current_cpu s) = cpu_idle (cpu_data s ! current_cpu s) \<and>
       cpu_current (cpu_data (tick_charge r s) ! current_cpu s) = cpu_current (cpu_data s ! current_cpu s)"
  using assms by (cases "x = r"; simp add: tick_charge_def Let_def dec_slice_def upd_cpu_data)+

lemma ticked_facts:
  assumes "sched_wf s" "current_proc s = Some r"
  shows "sched_wf (ticked r s)" "queued (ticked r s) = queued s" "current_proc (ticked r s) = Some r"
    "current_cpu (ticked r s) = current_cpu s" "global_ticks (ticked r s) = global_ticks s + 1"
    "p_time_slice (get_proc (ticked r s) r) = dec_slice (p_time_slice (get_proc s r))"
    "p_policy (get_proc (ticked r s) r) = p_policy (get_proc s r)"
    "p_queue_level (get_proc (ticked r s) r) = p_queue_level (get_proc s r)"
    "\<And>x. x \<noteq> r \<Longrightarrow> get_proc (ticked r s) x = get_proc s x"
    "level_view (ticked r s) = level_view s" "rt_queue (ticked r s) = rt_queue s"
proof -
  let ?t = "ticked r s"
  let ?u = "upd_cpu (\<lambda>c. c\<lparr>cpu_ticks := cpu_ticks c + 1\<rparr>) (current_cpu s) (tick_increment s)"
  note w = sched_wfD [OF assms(1)]
  have v: "valid_ref ?u r" using w(4) [OF assms(2)] runnable_valid [OF w(1)] by simp
  have c: "current_cpu s < length (cpu_data s)" using w(1) by (simp add: cpu_ok_def)
  note f = tick_charge_facts [OF v, folded ticked_def]
  have gp: "get_proc ?t x = (if x = r then (get_proc s r)
      \<lparr>p_stats := (p_stats (get_proc s r))\<lparr>cpu_time := cpu_time (p_stats (get_proc s r)) + 1\<rparr>,
       p_time_slice := dec_slice (p_time_slice (get_proc s r))\<rparr> else get_proc s x)" for x
    unfolding f(1) by simp
  have cd: "cpu_idle (cpu_data ?t ! current_cpu s) = cpu_idle (cpu_data s ! current_cpu s)"
    "cpu_current (cpu_data ?t ! current_cpu s) = cpu_current (cpu_data s ! current_cpu s)"
    using f(9) c by (simp_all add: upd_cpu_data)
  have k: "cpu_ok ?t" "queued_ok ?t" "typed ?t" "queued ?t = queued s" "runnable_ref ?t = runnable_ref s"
    using keeps_frame [OF w(1-3), of ?t] f(2-8) cd by (simp_all add: gp)
  show cur: "current_proc ?t = Some r" "current_cpu ?t = current_cpu s"
    using cd assms(2) f(4) by (simp_all add: current_proc_def)
  show "sched_wf ?t" using k cur w(4) [OF assms(2)] by (simp add: sched_wf_def gp)
  show "queued ?t = queued s" "global_ticks ?t = global_ticks s + 1" "rt_queue ?t = rt_queue s" 
    "level_view ?t = level_view s"
    using k f by (simp_all add: level_view_def fun_eq_iff)
  show "p_time_slice (get_proc ?t r) = dec_slice (p_time_slice (get_proc s r))"
    "p_policy (get_proc ?t r) = p_policy (get_proc s r)" "p_queue_level (get_proc ?t r) = p_queue_level (get_proc s r)"
    "\<And>x. x \<noteq> r \<Longrightarrow> get_proc ?t x = get_proc s x" by (simp_all add: gp)
qed

lemma sched_tick_Some:
  assumes "current_proc s = Some r"
  shows "sched_tick s =
    (if p_time_slice (get_proc (ticked r s) r) = 0 \<and> p_policy (get_proc (ticked r s) r) \<in> {SCHED_NORMAL, SCHED_RR}
     then let (left, s') = sched_yield (ticked r s) in if left then (True, s') else (False, sched_aging s')
     else (False, sched_aging (ticked r s)))"
  using assms by (auto simp: sched_tick_def ticked_def current_proc_def Let_def)

lemma sched_aging_boosted: "sched_wf s \<Longrightarrow> boosted s (sched_aging s)"
  using age_levels_all(1) [of s] boosted_refl [of s] by (simp add: sched_aging_def sched_wfD)

lemma sched_aging_keeps:
  "sched_wf s \<Longrightarrow> sched_wf (sched_aging s) \<and> tracked (sched_aging s) = tracked s \<and>
     current_proc (sched_aging s) = current_proc s"
  using boosted_wf [OF sched_aging_boosted] by blast

lemma sched_tick_keeps:
  assumes "sched_wf s"
  shows "sched_wf (snd (sched_tick s)) \<and> tracked (snd (sched_tick s)) = tracked s"
proof (cases "current_proc s")
  case None
  let ?u = "upd_cpu (\<lambda>c. c\<lparr>cpu_ticks := cpu_ticks c + 1\<rparr>) (current_cpu s) (tick_increment s)"
  have "snd (sched_tick s) = ?u" using None by (simp add: sched_tick_def current_proc_def)
  note w = sched_wfD [OF assms]
  have c: "current_cpu s < length (cpu_data s)" using w(1) by (simp add: cpu_ok_def)
  then have "current_proc ?u = None" using None by (simp add: current_proc_def upd_cpu_data)
  moreover have "cpu_ok ?u" "queued_ok ?u" "typed ?u" "queued ?u = queued s"
    using keeps_frame [OF w(1-3), of ?u] c by (simp_all add: upd_cpu_data)
  ultimately show ?thesis
    using \<open>snd (sched_tick s) = ?u\<close> None by (simp add: sched_wf_def tracked_def running_def)
next
  case (Some r)
  note t = ticked_facts [OF assms Some]
  let ?t = "ticked r s"
  have tr: "tracked ?t = tracked s" using t(2,3) Some by (simp add: tracked_def running_def)
  show ?thesis
  proof (cases "p_time_slice (get_proc ?t r) = 0 \<and> p_policy (get_proc ?t r) \<in> {SCHED_NORMAL, SCHED_RR}")
    case False
    then have "snd (sched_tick s) = sched_aging ?t" by (auto simp: sched_tick_Some [OF Some])
    then show ?thesis using sched_aging_keeps [OF t(1)] tr by simp
  next
    case True
    have "dropped ?t = {#}"
    proof -
      have "runnable_ref ?t r" using sched_wfD(4) [OF t(1,3)] by simp
      with True t(3) show ?thesis by (auto simp: dropped_def requeues_def runnable_ref_def)
    qed
    then have y: "sched_wf (snd (sched_yield ?t))" "tracked (snd (sched_yield ?t)) = tracked s"
      using sched_yield_keeps(1,2) [OF t(1)] tr by simp_all
    with True sched_aging_keeps [OF y(1)] show ?thesis
      by (simp add: sched_tick_Some [OF Some] case_prod_beta)
  qed
qed

end
