(* ===== verification/Sched_System.thy ===== *)
theory Sched_System
  imports Scheduler
begin

text \<open>
  The running system: the steps the kernel takes with the scheduler, the states they reach from
  \<open>scheduler_init\<close>, and the properties of the scheduler over them.
\<close>

section \<open>Priorities\<close>

text \<open>The priority is clamped to 0 to 139; below 100 it makes a process real-time, above it chooses one of the four levels, ten priorities each.\<close>

definition clamp_prio :: "int \<Rightarrow> int" where
  "clamp_prio p = max PRIORITY_MIN (min PRIORITY_MAX p)"

definition set_prio :: "int \<Rightarrow> process_t \<Rightarrow> process_t" where
  "set_prio c q = (if c \<le> PRIORITY_RT_MAX
     then q\<lparr>p_priority := c, p_dynamic_priority := c, p_policy := SCHED_RR\<rparr>
     else q\<lparr>p_priority := c, p_dynamic_priority := c, p_queue_level := (c - PRIORITY_NORMAL_MIN) div 10\<rparr>)"

lemma sched_set_priority_eq:
  assumes "valid_ref s r"
  shows "sched_set_priority (Some r) p s = upd_proc (set_prio (clamp_prio p)) r s"
proof -
  define c where "c = clamp_prio p"
  have c: "(if (if p < PRIORITY_MIN then PRIORITY_MIN else p) > PRIORITY_MAX then PRIORITY_MAX
      else if p < PRIORITY_MIN then PRIORITY_MIN else p) = c"
    by (auto simp: c_def clamp_prio_def)
  have "c \<le> 139" by (simp add: c_def clamp_prio_def)
  have "(c - 100) * 4 div 40 = (c - 100) div 10"
    using div_mult_mult2 [of "4 :: int" "c - 100" 10] by simp
  moreover have "\<not> (c - 100) div 10 \<ge> 4" using \<open>c \<le> 139\<close> by presburger
  ultimately show ?thesis
    using assms unfolding sched_set_priority_def Let_def option.case c c_def [symmetric]
    by (cases "c \<le> 99") (auto simp: upd_upd set_prio_def [abs_def])
qed

section \<open>The running system\<close>

text \<open>
  The steps the kernel takes with the scheduler. A process is added, or given a priority or a policy,
  while it does not wait; the functions do not check this, but \<open>test_scheduler\<close>, the only caller outside
  the scheduler, does so before it adds the process; \<open>Resume\<close> is the rest of an earlier tick, run when the process it preempted
  is switched to again.
\<close>

inductive sched_step :: "'z sched_state_scheme \<Rightarrow> 'z sched_state_scheme \<Rightarrow> bool" where
  Add: "i < MAX_PROCESSES \<Longrightarrow> Proc i \<notin> set (queued s) \<Longrightarrow> current_proc s \<noteq> Some (Proc i) \<Longrightarrow>
    p_policy (get_proc s (Proc i)) \<noteq> SCHED_IDLE \<Longrightarrow> sched_step s (sched_add (Some (Proc i)) s)"
| Yield: "sched_step s (snd (sched_yield s))"
| Tick: "sched_step s (snd (sched_tick s))"
| Resume: "sched_step s (sched_aging s)"
| Priority: "i < MAX_PROCESSES \<Longrightarrow> Proc i \<notin> set (queued s) \<Longrightarrow> sched_step s (sched_set_priority (Some (Proc i)) p s)"
| Policy: "i < MAX_PROCESSES \<Longrightarrow> Proc i \<notin> set (queued s) \<Longrightarrow> pol \<noteq> SCHED_IDLE \<Longrightarrow>
    sched_step s (sched_set_policy (Some (Proc i)) pol s)"
| Alloc: "sched_step s (snd (process_alloc s))"

inductive sched_reachable :: "'z sched_state_scheme \<Rightarrow> 'z sched_state_scheme \<Rightarrow> bool" for s0 where
  start: "sched_reachable s0 s0"
| step: "sched_reachable s0 s \<Longrightarrow> sched_step s s' \<Longrightarrow> sched_reachable s0 s'"

text \<open>Updating a table process that does not wait keeps the invariant.\<close>

lemma sched_wf_upd:
  assumes "sched_wf s" "i < MAX_PROCESSES" "Proc i \<notin> set (queued s)"
    and "\<And>p. p_policy p \<noteq> SCHED_IDLE \<Longrightarrow> p_policy (f p) \<noteq> SCHED_IDLE" "current_proc s = Some (Proc i) \<Longrightarrow> p_state (f (get_proc s (Proc i))) = PROC_RUNNING"
  shows "sched_wf (upd_proc f (Proc i) s)"
proof -
  note w = sched_wfD [OF assms(1)]
  note k = upd_proc_keeps [OF w(1-3) assms(3), of f, simplified]
  have v: "valid_ref s (Proc i)" using assms(2) w(1) by (simp add: cpu_ok_def)
  have c: "current_proc (upd_proc f (Proc i) s) = current_proc s" by (simp add: current_proc_def)
  have "runnable_ref (upd_proc f (Proc i) s) r \<and> p_state (get_proc (upd_proc f (Proc i) s) r) = PROC_RUNNING"
    if "current_proc s = Some r" for r
    using w(4) [OF that] that v assms(4,5) by (cases "r = Proc i") (auto simp: runnable_ref_def)
  then show ?thesis using k w(4) c by (auto simp: sched_wf_def split: option.splits)
qed

lemma sched_wf_next_pid: "sched_wf (s\<lparr>next_pid := n\<rparr>) = sched_wf s"
  by (rule sched_frame) simp_all

lemma sched_wf_add:
  assumes "sched_wf s" "i < MAX_PROCESSES" "Proc i \<notin> set (queued s)" "current_proc s \<noteq> Some (Proc i)"
    "p_policy (get_proc s (Proc i)) \<noteq> SCHED_IDLE"
  shows "sched_wf (sched_add (Some (Proc i)) s)"
proof -
  let ?t = "sched_add (Some (Proc i)) s"
  note w = sched_wfD [OF assms(1)]
  have len: "length (proc_table s) = MAX_PROCESSES" using w(1) by (simp add: cpu_ok_def)
  note a = sched_add_queued [OF w(2) assms(2,3) len assms(5)] and b = sched_add_keeps [OF w(1-3) assms(2,3,5)]
  have qs: "set (queued ?t) = insert (Proc i) (set (queued s))"
    by (metis a(2) set_mset_add_mset_insert set_mset_mset)
  have "current_proc ?t = current_proc s" using a(4,5) by (simp add: current_proc_def)
  moreover have "runnable_ref ?t r \<and> r \<notin> set (queued ?t) \<and> p_state (get_proc ?t r) = PROC_RUNNING"
    if "current_proc s = Some r" for r
  proof -
    have "r \<noteq> Proc i" using that assms(4) by auto
    moreover from this have "r \<notin> set (queued ?t)" using w(4) [OF that] by (simp add: qs)
    ultimately show ?thesis using w(4) [OF that] a(3,5) by (auto simp: runnable_ref_def)
  qed
  ultimately show ?thesis using b by (auto simp: sched_wf_def split: option.splits)
qed

lemma sched_wf_process_alloc:
  assumes "sched_wf s"
  shows "sched_wf (snd (process_alloc s))"
proof -
  obtain r s1 where a: "process_alloc s = (r, s1)" by (cases "process_alloc s")
  then show ?thesis
  proof (cases rule: process_alloc_cases)
    case full
    then show ?thesis using a assms by simp
  next
    case (slot j)
    have un: "p_state (get_proc s (Proc j)) = PROC_UNUSED" using slot(2,3) by (simp add: in_use_def get_proc.simps)
    note w = sched_wfD [OF assms]
    have nq: "Proc j \<notin> set (queued s)" using un w(3) by (auto simp: typed_def)
    have nc: "current_proc s \<noteq> Some (Proc j)" using un w(4) by fastforce
    have "sched_wf (upd_proc (fresh_slot (next_pid s) (global_ticks s)) (Proc j) s)"
      by (rule sched_wf_upd [OF assms slot(2) nq]) (use nc in \<open>simp_all add: fresh_slot_def\<close>)
    then show ?thesis using a slot(5) by (simp add: alloc_slot_def sched_wf_next_pid)
  qed
qed

lemma sched_step_keeps:
  assumes "sched_step s s'" "sched_wf s"
  shows "sched_wf s'"
  using assms(1)
proof (cases rule: sched_step.cases)
  case (Priority i p)
  have v: "valid_ref s (Proc i)" using Priority(2) sched_wfD(1) [OF assms(2)] by (simp add: cpu_ok_def)
  show ?thesis
    unfolding Priority(1) sched_set_priority_eq [OF v]
    by (rule sched_wf_upd [OF assms(2) Priority(2,3)]) (use sched_wfD(4) [OF assms(2)] in \<open>simp_all add: set_prio_def\<close>)
next
  case (Policy i pol)
  show ?thesis
    unfolding Policy(1) sched_set_policy_def option.case
    by (rule sched_wf_upd [OF assms(2) Policy(2,3)]) (use Policy(4) sched_wfD(4) [OF assms(2)] in simp_all)
qed (use sched_wf_add [OF assms(2)] sched_wf_process_alloc [OF assms(2)] sched_yield_keeps(1) [OF assms(2)]
    sched_tick_keeps [OF assms(2)] sched_aging_keeps [OF assms(2)] in simp_all)

section \<open>The initial state\<close>

text \<open>The static arrays as the loader leaves them, and one CPU.\<close>

definition sched_boot :: "'z sched_state_scheme \<Rightarrow> bool" where
  "sched_boot s \<longleftrightarrow> num_cpus s = 1 \<and> current_cpu s = 0 \<and> length (proc_table s) = MAX_PROCESSES \<and>
     length (idle_processes s) = MAX_CPUS \<and> length (cpu_data s) = MAX_CPUS \<and>
     length (ready_queues s) = NUM_QUEUE_LEVELS \<and>
     list_all (\<lambda>q. length (q_slots q) = MAX_PROCESSES) (ready_queues s) \<and>
     length (rt_slots (rt_queue s)) = MAX_PROCESSES"

lemma kprintf_sched [simp]:
  "ready_queues (kprintf f as s) = ready_queues s" "rt_queue (kprintf f as s) = rt_queue s"
  "cpu_data (kprintf f as s) = cpu_data s" "current_cpu (kprintf f as s) = current_cpu s"
  "num_cpus (kprintf f as s) = num_cpus s" "proc_table (kprintf f as s) = proc_table s"
  "idle_processes (kprintf f as s) = idle_processes s" "global_ticks (kprintf f as s) = global_ticks s"
  by (simp_all add: kprintf_def)

lemma kprintf_proc [simp]: "get_proc (kprintf f as s) = get_proc s" "valid_ref (kprintf f as s) = valid_ref s"
  by (rule get_proc_cong; simp add: kprintf_def)+

lemma init_queues_fields:
  "length (ready_queues s) = i + k \<Longrightarrow>
   ready_queues (init_queues k i s) = take i (ready_queues s) @ map mlfq_init (drop i (ready_queues s)) \<and>
   rt_queue (init_queues k i s) = rt_queue s \<and> cpu_data (init_queues k i s) = cpu_data s \<and>
   current_cpu (init_queues k i s) = current_cpu s \<and> num_cpus (init_queues k i s) = num_cpus s \<and>
   proc_table (init_queues k i s) = proc_table s \<and> idle_processes (init_queues k i s) = idle_processes s"
proof (induction k i s rule: init_queues.induct)
  case (2 k i s)
  let ?q = "ready_queues s"
  have i: "i < length ?q" using "2.prems" by simp
  have "take (Suc i) (?q[i := mlfq_init (?q ! i)]) = take i ?q @ [mlfq_init (?q ! i)]"
    using i by (simp add: take_Suc_conv_app_nth)
  moreover have "drop i ?q = ?q ! i # drop (Suc i) ?q" using i by (simp add: Cons_nth_drop_Suc)
  ultimately show ?case using "2.IH" "2.prems" by (simp add: upd_queue_def)
qed simp

lemma mlfq_init_wf: "length (q_slots q) = MAX_PROCESSES \<Longrightarrow> mlfq_wf (mlfq_init q) \<and> mlfq_view (mlfq_init q) = []"
  by (simp add: mlfq_wf_def mlfq_init_def mlfq_view_def)

lemma proc_table_upd_Idle: "proc_table (upd_proc f (Idle i) s) = proc_table s"
  by (simp add: upd_proc.simps)

lemma init_cpus_1:
  assumes "length (cpu_data s) = MAX_CPUS" "length (idle_processes s) = MAX_CPUS"
  defines "s' \<equiv> init_cpus 1 0 s"
  shows "ready_queues s' = ready_queues s" "rt_queue s' = rt_queue s" "current_cpu s' = current_cpu s"
    "proc_table s' = proc_table s" "length (idle_processes s') = MAX_CPUS" "length (cpu_data s') = MAX_CPUS"
    "cpu_current (cpu_data s' ! 0) = None" "cpu_idle (cpu_data s' ! 0) = Some (Idle 0)"
    "p_policy (get_proc s' (Idle 0)) = SCHED_IDLE"
  using assms(1,2) unfolding s'_def One_nat_def init_cpus.simps init_idle_process_def
  by (simp_all add: upd_cpu_data proc_table_upd_Idle)

lemma scheduler_init_wf:
  assumes "sched_boot s"
  shows "sched_wf (scheduler_init s)" "queued (scheduler_init s) = []" "current_proc (scheduler_init s) = None"
    "proc_table (scheduler_init s) = proc_table s"
proof -
  let ?s' = "scheduler_init s"
  have b: "num_cpus s = 1" "current_cpu s = 0" "length (proc_table s) = 64" "length (idle_processes s) = 8"
    "length (cpu_data s) = 8" "length (ready_queues s) = 4" "length (rt_slots (rt_queue s)) = 64"
    "\<And>q. q \<in> set (ready_queues s) \<Longrightarrow> length (q_slots q) = 64"
    using assms by (simp_all add: sched_boot_def list_all_iff)
  define s1 where "s1 = kprintf ''[SCHED] SMP support: %d CPU(s)\<newline>'' [Num (of_nat (num_cpus s))]
    (kprintf ''[SCHED] Real-time scheduling support enabled\<newline>'' []
      (kprintf ''[SCHED] Multi-level feedback queue (MLFQ) with %d levels\<newline>'' [Num (of_nat NUM_QUEUE_LEVELS)]
        (kprintf ''[SCHED] Initializing advanced scheduler\<newline>'' [] s)))"
  define s2 where "s2 = init_queues 4 0 s1"
  define s3 where "s3 = s2\<lparr>rt_queue := (rt_queue s2)\<lparr>rt_size := 0\<rparr>\<rparr>"
  have 2: "ready_queues s2 = map mlfq_init (ready_queues s)" "rt_queue s2 = rt_queue s" "cpu_data s2 = cpu_data s"
    "current_cpu s2 = 0" "num_cpus s2 = 1" "proc_table s2 = proc_table s" "idle_processes s2 = idle_processes s"
    using init_queues_fields [of s1 0 4] b by (simp_all add: s1_def s2_def)
  have 3: "length (cpu_data s3) = MAX_CPUS" "length (idle_processes s3) = MAX_CPUS" using 2 b by (simp_all add: s3_def)
  have s': "?s' = kprintf ''[SCHED] Scheduler initialized\<newline>'' [] (init_cpus 1 0 s3)"
    using 2(5) by (simp add: scheduler_init_def Let_def s3_def s2_def s1_def)
  note i = init_cpus_1 [OF 3]
  have f: "ready_queues ?s' = map mlfq_init (ready_queues s)" "rt_queue ?s' = (rt_queue s)\<lparr>rt_size := 0\<rparr>"
    "current_cpu ?s' = 0" "cpu_current (cpu_data ?s' ! 0) = None"
    unfolding s' using i 2 by (simp_all add: s3_def)
  show pt: "proc_table ?s' = proc_table s" unfolding s' using i 2 by (simp add: s3_def)
  have ok: "cpu_ok ?s'" unfolding s' using i 2 b by (simp add: s3_def cpu_ok_def)
  have v: "mlfq_view (mlfq_init q) = [] \<and> mlfq_wf (mlfq_init q)" if "q \<in> set (ready_queues s)" for q
    using mlfq_init_wf [of q] b(8) [OF that] by simp
  have rt: "rt_wf (rt_queue ?s')" "rt_view (rt_queue ?s') = []" using b(7) by (simp_all add: f rt_wf_def rt_view_def)
  show q: "queued ?s' = []" using v by (simp add: queued_def f rt(2) [unfolded f])
  have "queues_wf ?s'" using v rt(1) b(6) by (simp add: queues_wf_def f list_all_iff)
  then have "queued_ok ?s'" "typed ?s'" using q queued_Nil_iff [of ?s'] by (simp_all add: queued_ok_def typed_def)
  moreover show c: "current_proc ?s' = None" by (simp add: current_proc_def f)
  ultimately show "sched_wf ?s'" using ok by (simp add: sched_wf_def)
qed

section \<open>What a switch does to the processes\<close>

text \<open>The scheduling attributes of a process: policy, level and what is left of its time slice.\<close>

definition attrs :: "process_t \<Rightarrow> sched_policy_t \<times> int \<times> u64" where
  "attrs p = (p_policy p, p_queue_level p, p_time_slice p)"

lemma load_new_attrs:
  assumes "valid_ref s r"
  shows "attrs (get_proc (load_new r s) x) = attrs (get_proc s x)" "ready_queues (load_new r s) = ready_queues s"
    "rt_queue (load_new r s) = rt_queue s"
  using assms by (cases "x = r"; simp add: load_new_def Let_def attrs_def)+

lemma swtch_attrs:
  assumes "old = None \<or> (\<exists>r. old = Some r \<and> valid_ref s r)"
  shows "attrs (get_proc (swtch old new s) x) = attrs (get_proc s x)"
    "ready_queues (swtch old new s) = ready_queues s" "rt_queue (swtch old new s) = rt_queue s"
  using assms by (cases "old = Some x"; auto simp: swtch_def Let_def attrs_def split: option.splits)+

lemma retire_old_attrs:
  assumes "cpu_ok s" "queued_ok s" "typed s" "runnable_ref s r" "r \<notin> set (queued s)" "p_state (get_proc s r) = PROC_RUNNING"
  defines "lvl \<equiv> p_queue_level (get_proc s r) +
       (if r \<noteq> Idle (current_cpu s) \<and> p_policy (get_proc s r) = SCHED_NORMAL \<and> p_time_slice (get_proc s r) = 0 \<and>
           p_queue_level (get_proc s r) < int NUM_QUEUE_LEVELS - 1 then 1 else 0)"
    and "s' \<equiv> retire_old (Some r) s"
  shows "attrs (get_proc s' r) = (p_policy (get_proc s r), lvl, p_time_slice (get_proc s r))"
    "requeues s r \<Longrightarrow> p_policy (get_proc s r) = SCHED_NORMAL \<Longrightarrow> p_state (get_proc s' r) = PROC_RUNNABLE \<and>
       rt_queue s' = rt_queue s \<and> level_view s' = (level_view s)(clamp_level lvl := level_view s (clamp_level lvl) @ [r])"
proof -
  have v: "valid_ref s r" by (rule runnable_valid [OF assms(1,4)])
  obtain k where k: "\<And>p. p_policy (k p) = p_policy p" "\<And>p. p_time_slice (k p) = p_time_slice p"
    "p_queue_level (k (get_proc s r)) = lvl"
    "s' = (if requeues s r then sched_add (Some r) (upd_proc k r s) else upd_proc k r s)"
    unfolding s'_def lvl_def by (rule retire_old_shape [OF assms(1,4,6)]) blast
  let ?t = "upd_proc k r s"
  have at: "attrs (get_proc ?t r) = (p_policy (get_proc s r), lvl, p_time_slice (get_proc s r))"
    using v k by (simp add: attrs_def)
  have t: "cpu_ok ?t" "queued_ok ?t" "queued ?t = queued s"
    using upd_proc_keeps [OF assms(1-3,5), of k] k(1) by simp_all
  have add: "attrs (get_proc s' r) = attrs (get_proc ?t r) \<and> (p_policy (get_proc s r) = SCHED_NORMAL \<longrightarrow> p_state (get_proc s' r) = PROC_RUNNABLE \<and>
      rt_queue s' = rt_queue s \<and> level_view s' = (level_view s)(clamp_level lvl := level_view s (clamp_level lvl) @ [r]))"
    if "requeues s r"
  proof -
    from that obtain i where i: "i < MAX_PROCESSES" "r = Proc i"
      using assms(4) by (auto simp: runnable_ref_def requeues_def)
    have p: "p_policy (get_proc ?t (Proc i)) \<noteq> SCHED_IDLE" using that v by (auto simp: requeues_def i k(1))
    have n: "Proc i \<notin> set (queued ?t)" using assms(5) t(3) i by simp
    have len: "length (proc_table ?t) = MAX_PROCESSES" using t(1) by (simp add: cpu_ok_def)
    note a = sched_add_queued [OF t(2) i(1) n len p]
    have s': "s' = sched_add (Some (Proc i)) ?t" using that k(4) i by simp
    have lv: "level_view ?t = level_view s" using queued_ok_frame [of ?t s] by simp
    have q: "p_policy (get_proc ?t (Proc i)) = p_policy (get_proc s r)" "p_queue_level (get_proc ?t (Proc i)) = lvl"
      using at i by (simp_all add: attrs_def)
    show ?thesis using a(3) [of r] a(7) unfolding s' by (simp add: i(2) lv [unfolded i(2)] q [unfolded i(2)] attrs_def)
  qed
  show "attrs (get_proc s' r) = (p_policy (get_proc s r), lvl, p_time_slice (get_proc s r))"
    using add k(4) at by (cases "requeues s r") simp_all
  show "p_state (get_proc s' r) = PROC_RUNNABLE \<and>
       rt_queue s' = rt_queue s \<and> level_view s' = (level_view s)(clamp_level lvl := level_view s (clamp_level lvl) @ [r])"
    if "requeues s r" "p_policy (get_proc s r) = SCHED_NORMAL" using add that by simp
qed

text \<open>A yield by the current process \<open>x\<close> in favour of another process.\<close>

lemma sched_yield_attrs:
  assumes "sched_wf s" "current_proc s = Some x" "sched_next (current_cpu s) s = (Some r, s1)" "x \<noteq> r"
  defines "lvl \<equiv> p_queue_level (get_proc s x) +
       (if x \<noteq> Idle (current_cpu s) \<and> p_policy (get_proc s x) = SCHED_NORMAL \<and> p_time_slice (get_proc s x) = 0 \<and>
           p_queue_level (get_proc s x) < int NUM_QUEUE_LEVELS - 1 then 1 else 0)"
    and "s' \<equiv> snd (sched_yield s)"
  shows "fst (sched_yield s)" "current_proc s' = Some r"
    "attrs (get_proc s' x) = (p_policy (get_proc s x), lvl, p_time_slice (get_proc s x))"
    "\<And>y. y \<noteq> x \<Longrightarrow> attrs (get_proc s' y) = attrs (get_proc s1 y)"
    "requeues s x \<Longrightarrow> p_policy (get_proc s x) = SCHED_NORMAL \<Longrightarrow> p_state (get_proc s' x) = PROC_RUNNABLE \<and>
       level_view s' = (level_view s1)(clamp_level lvl := level_view s1 (clamp_level lvl) @ [x])"
proof -
  note w = sched_wfD [OF assms(1)]
  obtain r1: "cpu_ok s1" "queued_ok s1" "typed s1" "runnable_ref s1 r" "r \<notin> set (queued s1)"
    "cpu_data s1 = cpu_data s" "current_cpu s1 = current_cpu s"
    "\<And>y. y \<noteq> r \<Longrightarrow> get_proc s1 y = get_proc s y" "set (queued s) - {r} = set (queued s1)"
    using sched_next_keeps [OF w(1-3) assms(3)] by (metis option.inject)
  let ?s2 = "retire_old (Some x) s1"
  let ?s3 = "load_new r ?s2"
  have x: "runnable_ref s1 x" "x \<notin> set (queued s1)" "p_state (get_proc s1 x) = PROC_RUNNING" "requeues s1 x = requeues s x"
    and gx: "get_proc s1 x = get_proc s x"
    using w(4) [OF assms(2)] r1(7,8,9) assms(4) by (auto simp: runnable_ref_def requeues_def)
  note a = retire_old_attrs [OF r1(1-3) x(1-3), unfolded r1(7) gx, folded lvl_def] and b = retire_old_keeps [OF r1(1-3) x(1-3)]
  have y: "sched_yield s = (True, swtch (Some x) (Some r) ?s3)"
    using assms(2-4) by (simp add: sched_yield_def context_switch_def current_proc_def Let_def)
  show "fst (sched_yield s)" by (simp add: y)
  have "sched_yield s = context_switch (Some x) (Some r) s1"
    using assms(2-4) by (simp add: sched_yield_def current_proc_def)
  then show "current_proc s' = Some r"
    using context_switch_keeps(2) [OF r1(1-3), of "Some x" r] x r1(4,5) assms(4) by (simp add: s'_def)
  have vx: "valid_ref ?s2 x" "valid_ref ?s2 r"
    using runnable_valid [OF r1(1) x(1)] runnable_valid [OF r1(1,4)] r1(1) b(1) by (cases x; cases r; simp add: cpu_ok_def)+
  have "valid_ref ?s3 x" using vx(1) by (simp add: load_new_def Let_def)
  then have sw: "Some x = None \<or> (\<exists>r. Some x = Some r \<and> valid_ref ?s3 r)" by simp
  have at: "attrs (get_proc s' y) = attrs (get_proc ?s2 y)" for y
    using swtch_attrs(1) [OF sw] load_new_attrs(1) [OF vx(2)] by (simp add: s'_def y)
  show "attrs (get_proc s' x) = (p_policy (get_proc s x), lvl, p_time_slice (get_proc s x))"
    using at a(1) by simp
  show "attrs (get_proc s' y) = attrs (get_proc s1 y)" if "y \<noteq> x" for y using at b(6) [OF that] by simp
  have fr: "level_view s' = level_view ?s2"
    using swtch_attrs(2) [OF sw] load_new_attrs(2) [OF vx(2)] by (simp add: s'_def y level_view_def fun_eq_iff)
  have "p_state (get_proc s' x) = p_state (get_proc ?s3 x)"
    using sw by (simp add: s'_def y swtch_def Let_def)
  also have "\<dots> = p_state (get_proc ?s2 x)" using assms(4) by (simp add: load_new_def Let_def)
  finally show "p_state (get_proc s' x) = PROC_RUNNABLE \<and>
      level_view s' = (level_view s1)(clamp_level lvl := level_view s1 (clamp_level lvl) @ [x])"
    if "requeues s x" "p_policy (get_proc s x) = SCHED_NORMAL"
    using a(2) that x(4) fr by simp
qed

section \<open>Properties\<close>

definition blank_cpu :: cpu_sched_t where
  "blank_cpu = \<lparr>cpu_current = None, cpu_idle = None, cpu_number = 0, cpu_ticks = 0, cpu_idle_ticks = 0\<rparr>"

text \<open>The scheduler's globals as the loader leaves them, on top of the sample process table.\<close>

definition sample_sched :: sched_state where
  "sample_sched = proc_state.extend sample_proc
     (sched_state.fields (replicate 4 empty_mlfq) empty_rt (replicate 8 blank_cpu) 1 0)"

lemma sample_sched_fields:
  "ready_queues sample_sched = replicate 4 empty_mlfq" "rt_queue sample_sched = empty_rt"
  "cpu_data sample_sched = replicate 8 blank_cpu" "num_cpus sample_sched = 1" "current_cpu sample_sched = 0"
  "proc_table sample_sched = replicate 64 blank_process" "idle_processes sample_sched = replicate 8 blank_process"
  "global_ticks sample_sched = 0" "next_pid sample_sched = 1"
  using sample_proc_fields by (simp_all add: sample_sched_def proc_state.defs sched_state.defs)

lemma sample_boot: "sched_boot sample_sched"
  by (simp add: sched_boot_def sample_sched_fields empty_mlfq_def empty_rt_def list_all_iff)

text \<open>The scheduler has been initialised, and process 3 has been added and made to run.\<close>

definition sample_run :: sched_state where
  "sample_run = snd (sched_yield (sched_add (Some (Proc 3)) (scheduler_init sample_sched)))"

text \<open>\<open>p\<close> with the policy \<open>pol\<close>, added and made to run, with \<open>Proc 5\<close> waiting.\<close>

definition sample_two :: "sched_policy_t \<Rightarrow> sched_state" where
  "sample_two pol = sched_add (Some (Proc 5)) (snd (sched_yield
     (sched_add (Some (Proc 3)) (sched_set_policy (Some (Proc 3)) pol (scheduler_init sample_sched)))))"

text \<open>A process that is alone in the system is the one that runs after a yield.\<close>

lemma first_process:
  assumes "sched_wf s" "queued s = []" "current_proc s = None" "i < MAX_PROCESSES"
    and "p_policy (get_proc s (Proc i)) \<noteq> SCHED_IDLE"
  defines "s' \<equiv> snd (sched_yield (sched_add (Some (Proc i)) s))"
  shows "sched_wf s'" "queued s' = []" "current_proc s' = Some (Proc i)"
proof -
  let ?t = "sched_add (Some (Proc i)) s"
  have t: "sched_wf ?t" by (rule sched_step_keeps [OF sched_step.Add assms(1)]) (use assms in simp_all)
  note w = sched_wfD [OF assms(1)]
  have n: "Proc i \<notin> set (queued s)" and len: "length (proc_table s) = MAX_PROCESSES"
    using assms(2) w(1) by (simp_all add: cpu_ok_def)
  have q: "queued ?t = [Proc i]" "current_proc ?t = None"
    using sched_add_queued [OF w(2) assms(4) n len assms(5)] assms(2,3) by (simp_all add: current_proc_def)
  note y = sched_yield_keeps [OF t, folded s'_def]
  show "sched_wf s'" by (rule y(1))
  show c: "current_proc s' = Some (Proc i)" using y(5) q by simp
  have "dropped ?t = {#}" using q(2) by (simp add: dropped_def)
  then have "running s' + mset (queued s') = {#Proc i#}" using y(2) q by (simp add: tracked_def running_def)
  then show "queued s' = []" using c by (simp add: running_def)
qed

lemma sample_init:
  "sched_wf (scheduler_init sample_sched)" "queued (scheduler_init sample_sched) = []"
  "current_proc (scheduler_init sample_sched) = None" "get_proc (scheduler_init sample_sched) (Proc i) = replicate 64 blank_process ! i"
  using scheduler_init_wf [OF sample_boot] by (simp_all add: get_proc.simps sample_sched_fields)

lemma sample_run_facts: "sched_wf sample_run" "queued sample_run = []" "current_proc sample_run = Some (Proc 3)"
  using first_process [OF sample_init(1-3), of 3] by (simp_all add: sample_run_def sample_init blank_process_def)

text \<open>
  C12: in every state the kernel reaches from \<open>scheduler_init\<close> by adding processes that neither wait nor
  run, yields, timer ticks, changes of the priority or policy of processes that do not wait (the code
  checks none of these conditions; its callers meet them) and process creation, no process waits twice or waits while it
  runs, every waiting process is a runnable entry of the process table, the current process is
  marked as running, and no queue holds more than its array does.
\<close>

theorem sched_reachable_safe:
  assumes "sched_boot s0" "sched_reachable (scheduler_init s0) s"
  shows "distinct (queued s) \<and>
    (\<forall>r \<in> set (queued s). (\<exists>i < MAX_PROCESSES. r = Proc i) \<and> p_state (get_proc s r) = PROC_RUNNABLE \<and>
       p_policy (get_proc s r) \<noteq> SCHED_IDLE) \<and>
    (\<forall>r. current_proc s = Some r \<longrightarrow> valid_ref s r \<and> r \<notin> set (queued s) \<and> p_state (get_proc s r) = PROC_RUNNING) \<and>
    rt_size (rt_queue s) \<le> MAX_PROCESSES \<and> (\<forall>l < NUM_QUEUE_LEVELS. q_size (ready_queues s ! l) \<le> MAX_PROCESSES)"
proof -
  from assms(2) have "sched_wf s"
    by (induction rule: sched_reachable.induct) (use scheduler_init_wf(1) [OF assms(1)] sched_step_keeps in blast)+
  note w = sched_wfD [OF this]
  have q: "queues_wf s" using w(2) by (simp add: queued_ok_def)
  have "distinct (queued s)" using w(2) by (simp add: queued_ok_def)
  moreover have "(\<exists>i < MAX_PROCESSES. r = Proc i) \<and> p_state (get_proc s r) = PROC_RUNNABLE \<and> p_policy (get_proc s r) \<noteq> SCHED_IDLE"
    if "r \<in> set (queued s)" for r
    using queued_policy [OF w(2,3) that] w(3) that unfolding typed_def by blast
  moreover have "rt_size (rt_queue s) \<le> MAX_PROCESSES" "q_size (ready_queues s ! l) \<le> MAX_PROCESSES"
    if "l < NUM_QUEUE_LEVELS" for l
    using q queues_wfD [OF q that] by (simp_all add: queues_wf_def rt_wf_def mlfq_wf_def)
  ultimately show ?thesis using w(4) runnable_valid [OF w(1)] NUM_QUEUE_LEVELS_def by (metis zero_less_numeral)
qed

theorem sched_reachable_safe_witness:
  "sched_boot sample_sched \<and> sched_reachable (scheduler_init sample_sched) sample_run \<and>
     current_proc sample_run = Some (Proc 3) \<and> p_state (get_proc sample_run (Proc 3)) = PROC_RUNNING"
proof -
  let ?s = "scheduler_init sample_sched"
  have "sched_step ?s (sched_add (Some (Proc 3)) ?s)"
    by (rule sched_step.Add) (simp_all add: sample_init blank_process_def)
  then have r: "sched_reachable ?s sample_run"
    unfolding sample_run_def by (intro sched_reachable.step [OF _ sched_step.Yield]) (rule sched_reachable.step [OF sched_reachable.start])
  from sched_reachable_safe [OF sample_boot r] r show ?thesis using sample_boot sample_run_facts(3) by simp
qed

text \<open>
  C15: no process is lost or duplicated. A timer tick, preemption included, and the periodic boost
  keep the running and waiting processes together unchanged; a voluntary yield does so except that
  a running \<open>SCHED_FIFO\<close> process drops out.
\<close>

theorem sched_no_loss:
  assumes "sched_wf s"
  shows "tracked (snd (sched_tick s)) = tracked s \<and> tracked (sched_aging s) = tracked s \<and>
    tracked (snd (sched_yield s)) =
      filter_mset (\<lambda>r. \<not> (current_proc s = Some r \<and> p_policy (get_proc s r) = SCHED_FIFO)) (tracked s)"
proof -
  note w = sched_wfD [OF assms]
  let ?P = "\<lambda>r. \<not> (current_proc s = Some r \<and> p_policy (get_proc s r) = SCHED_FIFO)"
  have "filter_mset ?P (tracked s) = tracked (snd (sched_yield s))"
  proof (cases "dropped s = {#}")
    case True
    have "?P r" if "r \<in># tracked s" for r
      using that True w(1) w(4) [of r]
      by (auto simp: dropped_def requeues_def tracked_def runnable_ref_def cpu_ok_def split: if_splits)
    then have "filter_mset ?P (tracked s) = tracked s" by (simp add: filter_mset_eq_conv)
    then show ?thesis using sched_yield_keeps(2) [OF assms] True by simp
  next
    case False
    then obtain r where r: "current_proc s = Some r" "dropped s = {#r#}" "r \<noteq> Idle (current_cpu s)" "\<not> requeues s r"
      by (auto simp: dropped_def split: option.splits if_splits)
    then obtain i where i: "r = Proc i" "p_policy (get_proc s r) = SCHED_FIFO"
      using w(4) [OF r(1)] by (cases "p_policy (get_proc s r)") (auto simp: requeues_def runnable_ref_def)
    have t: "tracked s = add_mset r (mset (queued s))" using r(1) i by (simp add: tracked_def running_def)
    have "filter_mset ?P (mset (queued s)) = mset (queued s)"
      using w(4) [OF r(1)] r(1) by (auto simp: filter_mset_eq_conv)
    then show ?thesis using sched_yield_keeps(2) [OF assms] r i t by simp
  qed
  then show ?thesis using sched_tick_keeps [OF assms] sched_aging_keeps [OF assms] by simp
qed

theorem sched_no_loss_witness: "sched_wf sample_run \<and> tracked (snd (sched_tick sample_run)) = {#Proc 3#}"
  using sched_no_loss [OF sample_run_facts(1)] sample_run_facts by (simp add: tracked_def running_def)

text \<open>A sequence of timer ticks (\<open>True\<close>) and voluntary yields (\<open>False\<close>).\<close>

fun sched_run :: "bool list \<Rightarrow> 'z sched_state_scheme \<Rightarrow> 'z sched_state_scheme" where
  "sched_run [] s = s"
| "sched_run (b # bs) s = sched_run bs (snd (if b then sched_tick s else sched_yield s))"

lemma tracked_iff: "Proc i \<in># tracked s \<longleftrightarrow> current_proc s = Some (Proc i) \<or> Proc i \<in> set (queued s)"
  by (auto simp: tracked_def running_def split: option.split proc_ref.split)

lemma sched_run_tracked:
  "sched_wf s \<Longrightarrow> sched_wf (sched_run bs s) \<and> tracked (sched_run bs s) \<subseteq># tracked s"
proof (induction bs arbitrary: s)
  case (Cons b bs)
  have "tracked (snd (sched_yield s)) \<subseteq># tracked s"
    using sched_yield_keeps(2) [OF Cons.prems] by (metis mset_subset_eq_add_left)
  then have "sched_wf (snd (if b then sched_tick s else sched_yield s)) \<and>
      tracked (snd (if b then sched_tick s else sched_yield s)) \<subseteq># tracked s"
    using sched_tick_keeps [OF Cons.prems] sched_yield_keeps(1) [OF Cons.prems] by simp
  then show ?case using Cons.IH [of "snd (if b then sched_tick s else sched_yield s)"]
    by (auto intro: subset_mset.order_trans simp del: fst_conv snd_conv if_split)
qed simp

text \<open>A waiting process after the first one has been made to run.\<close>

lemma second_process:
  assumes "sched_wf s" "queued s = []" "current_proc s = Some r" "j < MAX_PROCESSES" "r \<noteq> Proc j"
    and "p_policy (get_proc s (Proc j)) \<noteq> SCHED_IDLE"
  defines "s' \<equiv> sched_add (Some (Proc j)) s"
  shows "sched_wf s'" "queued s' = [Proc j]" "current_proc s' = Some r"
    "get_proc s' r = get_proc s r" "current_cpu s' = current_cpu s"
proof -
  note w = sched_wfD [OF assms(1)]
  have n: "Proc j \<notin> set (queued s)" and len: "length (proc_table s) = MAX_PROCESSES"
    using assms(2) w(1) by (simp_all add: cpu_ok_def)
  note a = sched_add_queued [OF w(2) assms(4) n len assms(6), folded s'_def]
  show "sched_wf s'" unfolding s'_def
    by (rule sched_step_keeps [OF sched_step.Add assms(1)]) (use assms in simp_all)
  show "queued s' = [Proc j]" "current_proc s' = Some r" "get_proc s' r = get_proc s r" "current_cpu s' = current_cpu s"
    using a(2-5) assms(2,3,5) by (simp_all add: current_proc_def)
qed

text \<open>The attributes of the process that the first yield chooses.\<close>

lemma yield_first_attrs:
  assumes "sched_wf s" "current_proc s = None" "sched_next (current_cpu s) s = (Some r, s1)"
  shows "attrs (get_proc (snd (sched_yield s)) x) = attrs (get_proc s1 x)"
proof -
  note w = sched_wfD [OF assms(1)]
  obtain r1: "cpu_ok s1" "runnable_ref s1 r"
    using sched_next_keeps [OF w(1-3) assms(3)] by (metis option.inject)
  have "snd (sched_yield s) = swtch None (Some r) (load_new r s1)"
    using assms(2,3) by (simp add: sched_yield_def current_proc_def context_switch_def retire_old_def)
  then show ?thesis using swtch_attrs(1) [of None "load_new r s1"] load_new_attrs(1) [OF runnable_valid [OF r1]] by simp
qed

lemma first_attrs:
  assumes "sched_wf s" "queued s = []" "current_proc s = None" "i < MAX_PROCESSES"
    and "p_policy (get_proc s (Proc i)) \<noteq> SCHED_IDLE"
  defines "p \<equiv> get_proc s (Proc i)" and "s' \<equiv> snd (sched_yield (sched_add (Some (Proc i)) s))"
  shows "attrs (get_proc s' (Proc i)) = (p_policy p, p_queue_level p,
      if p_policy p = SCHED_NORMAL then queue_time_slices ! clamp_level (p_queue_level p) else p_time_slice p)"
    "\<And>x. x \<noteq> Proc i \<Longrightarrow> attrs (get_proc s' x) = attrs (get_proc s x)"
proof -
  let ?t = "sched_add (Some (Proc i)) s" and ?l = "clamp_level (p_queue_level p)"
  note w = sched_wfD [OF assms(1)]
  have n: "Proc i \<notin> set (queued s)" and len: "length (proc_table s) = MAX_PROCESSES"
    using assms(2) w(1) by (simp_all add: cpu_ok_def)
  note a = sched_add_queued [OF w(2) assms(4) n len assms(5), folded p_def]
  have t: "sched_wf ?t" by (rule sched_step_keeps [OF sched_step.Add assms(1)]) (use assms in simp_all)
  note tw = sched_wfD [OF t]
  have c: "current_proc ?t = None" using a(4,5) assms(3) by (simp add: current_proc_def)
  have v: "valid_ref ?t (Proc i)" using tw(1) assms(4) by (simp add: cpu_ok_def)
  have emp: "rt_view (rt_queue s) = []" "level_view s l = []" if "l < NUM_QUEUE_LEVELS" for l
    using assms(2) w(2) queued_Nil_iff [of s] that by (auto simp: queued_ok_def)
  have at: "attrs (get_proc ?t x) = attrs (get_proc s x)" for x by (simp add: a(3) p_def attrs_def)
  have "\<exists>s1. sched_next (current_cpu ?t) ?t = (Some (Proc i), s1) \<and> (\<forall>x. attrs (get_proc s1 x) =
      (if x = Proc i \<and> p_policy p = SCHED_NORMAL then (p_policy p, p_queue_level p, queue_time_slices ! ?l) else attrs (get_proc s x)))"
  proof (cases "p_policy p = SCHED_NORMAL")
    case True
    have lv: "rt_view (rt_queue ?t) = []" "level_view ?t ?l = [Proc i]" "\<forall>j < ?l. level_view ?t j = []"
      using a(7) [OF True] emp(1) emp(2) [OF clamp_level_less] emp(2) clamp_level_less [of "p_queue_level p"]
      by (auto intro: emp(2))
    let ?s1 = "upd_proc (\<lambda>p. p\<lparr>p_time_slice := queue_time_slices ! ?l\<rparr>) (Proc i)
      (?t\<lparr>ready_queues := (ready_queues ?t)[?l := snd (mlfq_dequeue (ready_queues ?t ! ?l))]\<rparr>)"
    have "attrs (get_proc ?s1 x) = (if x = Proc i then (p_policy p, p_queue_level p, queue_time_slices ! ?l) else attrs (get_proc s x))" for x
      using v at [of x] by (cases "x = Proc i") (simp_all add: attrs_def p_def)
    then show ?thesis using sched_next_level(1) [OF tw(2) lv(1) clamp_level_less lv(2,3)] True by auto
  next
    case False
    have "rt_view (rt_queue ?t) = [Proc i]" using a(8) [OF False] emp(1) [of 0] by (simp add: insert_stable_def)
    from sched_next_rt(1) [OF tw(2) this] False at show ?thesis by auto
  qed
  then obtain s1 where s1: "sched_next (current_cpu ?t) ?t = (Some (Proc i), s1)" "\<And>x. attrs (get_proc s1 x) =
      (if x = Proc i \<and> p_policy p = SCHED_NORMAL then (p_policy p, p_queue_level p, queue_time_slices ! ?l) else attrs (get_proc s x))"
    by blast
  note y = yield_first_attrs [OF t c s1(1), folded s'_def]
  show "attrs (get_proc s' (Proc i)) = (p_policy p, p_queue_level p,
      if p_policy p = SCHED_NORMAL then queue_time_slices ! clamp_level (p_queue_level p) else p_time_slice p)"
    unfolding y s1(2) by (simp add: attrs_def p_def)
  show "attrs (get_proc s' x) = attrs (get_proc s x)" if "x \<noteq> Proc i" for x
    unfolding y s1(2) using that by simp
qed

lemma sample_two_facts:
  assumes "pol \<noteq> SCHED_IDLE"
  shows "sched_wf (sample_two pol)" "queued (sample_two pol) = [Proc 5]" "current_proc (sample_two pol) = Some (Proc 3)"
    "attrs (get_proc (sample_two pol) (Proc 3)) = (pol, 0, if pol = SCHED_NORMAL then 5 else 0)"
proof -
  let ?i = "scheduler_init sample_sched"
  let ?s = "sched_set_policy (Some (Proc 3)) pol ?i"
  have s: "?s = upd_proc (\<lambda>p. p\<lparr>p_policy := pol\<rparr>) (Proc 3) ?i" by (simp add: sched_set_policy_def)
  have wf: "sched_wf ?s" by (rule sched_step_keeps [OF sched_step.Policy sample_init(1)]) (use assms sample_init in simp_all)
  have v: "valid_ref ?i (Proc 3)" using sched_wfD(1) [OF sample_init(1)] by (simp add: cpu_ok_def)
  have e: "queued ?s = []" "current_proc ?s = None"
    using sample_init(2,3) queued_ok_frame [of ?s ?i] by (simp_all add: s current_proc_def)
  have gp: "get_proc ?s (Proc 3) = blank_process\<lparr>p_policy := pol\<rparr>" "get_proc ?s (Proc 5) = blank_process"
    using v by (simp_all add: s sample_init(4))
  let ?t = "sched_add (Some (Proc 3)) ?s"
  note f = first_process [OF wf e, of 3, unfolded gp, simplified, OF assms]
  note at = first_attrs [OF wf e, of 3, unfolded gp, simplified, OF assms]
  have p5: "p_policy (get_proc (snd (sched_yield ?t)) (Proc 5)) = SCHED_NORMAL"
    using at(2) [of "Proc 5"] by (simp add: gp attrs_def blank_process_def)
  note g = second_process [OF f, of 5, unfolded p5, simplified, folded sample_two_def]
  show "sched_wf (sample_two pol)" "queued (sample_two pol) = [Proc 5]" "current_proc (sample_two pol) = Some (Proc 3)"
    using g by (simp_all add: sample_two_def)
  show "attrs (get_proc (sample_two pol) (Proc 3)) = (pol, 0, if pol = SCHED_NORMAL then 5 else 0)"
    using g(4) at(1) by (simp add: blank_process_def clamp_level_def queue_time_slices_def sample_two_def)
qed

text \<open>
  C20: a real-time process of policy \<open>SCHED_FIFO\<close> that yields is lost: it is in no queue, no CPU runs
  it, it is still marked as running, and no later tick or yield brings it back.
\<close>

theorem fifo_lost_on_yield:
  assumes "sched_wf s" "current_proc s = Some (Proc i)" "p_policy (get_proc s (Proc i)) = SCHED_FIFO"
  shows "p_state (get_proc (snd (sched_yield s)) (Proc i)) = PROC_RUNNING \<and>
    (\<forall>bs. current_proc (sched_run bs (snd (sched_yield s))) \<noteq> Some (Proc i) \<and>
       Proc i \<notin> set (queued (sched_run bs (snd (sched_yield s)))))"
proof -
  let ?s' = "snd (sched_yield s)"
  note w = sched_wfD [OF assms(1)] and y = sched_yield_keeps [OF assms(1)]
  have nq: "\<not> requeues s (Proc i)" using assms(3) by (simp add: requeues_def)
  then have "tracked s = add_mset (Proc i) (mset (queued s))" "dropped s = {#Proc i#}"
    using assms(2) by (simp_all add: tracked_def running_def dropped_def)
  with y(2) have "tracked ?s' = mset (queued s)" by simp
  then have "Proc i \<notin># tracked ?s'" using w(4) [OF assms(2)] by simp
  then have "Proc i \<notin># tracked (sched_run bs ?s')" for bs
    using sched_run_tracked [OF y(1), of bs] by (auto dest: mset_subset_eqD)
  then have lost: "\<forall>bs. current_proc (sched_run bs ?s') \<noteq> Some (Proc i) \<and> Proc i \<notin> set (queued (sched_run bs ?s'))"
    by (simp add: tracked_iff)
  obtain r s1 where n: "sched_next (current_cpu s) s = (Some r, s1)" "Proc i \<noteq> r" "cpu_ok s1" "queued_ok s1" "typed s1"
    "runnable_ref s1 r" "r \<notin> set (queued s1)" "get_proc s1 (Proc i) = get_proc s (Proc i)" "current_cpu s1 = current_cpu s"
    "Proc i \<notin> set (queued s1)"
  proof -
    obtain p s1 where p: "sched_next (current_cpu s) s = (p, s1)" by (cases "sched_next (current_cpu s) s")
    show thesis by (rule sched_next_keeps [OF w(1-3) p]) (use that p w(4) [OF assms(2)] in auto)
  qed
  have run: "runnable_ref s1 (Proc i) \<and> Proc i \<notin> set (queued s1) \<and> p_state (get_proc s1 (Proc i)) = PROC_RUNNING"
    using w(4) [OF assms(2)] n(8-10) by (auto simp: runnable_ref_def)
  have "sched_yield s = context_switch (Some (Proc i)) (Some r) s1"
    using n(1) assms(2) by (simp add: sched_yield_def current_proc_def)
  then have "p_state (get_proc ?s' (Proc i)) = PROC_RUNNING"
    using context_switch_keeps(5) [OF n(3-5), of "Some (Proc i)" r "Proc i"] run n(2,6,7,8) nq by (simp add: requeues_def)
  with lost show ?thesis by blast
qed

theorem fifo_lost_on_yield_witness:
  "sched_wf (sample_two SCHED_FIFO) \<and> current_proc (sample_two SCHED_FIFO) = Some (Proc 3) \<and>
     current_proc (sched_run [True, False, True] (snd (sched_yield (sample_two SCHED_FIFO)))) \<noteq> Some (Proc 3)"
proof -
  have "p_policy (get_proc (sample_two SCHED_FIFO) (Proc 3)) = SCHED_FIFO"
    using sample_two_facts(4) [of SCHED_FIFO] by (simp add: attrs_def)
  with fifo_lost_on_yield [of "sample_two SCHED_FIFO" 3] sample_two_facts [of SCHED_FIFO] show ?thesis
    by (simp del: sched_run.simps)
qed

text \<open>
  C21: the idle process is never preempted by the timer, whoever waits: the tick tests the policy,
  which is \<open>SCHED_IDLE\<close>, so a process that becomes ready while the CPU idles waits until something
  other than the timer calls the scheduler.
\<close>

theorem idle_never_preempted:
  assumes "sched_wf s" "current_proc s = Some (Idle (current_cpu s))"
  shows "current_proc (sched_run (replicate n True) s) = Some (Idle (current_cpu s)) \<and>
    mset (queued (sched_run (replicate n True) s)) = mset (queued s)"
  using assms
proof (induction n arbitrary: s)
  case (Suc n)
  let ?r = "Idle (current_cpu s)" and ?s' = "snd (sched_tick s)"
  have w: "sched_wf ?s'" "tracked ?s' = tracked s" using sched_tick_keeps [OF Suc.prems(1)] by simp_all
  note t = ticked_facts [OF Suc.prems]
  have "p_policy (get_proc s ?r) = SCHED_IDLE" using sched_wfD(1) [OF Suc.prems(1)] by (simp add: cpu_ok_def)
  then have s': "?s' = sched_aging (ticked ?r s)" by (simp add: sched_tick_Some [OF Suc.prems(2)] t(7))
  have c: "current_proc ?s' = Some ?r" "current_cpu ?s' = current_cpu s"
    unfolding s' using sched_aging_keeps [OF t(1)] boostedD(7) [OF sched_aging_boosted [OF t(1)]] t(3,4) by simp_all
  have "mset (queued ?s') = mset (queued s)"
    using w(2) c(1) Suc.prems(2) by (simp add: tracked_def running_def)
  with Suc.IH [OF w(1)] c show ?case by simp
qed simp

theorem idle_never_preempted_witness:
  "\<exists>s :: sched_state. sched_wf s \<and> current_proc s = Some (Idle (current_cpu s)) \<and> queued s = [Proc 5] \<and>
     current_proc (sched_run (replicate 1000 True) s) = Some (Idle (current_cpu s))"
proof -
  let ?i = "scheduler_init sample_sched"
  let ?s = "snd (sched_yield ?i)"
  let ?t = "sched_add (Some (Proc 5)) ?s"
  note w = sched_wfD [OF sample_init(1)] and y = sched_yield_keeps [OF sample_init(1)]
  have c: "current_proc ?s = Some (Idle (current_cpu ?i))" using y(4) sample_init(2) by simp
  have "tracked ?s = {#}"
    using y(2) sample_init(2,3) by (simp add: tracked_def running_def dropped_def)
  then have q: "queued ?s = []" by (simp add: tracked_def)
  have "sched_next (current_cpu ?i) ?i = (Some (Idle (current_cpu ?i)), ?i)"
    using sched_next_idle [OF w(2) sample_init(2)] w(1) by (simp add: cpu_ok_def)
  from yield_first_attrs [OF sample_init(1,3) this, of "Proc 5"]
  have "p_policy (get_proc ?s (Proc 5)) = SCHED_NORMAL"
    by (simp add: attrs_def sample_init(4) blank_process_def)
  with second_process [OF y(1) q c, of 5] y(3)
  have t: "sched_wf ?t" "queued ?t = [Proc 5]" "current_proc ?t = Some (Idle (current_cpu ?t))" by simp_all
  with idle_never_preempted [OF t(1,3), of 1000] show ?thesis by blast
qed

text \<open>The queues as lists, and the two operations on them.\<close>

definition sched_view :: "'z sched_state_scheme \<Rightarrow> proc_ref list \<times> proc_ref list list" where
  "sched_view s = (rt_view (rt_queue s), map (level_view s) [0..<NUM_QUEUE_LEVELS])"

fun take_first :: "'a list list \<Rightarrow> ('a \<times> nat \<times> 'a list list) option" where
  "take_first [] = None"
| "take_first ((r # rs) # ls) = Some (r, 0, rs # ls)"
| "take_first ([] # ls) = map_option (\<lambda>(r, l, ls). (r, Suc l, [] # ls)) (take_first ls)"

definition spec_next :: "'a list \<times> 'a list list \<Rightarrow> ('a \<times> nat option \<times> 'a list \<times> 'a list list) option" where
  "spec_next v =
     (case fst v of
        r # rs \<Rightarrow> Some (r, None, rs, snd v)
      | [] \<Rightarrow> map_option (\<lambda>(r, l, ls). (r, Some l, [], ls)) (take_first (snd v)))"

definition spec_add :: "('a \<Rightarrow> int) \<Rightarrow> sched_policy_t \<Rightarrow> nat \<Rightarrow> 'a \<Rightarrow> 'a list \<times> 'a list list \<Rightarrow> 'a list \<times> 'a list list" where
  "spec_add prio pol l r v =
     (if pol = SCHED_NORMAL then (fst v, (snd v)[l := snd v ! l @ [r]])
      else (insert_stable prio r (fst v), snd v))"

lemma take_first_Some:
  "l < length ls \<Longrightarrow> ls ! l = r # rs \<Longrightarrow> \<forall>j < l. ls ! j = [] \<Longrightarrow> take_first ls = Some (r, l, ls[l := rs])"
proof (induction ls arbitrary: l)
  case (Cons x ls)
  show ?case
  proof (cases l)
    case (Suc k)
    have "x = []" using Cons.prems(3) Suc by auto
    moreover have "\<forall>j < k. ls ! j = []" using Cons.prems(3) Suc by auto
    ultimately show ?thesis using Cons.IH [of k] Cons.prems Suc by simp
  qed (use Cons.prems in simp)
qed simp

lemma take_first_None: "\<forall>l \<in> set ls. l = [] \<Longrightarrow> take_first ls = None"
  by (induction ls) auto

lemma sched_view_upd:
  "l < NUM_QUEUE_LEVELS \<Longrightarrow> map ((level_view s)(l := rs)) [0..<NUM_QUEUE_LEVELS] = (map (level_view s) [0..<NUM_QUEUE_LEVELS])[l := rs]"
  by (rule nth_equalityI) (auto simp: nth_list_update)

lemma sched_next_view:
  assumes "queued_ok s" "cpu_ok s" "sched_next c s = (p, s')"
  shows "case spec_next (sched_view s) of
      None \<Rightarrow> p = cpu_idle (cpu_data s ! c) \<and> s' = s
    | Some (r, l, v) \<Rightarrow> p = Some r \<and> sched_view s' = v \<and> (\<forall>k. l = Some k \<longrightarrow> p_time_slice (get_proc s' r) = queue_time_slices ! k)"
proof -
  have wf: "queues_wf s" using assms(1) by (simp add: queued_ok_def)
  consider (rt) r rs where "rt_view (rt_queue s) = r # rs"
    | (lev) l where "rt_view (rt_queue s) = []" "l < NUM_QUEUE_LEVELS" "level_view s l \<noteq> []" "\<forall>j < l. level_view s j = []"
    | (none) "queued s = []"
  proof (cases "rt_view (rt_queue s)")
    case Nil
    show ?thesis
    proof (cases "\<exists>l < NUM_QUEUE_LEVELS. level_view s l \<noteq> []")
      case True
      then obtain l where "l < NUM_QUEUE_LEVELS \<and> level_view s l \<noteq> []"
        "\<forall>j < l. \<not> (j < NUM_QUEUE_LEVELS \<and> level_view s j \<noteq> [])"
        using exists_least_iff [of "\<lambda>l. l < NUM_QUEUE_LEVELS \<and> level_view s l \<noteq> []"] by blast
      then show ?thesis using lev [of l] Nil by (meson less_trans)
    qed (use none queued_Nil_iff [OF wf] Nil in blast)
  qed (use rt in blast)
  then show ?thesis
  proof cases
    case rt
    note n = sched_next_rt [OF assms(1) rt]
    with n(1) [of c] rt assms(3) show ?thesis by (auto simp: spec_next_def sched_view_def)
  next
    case (lev l)
    then obtain r rs where r: "level_view s l = r # rs" by (cases "level_view s l") auto
    note n = sched_next_level [OF assms(1) lev(1,2) r lev(4)]
    have tf: "take_first (map (level_view s) [0..<NUM_QUEUE_LEVELS]) = Some (r, l, (map (level_view s) [0..<NUM_QUEUE_LEVELS])[l := rs])"
      by (rule take_first_Some) (use lev r in auto)
    have "r \<in> set (queued s)" using set_queued [OF wf] lev(2) r by fastforce
    then have "valid_ref s r" using assms(1,2) by (auto simp: queued_ok_def cpu_ok_def)
    then have "p_time_slice (get_proc s' r) = queue_time_slices ! l"
      using n(1) [of c] assms(3) by auto
    moreover have "rt_queue s' = rt_queue s" using n(1) [of c] assms(3) by auto
    ultimately show ?thesis
      using n tf lev(1) assms(3) sched_view_upd [OF lev(2), of s rs] by (simp add: spec_next_def sched_view_def)
  next
    case none
    then have "rt_view (rt_queue s) = []" "take_first (map (level_view s) [0..<NUM_QUEUE_LEVELS]) = None"
      using queued_Nil_iff [OF wf] by (auto intro: take_first_None)
    with sched_next_idle [OF assms(1) none, of c] assms(3) show ?thesis by (simp add: spec_next_def sched_view_def)
  qed
qed

lemma sched_add_view:
  assumes "sched_wf s" "i < MAX_PROCESSES" "Proc i \<notin> set (queued s)" "p_policy (get_proc s (Proc i)) \<noteq> SCHED_IDLE"
  shows "sched_view (sched_add (Some (Proc i)) s) =
    spec_add (prio_in s) (p_policy (get_proc s (Proc i))) (clamp_level (p_queue_level (get_proc s (Proc i)))) (Proc i) (sched_view s)"
proof -
  note w = sched_wfD [OF assms(1)]
  have len: "length (proc_table s) = MAX_PROCESSES" using w(1) by (simp add: cpu_ok_def)
  note a = sched_add_queued [OF w(2) assms(2,3) len assms(4)]
  show ?thesis
  proof (cases "p_policy (get_proc s (Proc i)) = SCHED_NORMAL")
    case True
    have "clamp_level (p_queue_level (get_proc s (Proc i))) < NUM_QUEUE_LEVELS" by (rule clamp_level_less)
    with a(7) [OF True] True sched_view_upd [OF this] show ?thesis by (simp add: spec_add_def sched_view_def)
  next
    case False
    with a(8) [OF False] show ?thesis by (simp add: spec_add_def sched_view_def)
  qed
qed

text \<open>
  C13: \<open>sched_add\<close> and \<open>sched_next\<close> implement the scheduling discipline over plain lists. Adding puts a
  normal process at the end of its level and a real-time process into the real-time list by
  priority; the next process is the first real-time one, else the first of the lowest non-empty
  level, which gets that level's time slice, else the idle process, and nothing else moves.
\<close>

theorem sched_refines_lists:
  assumes "sched_wf s"
  shows "(\<forall>i < MAX_PROCESSES. Proc i \<notin> set (queued s) \<longrightarrow> p_policy (get_proc s (Proc i)) \<noteq> SCHED_IDLE \<longrightarrow>
      sched_view (sched_add (Some (Proc i)) s) =
        spec_add (prio_in s) (p_policy (get_proc s (Proc i))) (clamp_level (p_queue_level (get_proc s (Proc i)))) (Proc i) (sched_view s)) \<and>
    (\<forall>p s'. sched_next (current_cpu s) s = (p, s') \<longrightarrow>
      (case spec_next (sched_view s) of
         None \<Rightarrow> p = Some (Idle (current_cpu s)) \<and> s' = s
       | Some (r, l, v) \<Rightarrow> p = Some r \<and> sched_view s' = v \<and>
           (\<forall>k. l = Some k \<longrightarrow> p_time_slice (get_proc s' r) = queue_time_slices ! k)))"
proof (intro conjI allI impI sched_add_view [OF assms])
  note w = sched_wfD [OF assms]
  fix p s' assume "sched_next (current_cpu s) s = (p, s')"
  from sched_next_view [OF w(2,1) this] w(1) show "case spec_next (sched_view s) of
         None \<Rightarrow> p = Some (Idle (current_cpu s)) \<and> s' = s
       | Some (r, l, v) \<Rightarrow> p = Some r \<and> sched_view s' = v \<and>
           (\<forall>k. l = Some k \<longrightarrow> p_time_slice (get_proc s' r) = queue_time_slices ! k)"
    by (auto simp: cpu_ok_def split: option.splits)
qed

theorem sched_refines_lists_witness:
  "sched_wf sample_run \<and> fst (sched_next (current_cpu sample_run) sample_run) = Some (Idle (current_cpu sample_run))"
proof -
  have wf: "queues_wf sample_run" using sched_wfD(2) [OF sample_run_facts(1)] by (simp add: queued_ok_def)
  have "spec_next (sched_view sample_run) = None"
    using queued_Nil_iff [OF wf] sample_run_facts(2) by (auto simp: spec_next_def sched_view_def intro: take_first_None)
  moreover obtain p s' where n: "sched_next (current_cpu sample_run) sample_run = (p, s')"
    by (cases "sched_next (current_cpu sample_run) sample_run")
  ultimately show ?thesis using sched_refines_lists [OF sample_run_facts(1)] sample_run_facts(1) by auto
qed

lemma tick_keeps_running:
  assumes "sched_wf s" "current_proc s = Some (Proc i)" "attrs (get_proc s (Proc i)) = (SCHED_NORMAL, l, t)" "1 < t"
  defines "s' \<equiv> snd (sched_tick s)"
  shows "sched_wf s'" "current_proc s' = Some (Proc i)" "attrs (get_proc s' (Proc i)) = (SCHED_NORMAL, l, t - 1)"
    "mset (queued s') = mset (queued s)"
proof -
  note f = ticked_facts [OF assms(1,2)]
  have a: "p_policy (get_proc s (Proc i)) = SCHED_NORMAL" "p_queue_level (get_proc s (Proc i)) = l"
    "p_time_slice (get_proc s (Proc i)) = t" using assms(3) by (simp_all add: attrs_def)
  have at: "attrs (get_proc (ticked (Proc i) s) (Proc i)) = (SCHED_NORMAL, l, t - 1)"
    using f(6-8) a less_trans [OF _ assms(4), of 0] by (simp add: attrs_def dec_slice_def)
  have "t - 1 \<noteq> 0" using assms(4) by auto
  with at have s': "s' = sched_aging (ticked (Proc i) s)"
    by (simp add: s'_def sched_tick_Some [OF assms(2)] attrs_def)
  note b = sched_aging_keeps [OF f(1), folded s'] and d = boostedD [OF sched_aging_boosted [OF f(1)], folded s']
  show "sched_wf s'" "current_proc s' = Some (Proc i)" using b f(3) by simp_all
  have "Proc i \<notin> set (queued (ticked (Proc i) s))" using sched_wfD(4) [OF assms(1,2)] f(2) by simp
  with d(10) [of "Proc i"] at show "attrs (get_proc s' (Proc i)) = (SCHED_NORMAL, l, t - 1)" by auto
  show "mset (queued s') = mset (queued s)" using d(4) f(2) by simp
qed

lemma run_keeps_running:
  assumes "sched_wf s" "current_proc s = Some (Proc i)" "attrs (get_proc s (Proc i)) = (SCHED_NORMAL, l, t)" "k < unat t"
  defines "s' \<equiv> sched_run (replicate k True) s"
  shows "sched_wf s' \<and> current_proc s' = Some (Proc i) \<and>
    attrs (get_proc s' (Proc i)) = (SCHED_NORMAL, l, t - of_nat k) \<and> mset (queued s') = mset (queued s)"
  using assms(1-4) unfolding s'_def
proof (induction k arbitrary: s t)
  case (Suc k)
  have "1 < t" using Suc.prems(4) by (simp add: word_less_nat_alt)
  note t = tick_keeps_running [OF Suc.prems(1-3) this]
  have "k < unat (t - 1)" using Suc.prems(4) \<open>1 < t\<close> by (subst word_dec_unat) (auto simp: word_less_nat_alt)
  from Suc.IH [OF t(1-3) this] t(4) show ?case by (simp add: algebra_simps)
qed simp

lemma sched_run_append: "sched_run (xs @ ys) s = sched_run ys (sched_run xs s)"
  by (induction xs arbitrary: s) simp_all

text \<open>The tick on which the slice runs out.\<close>

lemma tick_expires:
  assumes "sched_wf s" "current_proc s = Some (Proc i)" "attrs (get_proc s (Proc i)) = (SCHED_NORMAL, l, 1)"
    and "0 \<le> l" "l < 3" "queued s \<noteq> []"
  defines "s' \<equiv> snd (sched_tick s)"
  shows "(\<exists>r \<in> set (queued s). current_proc s' = Some r) \<and> p_state (get_proc s' (Proc i)) = PROC_RUNNABLE \<and>
    p_queue_level (get_proc s' (Proc i)) = l + 1 \<and>
    level_view s' (nat (l + 1)) \<noteq> [] \<and> last (level_view s' (nat (l + 1))) = Proc i"
proof -
  let ?t = "ticked (Proc i) s"
  note f = ticked_facts [OF assms(1,2)] and w = sched_wfD [OF assms(1)]
  note tw = sched_wfD [OF f(1)]
  have a: "p_policy (get_proc ?t (Proc i)) = SCHED_NORMAL" "p_queue_level (get_proc ?t (Proc i)) = l"
    "p_time_slice (get_proc ?t (Proc i)) = 0" using assms(3) f(6-8) by (simp_all add: attrs_def dec_slice_def)
  obtain p s1 where n: "sched_next (current_cpu ?t) ?t = (p, s1)" by (cases "sched_next (current_cpu ?t) ?t")
  obtain r where r: "p = Some r" "r \<in> set (queued s)"
    using sched_next_keeps [OF tw(1-3) n] assms(6) f(2) by metis
  have "Proc i \<noteq> r" using r(2) w(4) [OF assms(2)] by auto
  note y = sched_yield_attrs [OF f(1,3) n [unfolded r(1)] this]
  have s': "s' = snd (sched_yield ?t)"
    using y(1) a by (simp add: s'_def sched_tick_Some [OF assms(2)] case_prod_beta Let_def)
  have "clamp_level (l + 1) = nat (l + 1)" using assms(4,5) by (simp add: clamp_level_def Let_def)
  moreover have "requeues ?t (Proc i)" using a by (simp add: requeues_def)
  ultimately have "p_state (get_proc s' (Proc i)) = PROC_RUNNABLE"
    "level_view s' = (level_view s1)(nat (l + 1) := level_view s1 (nat (l + 1)) @ [Proc i])"
    using y(5) a assms(5) by (simp_all add: s')
  moreover have "p_queue_level (get_proc s' (Proc i)) = l + 1"
    using y(3) a assms(5) by (simp add: s' attrs_def)
  ultimately show ?thesis using y(2) r(2) by (auto simp: s')
qed

text \<open>
  C16: a normal process runs for exactly as many timer ticks as its time slice says: as long as
  ticks remain the timer does not preempt it, and on the last one another waiting process runs,
  while it goes to the end of the next lower level.
\<close>

theorem slice_exact_then_demoted:
  assumes "sched_wf s" "current_proc s = Some (Proc i)" "p_policy (get_proc s (Proc i)) = SCHED_NORMAL"
    and "0 \<le> p_queue_level (get_proc s (Proc i))" "p_queue_level (get_proc s (Proc i)) < 3" "queued s \<noteq> []"
    and "p_time_slice (get_proc s (Proc i)) = t" "0 < t"
  shows "(\<forall>k < unat t. current_proc (sched_run (replicate k True) s) = Some (Proc i)) \<and>
    (let s' = sched_run (replicate (unat t) True) s; l = p_queue_level (get_proc s (Proc i)) + 1 in
      (\<exists>r \<in> set (queued s). current_proc s' = Some r) \<and> p_state (get_proc s' (Proc i)) = PROC_RUNNABLE \<and>
      p_queue_level (get_proc s' (Proc i)) = l \<and> level_view s' (nat l) \<noteq> [] \<and> last (level_view s' (nat l)) = Proc i)"
proof -
  have a: "attrs (get_proc s (Proc i)) = (SCHED_NORMAL, p_queue_level (get_proc s (Proc i)), t)"
    using assms(3,7) by (simp add: attrs_def)
  note run = run_keeps_running [OF assms(1,2) a]
  obtain n where n: "unat t = Suc n" using assms(8) by (cases "unat t") (auto simp: unat_eq_0)
  let ?u = "sched_run (replicate n True) s"
  have "t - of_nat n = 1"
    using arg_cong [OF n, of "of_nat :: nat \<Rightarrow> u64"] by (simp add: algebra_simps)
  then have u: "sched_wf ?u" "current_proc ?u = Some (Proc i)" "mset (queued ?u) = mset (queued s)"
    "attrs (get_proc ?u (Proc i)) = (SCHED_NORMAL, p_queue_level (get_proc s (Proc i)), 1)"
    using run [of n] n by simp_all
  have q: "queued ?u \<noteq> []" "set (queued ?u) = set (queued s)"
    using u(3) assms(6) by (auto dest: mset_eq_setD)
  have s': "sched_run (replicate (unat t) True) s = snd (sched_tick ?u)"
    using sched_run_append [of "replicate n True" "[True]" s] by (simp add: n replicate_append_same)
  show ?thesis
    using run tick_expires [OF u(1,2,4) assms(4,5) q(1)] unfolding s' Let_def q(2) by blast
qed

theorem slice_exact_then_demoted_witness:
  "let s' = sched_run (replicate 5 True) (sample_two SCHED_NORMAL) in
     current_proc s' = Some (Proc 5) \<and> p_queue_level (get_proc s' (Proc 3)) = 1"
proof -
  note f = sample_two_facts [of SCHED_NORMAL, simplified]
  have "p_policy (get_proc (sample_two SCHED_NORMAL) (Proc 3)) = SCHED_NORMAL"
    "p_queue_level (get_proc (sample_two SCHED_NORMAL) (Proc 3)) = 0"
    "p_time_slice (get_proc (sample_two SCHED_NORMAL) (Proc 3)) = 5" using f(4) by (simp_all add: attrs_def)
  with slice_exact_then_demoted [OF f(1,3), of 5] f(2) show ?thesis by (auto simp: Let_def simp del: sched_run.simps)
qed

lemma sched_wf_global_ticks: "sched_wf (s\<lparr>global_ticks := n\<rparr>) = sched_wf s"
  by (rule sched_frame) simp_all

text \<open>
  C17: the boost within \<open>sched_tick\<close>. With no current process a tick changes no queue and no process. A tick that
  uses up the slice of a normal or round-robin process switches to another process and boosts nobody: no
  process changes but the preempted and the chosen one. On any other tick the boost is made if the new tick
  count is a multiple of 100: all processes waiting in the lower levels move, level by level and in their
  order, behind those of the highest level, with that level's number and time slice; otherwise the levels
  are left alone. The running process keeps its level, and the real-time queue and all other processes
  are unchanged.
\<close>

theorem tick_boosts_waiting:
  assumes "sched_wf s"
  shows "let (left, s') = sched_tick s; waiting = level_view s 1 @ level_view s 2 @ level_view s 3 in
    case current_proc s of
      None \<Rightarrow> \<not> left \<and> level_view s' = level_view s \<and> rt_queue s' = rt_queue s \<and> (\<forall>x. get_proc s' x = get_proc s x)
    | Some r \<Rightarrow>
        if p_time_slice (get_proc s r) \<le> 1 \<and> p_policy (get_proc s r) \<in> {SCHED_NORMAL, SCHED_RR}
        then left \<and> current_proc s' \<noteq> Some r \<and> (\<forall>x. x \<noteq> r \<longrightarrow> current_proc s' \<noteq> Some x \<longrightarrow> get_proc s' x = get_proc s x)
        else \<not> left \<and> current_proc s' = Some r \<and> rt_queue s' = rt_queue s \<and>
          p_queue_level (get_proc s' r) = p_queue_level (get_proc s r) \<and>
          (\<forall>x. x \<notin> set waiting \<longrightarrow> x \<noteq> r \<longrightarrow> get_proc s' x = get_proc s x) \<and>
          (if (get_ticks s + 1) mod 100 = 0
           then level_view s' 0 = level_view s 0 @ waiting \<and>
             (\<forall>l. 0 < l \<longrightarrow> l < NUM_QUEUE_LEVELS \<longrightarrow> level_view s' l = []) \<and>
             (\<forall>x \<in> set waiting. get_proc s' x = (get_proc s x)\<lparr>p_queue_level := 0, p_time_slice := queue_time_slices ! 0\<rparr>)
           else level_view s' = level_view s \<and> (\<forall>x \<in> set waiting. get_proc s' x = get_proc s x))"
proof (cases "current_proc s")
  case None
  let ?u = "upd_cpu (\<lambda>c. c\<lparr>cpu_ticks := cpu_ticks c + 1\<rparr>) (current_cpu s) (tick_increment s)"
  have t: "sched_tick s = (False, ?u)" using None by (simp add: sched_tick_def current_proc_def)
  have "level_view ?u = level_view s" by (simp add: level_view_def fun_eq_iff)
  then show ?thesis unfolding t using None by (simp add: Let_def)
next
  case (Some r)
  let ?t = "ticked r s" and ?w = "level_view s 1 @ level_view s 2 @ level_view s 3"
  note t = ticked_facts [OF assms Some] and w = sched_wfD [OF assms]
  have sl: "p_time_slice (get_proc ?t r) = 0 \<longleftrightarrow> p_time_slice (get_proc s r) \<le> 1"
    unfolding t(6) dec_slice_def by unat_arith
  have rw: "r \<notin> set ?w"
  proof -
    have "set ?w \<subseteq> set (queued s)" using set_queued [of s] w(2) unfolding queued_ok_def by auto
    then show ?thesis using w(4) [OF Some] by blast
  qed
  show ?thesis
  proof (cases "p_time_slice (get_proc s r) \<le> 1 \<and> p_policy (get_proc s r) \<in> {SCHED_NORMAL, SCHED_RR}")
    case True
    note y = sched_yield_keeps [OF t(1)]
    have "r \<noteq> Idle (current_cpu ?t)" using True w(1) t(4) by (auto simp: cpu_ok_def)
    moreover have "r \<notin> set (queued ?t)" using w(4) [OF Some] by (simp add: t(2))
    ultimately have cur: "current_proc (snd (sched_yield ?t)) \<noteq> Some r" using y(4,5) by (cases "queued ?t = []") auto
    then have "fst (sched_yield ?t)" using y(6) t(3) by simp
    then have st: "sched_tick s = (True, snd (sched_yield ?t))"
      using True sl t(7) by (auto simp: sched_tick_Some [OF Some] case_prod_beta)
    have "get_proc (snd (sched_yield ?t)) x = get_proc s x" if "x \<noteq> r" "current_proc (snd (sched_yield ?t)) \<noteq> Some x" for x
      using y(7) [of x] t(3) t(9) [OF that(1)] that by simp
    then show ?thesis using True cur by (simp add: st Some Let_def)
  next
    case False
    then have st: "sched_tick s = (False, sched_aging ?t)" using sl t(7) by (auto simp: sched_tick_Some [OF Some])
    show ?thesis
    proof (cases "(get_ticks s + 1) mod 100 = 0")
      case True
      then have s': "sched_aging ?t = age_levels (NUM_QUEUE_LEVELS - 1) 1 ?t" using t(5) by (simp add: sched_aging_def get_ticks_def)
      note a = age_levels_all [OF sched_wfD(1-3) [OF t(1)], folded s', unfolded t(10)]
      note d = boostedD [OF a(1)]
      have cp: "current_proc (sched_aging ?t) = Some r" using d(6,7) t(3) by (simp add: current_proc_def)
      have "get_proc (sched_aging ?t) x = (get_proc s x)\<lparr>p_queue_level := 0, p_time_slice := queue_time_slices ! 0\<rparr>" if x: "x \<in> set ?w" for x
      proof -
        have "get_proc ?t x = get_proc s x" using x rw by (intro t(9)) auto
        then show ?thesis using a(4) [OF x] d(10) [of x] by (cases "get_proc s x") (auto simp: queue_time_slices_def)
      qed
      moreover have "get_proc (sched_aging ?t) x = get_proc s x" if "x \<notin> set ?w" "x \<noteq> r" for x
        using a(5) [OF that(1)] t(9) [OF that(2)] by simp
      moreover have "p_queue_level (get_proc (sched_aging ?t) r) = p_queue_level (get_proc s r)" using a(5) [OF rw] t(8) by simp
      ultimately show ?thesis unfolding st Some Let_def prod.case option.case if_not_P [OF False] if_P [OF True]
        using a(2,3) cp d(5) t(11) by simp
    next
      case no: False
      then have "sched_aging ?t = ?t" using t(5) by (simp add: sched_aging_def get_ticks_def)
      moreover have "get_proc ?t x = get_proc s x" if "x \<in> set ?w" for x using that rw by (intro t(9)) auto
      ultimately show ?thesis unfolding st Some Let_def prod.case option.case if_not_P [OF False] if_not_P [OF no]
        using t(3,8-11) by simp
    qed
  qed
qed

theorem tick_boosts_waiting_witness:
  "let s = (sample_two SCHED_NORMAL)\<lparr>global_ticks := 299\<rparr> in sched_wf s \<and> \<not> fst (sched_tick s) \<and>
     level_view (snd (sched_tick s)) 0 = level_view s 0 @ level_view s 1 @ level_view s 2 @ level_view s 3"
proof -
  let ?s = "(sample_two SCHED_NORMAL)\<lparr>global_ticks := 299\<rparr>"
  have wf: "sched_wf ?s" using sample_two_facts(1) [of SCHED_NORMAL] by (simp add: sched_wf_global_ticks)
  have c: "current_proc ?s = Some (Proc 3)" using sample_two_facts(3) [of SCHED_NORMAL] by (simp add: current_proc_def)
  have "p_time_slice (get_proc ?s (Proc 3)) = 5" using sample_two_facts(4) [of SCHED_NORMAL] by (simp add: attrs_def get_proc.simps)
  then have n: "\<not> (p_time_slice (get_proc ?s (Proc 3)) \<le> 1 \<and> p_policy (get_proc ?s (Proc 3)) \<in> {SCHED_NORMAL, SCHED_RR})" by (simp add: word_le_nat_alt)
  have d: "(get_ticks ?s + 1) mod 100 = 0" by (simp add: get_ticks_def)
  show ?thesis
    using tick_boosts_waiting [OF wf] wf unfolding c option.case if_not_P [OF n] if_P [OF d] Let_def case_prod_beta by blast
qed

text \<open>
  \<open>sched_set_priority\<close> clamps any priority to 0 up to 139. A result below 100 makes the process
  a round-robin real-time process; one of at least 100 chooses one of the four levels, ten
  priorities each, and leaves the policy as it was, so a real-time process that is given a normal
  priority stays real-time.
\<close>

theorem set_priority_clamps:
  assumes "valid_ref s r"
  shows "let s' = sched_set_priority (Some r) p s; q = get_proc s' r in
    p_priority q = max 0 (min 139 p) \<and> p_dynamic_priority q = p_priority q \<and>
    (if p < 100 then p_policy q = SCHED_RR \<and> p_queue_level q = p_queue_level (get_proc s r)
     else p_policy q = p_policy (get_proc s r) \<and> p_queue_level q = (p_priority q - 100) div 10 \<and>
       0 \<le> p_queue_level q \<and> p_queue_level q < int NUM_QUEUE_LEVELS) \<and>
    (\<forall>x. x \<noteq> r \<longrightarrow> get_proc s' x = get_proc s x)"
proof -
  have "p < 100 \<longleftrightarrow> clamp_prio p \<le> 99" "clamp_prio p \<le> 139" by (auto simp: clamp_prio_def)
  moreover from this have "p \<ge> 100 \<Longrightarrow> 0 \<le> (clamp_prio p - 100) div 10 \<and> (clamp_prio p - 100) div 10 < 4" by presburger
  ultimately show ?thesis
    using assms unfolding sched_set_priority_eq [OF assms] Let_def
    by (auto simp: set_prio_def clamp_prio_def)
qed

theorem set_priority_clamps_witness:
  "valid_ref sample_sched (Proc 2) \<and>
     p_queue_level (get_proc (sched_set_priority (Some (Proc 2)) 500 sample_sched) (Proc 2)) = 3"
  using set_priority_clamps [of sample_sched "Proc 2" 500] by (simp add: sample_sched_fields Let_def)

section \<open>The main loop\<close>

lemma sched_wf_kprintf [simp]: "sched_wf (kprintf f as s) = sched_wf s" "queued (kprintf f as s) = queued s"
    "current_proc (kprintf f as s) = current_proc s"
  by (rule sched_frame; simp)+

text \<open>One turn is enough: with the invariant there is always a process to run, if only the idle one.\<close>

lemma scheduler_first_turn:
  assumes "sched_wf s" "current_proc s = None"
  shows "scheduler (Suc n) s = (True, snd (sched_yield (kprintf ''[SCHED] Starting scheduler\<newline>'' [] s)))"
proof -
  let ?s = "kprintf ''[SCHED] Starting scheduler\<newline>'' [] s"
  have w: "sched_wf ?s" "current_proc ?s = None" using assms by simp_all
  obtain p s1 where n: "sched_next (current_cpu ?s) ?s = (p, s1)" by (cases "sched_next (current_cpu ?s) ?s")
  obtain r where "p = Some r" using sched_next_keeps [OF sched_wfD(1-3) [OF w(1)] n] by metis
  with n w(2) show ?thesis
    by (auto simp: scheduler_def scheduler_turn_def sched_yield_def current_proc_def context_switch_def)
qed

end
