(* ===== verification/Vfs.thy ===== *)
theory Vfs
  imports Sched_System
begin

text \<open>
  The virtual file system (\<open>kernel/fs/vfs.c\<close>, \<open>kernel/fs/vfs.h\<close>): the device registry, inodes and
  files on the kernel heap, and the dispatch to the operations of a driver.
\<close>

section \<open>State\<close>

definition VFS_FILE :: u32 where [simp]: "VFS_FILE = 1"
definition VFS_DEV :: u32 where [simp]: "VFS_DEV = 3"
definition MAX_DEVICES :: nat where [simp]: "MAX_DEVICES = 16"

record inode_t =
  i_ino :: u32
  i_type :: u32
  i_size :: u32
  i_ref :: u32
  i_ops :: addr
  i_private :: addr

record file_t =
  f_inode :: addr
  f_offset :: u32
  f_flags :: u32

record device_t =
  dev_name :: string
  dev_ops :: addr
  dev_used :: bool

text \<open>
  The structures \<open>file_t\<close> and \<open>inode_t\<close> live on the heap: the two functions give the structure at an
  address.
\<close>

record vfs_state = sched_state +
  devices :: "device_t list"
  next_ino :: u32
  file_at :: "addr \<Rightarrow> file_t"
  inode_at :: "addr \<Rightarrow> inode_t"

text \<open>
  A table of operations; a null function pointer is \<open>None\<close>. \<open>read\<close> returns its result and what it
  stores in the caller's buffer, \<open>write\<close> gets the caller's buffer; both are undefined, \<open>None\<close>, when
  they access the driver's memory outside its bounds.
\<close>

record 's file_ops_t =
  op_open :: "(addr \<Rightarrow> addr \<Rightarrow> 's \<Rightarrow> int \<times> 's) option"
  op_close :: "(addr \<Rightarrow> 's \<Rightarrow> int \<times> 's) option"
  op_read :: "(addr \<Rightarrow> u64 \<Rightarrow> 's \<Rightarrow> ((int \<times> string) \<times> 's) option) option"
  op_write :: "(addr \<Rightarrow> (nat \<Rightarrow> char) \<Rightarrow> u64 \<Rightarrow> 's \<Rightarrow> (int \<times> 's) option) option"
  op_seek :: "(addr \<Rightarrow> u32 \<Rightarrow> 's \<Rightarrow> int \<times> 's) option"

definition upd_file :: "(file_t \<Rightarrow> file_t) \<Rightarrow> addr \<Rightarrow> 'z vfs_state_scheme \<Rightarrow> 'z vfs_state_scheme" where
  "upd_file f p s = s\<lparr>file_at := (file_at s)(p := f (file_at s p))\<rparr>"

definition upd_inode :: "(inode_t \<Rightarrow> inode_t) \<Rightarrow> addr \<Rightarrow> 'z vfs_state_scheme \<Rightarrow> 'z vfs_state_scheme" where
  "upd_inode f p s = s\<lparr>inode_at := (inode_at s)(p := f (inode_at s p))\<rparr>"

section \<open>Operations\<close>

definition vfs_init :: "'z vfs_state_scheme \<Rightarrow> 'z vfs_state_scheme" where
  "vfs_init s =
     (let s = kprintf ''[VFS] Initializing Virtual File System\<newline>'' [] s;
          s = s\<lparr>devices := map (\<lambda>d. d\<lparr>dev_used := False\<rparr>) (devices s)\<rparr>
      in kprintf ''[VFS] VFS initialized\<newline>'' [] s)"

text \<open>\<open>sizeof(inode_t)\<close> is 32, \<open>sizeof(file_t)\<close> is 16.\<close>

definition vfs_create_inode :: "u32 \<Rightarrow> 'z vfs_state_scheme \<Rightarrow> addr \<times> 'z vfs_state_scheme" where
  "vfs_create_inode typ s =
     (let (inode, s) = kmalloc 32 s in
      if inode = NULL then (NULL, s)
      else (inode, upd_inode (\<lambda>i. i\<lparr>i_ino := next_ino s, i_type := typ, i_size := 0, i_ref := 1,
              i_ops := NULL, i_private := NULL\<rparr>) inode (s\<lparr>next_ino := next_ino s + 1\<rparr>)))"

definition vfs_destroy_inode :: "addr \<Rightarrow> 'z vfs_state_scheme \<Rightarrow> 'z vfs_state_scheme" where
  "vfs_destroy_inode inode s =
     (if inode = NULL then s
      else let s = upd_inode (\<lambda>i. i\<lparr>i_ref := i_ref i - 1\<rparr>) inode s in
           if i_ref (inode_at s inode) = 0 then kfree inode s else s)"

text \<open>The scan for a free slot, \<open>k\<close> to go at slot \<open>i\<close>.\<close>

fun register_loop :: "nat \<Rightarrow> nat \<Rightarrow> string \<Rightarrow> addr \<Rightarrow> 'z vfs_state_scheme \<Rightarrow> int \<times> 'z vfs_state_scheme" where
  "register_loop 0 i name ops s =
     (- 1, kprintf ''[VFS] Failed to register device: %s (no free slots)\<newline>'' [Str name] s)"
| "register_loop (Suc k) i name ops s =
     (if \<not> dev_used (devices s ! i)
      then (0, kprintf ''[VFS] Registered device: %s\<newline>'' [Str name]
                 (s\<lparr>devices := (devices s)[i := \<lparr>dev_name = copy_name 31 name, dev_ops = ops, dev_used = True\<rparr>]\<rparr>))
      else register_loop k (Suc i) name ops s)"

definition vfs_register_device :: "string \<Rightarrow> addr \<Rightarrow> 'z vfs_state_scheme \<Rightarrow> int \<times> 'z vfs_state_scheme" where
  "vfs_register_device name ops s = register_loop MAX_DEVICES 0 name ops s"

fun find_loop :: "nat \<Rightarrow> nat \<Rightarrow> string \<Rightarrow> 'z vfs_state_scheme \<Rightarrow> nat option" where
  "find_loop 0 i name s = None"
| "find_loop (Suc k) i name s =
     (if dev_used (devices s ! i) \<and> names_match 32 (dev_name (devices s ! i)) name then Some i
      else find_loop k (Suc i) name s)"

definition find_device :: "string \<Rightarrow> 'z vfs_state_scheme \<Rightarrow> nat option" where
  "find_device name s = find_loop MAX_DEVICES 0 name s"

text \<open>\<open>ops_at\<close> gives the table of operations at an address.\<close>

definition skip_slash :: "string \<Rightarrow> string" where
  "skip_slash path = (if front path = CHR ''/'' then tl path else path)"

definition vfs_open ::
  "(addr \<Rightarrow> 'z vfs_state_scheme file_ops_t) \<Rightarrow> string \<Rightarrow> u32 \<Rightarrow> 'z vfs_state_scheme \<Rightarrow> addr \<times> 'z vfs_state_scheme" where
  "vfs_open ops_at path flags s =
     (let path = skip_slash path in
      case find_device path s of
        None \<Rightarrow> (NULL, kprintf ''[VFS] File not found: %s\<newline>'' [Str path] s)
      | Some i \<Rightarrow>
          let ops = dev_ops (devices s ! i); (file, s) = kmalloc 16 s in
          if file = NULL then (NULL, s)
          else
            let (inode, s) = vfs_create_inode VFS_DEV s;
                s = upd_file (\<lambda>f. f\<lparr>f_inode := inode\<rparr>) file s
            in if inode = NULL then (NULL, kfree file s)
               else
                 let s = upd_inode (\<lambda>i. i\<lparr>i_ops := ops\<rparr>) inode s;
                     s = upd_file (\<lambda>f. f\<lparr>f_offset := 0, f_flags := flags\<rparr>) file s
                 in case op_open (ops_at ops) of
                      None \<Rightarrow> (file, s)
                    | Some open_op \<Rightarrow>
                        let (r, s) = open_op (f_inode (file_at s file)) file s in
                        if r \<noteq> 0 then (NULL, kfree file (vfs_destroy_inode (f_inode (file_at s file)) s))
                        else (file, s))"

definition file_ops :: "(addr \<Rightarrow> 'z vfs_state_scheme file_ops_t) \<Rightarrow> addr \<Rightarrow> 'z vfs_state_scheme \<Rightarrow> 'z vfs_state_scheme file_ops_t option" where
  "file_ops ops_at file s =
     (let p = i_ops (inode_at s (f_inode (file_at s file))) in if p = NULL then None else Some (ops_at p))"

definition vfs_close ::
  "(addr \<Rightarrow> 'z vfs_state_scheme file_ops_t) \<Rightarrow> addr \<Rightarrow> 'z vfs_state_scheme \<Rightarrow> int \<times> 'z vfs_state_scheme" where
  "vfs_close ops_at file s =
     (if file = NULL then (- 1, s)
      else
        let s = (case Option.bind (file_ops ops_at file s) op_close of
                   None \<Rightarrow> s | Some close_op \<Rightarrow> snd (close_op file s));
            s = vfs_destroy_inode (f_inode (file_at s file)) s
        in (0, kfree file s))"

definition vfs_read ::
  "(addr \<Rightarrow> 'z vfs_state_scheme file_ops_t) \<Rightarrow> addr \<Rightarrow> u64 \<Rightarrow> 'z vfs_state_scheme \<Rightarrow>
     ((int \<times> string) \<times> 'z vfs_state_scheme) option" where
  "vfs_read ops_at file cnt s =
     (if file = NULL then Some ((- 1, []), s)
      else case Option.bind (file_ops ops_at file s) op_read of
             None \<Rightarrow> Some ((- 1, []), s)
           | Some read_op \<Rightarrow> read_op file cnt s)"

definition vfs_write ::
  "(addr \<Rightarrow> 'z vfs_state_scheme file_ops_t) \<Rightarrow> addr \<Rightarrow> (nat \<Rightarrow> char) \<Rightarrow> u64 \<Rightarrow> 'z vfs_state_scheme \<Rightarrow>
     (int \<times> 'z vfs_state_scheme) option" where
  "vfs_write ops_at file buf cnt s =
     (if file = NULL then Some (- 1, s)
      else case Option.bind (file_ops ops_at file s) op_write of
             None \<Rightarrow> Some (- 1, s)
           | Some write_op \<Rightarrow> write_op file buf cnt s)"

definition vfs_mount :: "string \<Rightarrow> string \<Rightarrow> 'z vfs_state_scheme \<Rightarrow> int \<times> 'z vfs_state_scheme" where
  "vfs_mount path fs_type s =
     (0, kprintf ''[VFS] Mount %s at %s (not implemented)\<newline>'' [Str fs_type, Str path] s)"

section \<open>The registry\<close>

definition dev_wf :: "'z vfs_state_scheme \<Rightarrow> bool" where
  "dev_wf s \<longleftrightarrow> length (devices s) = MAX_DEVICES \<and>
     list_all (\<lambda>d. c_string (dev_name d) \<and> length (dev_name d) \<le> 31) (devices s)"

text \<open>The names of the devices in use, by slot.\<close>

definition registered :: "'z vfs_state_scheme \<Rightarrow> nat \<Rightarrow> string option" where
  "registered s i = (if dev_used (devices s ! i) then Some (dev_name (devices s ! i)) else None)"

lemma find_loop_first:
  "find_loop k i name s = first_index (\<lambda>i. dev_used (devices s ! i) \<and> names_match 32 (dev_name (devices s ! i)) name) k i"
  by (induction k i name s rule: find_loop.induct) simp_all

lemma match_registered:
  assumes "dev_wf s" "c_string name" "i < MAX_DEVICES"
  shows "dev_used (devices s ! i) \<and> names_match 32 (dev_name (devices s ! i)) name \<longleftrightarrow> registered s i = Some name"
proof -
  have "devices s ! i \<in> set (devices s)" using assms(1,3) by (simp add: dev_wf_def)
  then have "names_match 32 (dev_name (devices s ! i)) name \<longleftrightarrow> dev_name (devices s ! i) = name"
    using assms(1,2) by (intro names_match_iff) (auto simp: dev_wf_def list_all_iff)
  then show ?thesis by (simp add: registered_def)
qed

lemma find_device_iff:
  assumes "dev_wf s" "c_string name"
  shows "find_device name s = None \<longleftrightarrow> (\<forall>j < MAX_DEVICES. registered s j \<noteq> Some name)"
    "find_device name s = Some j \<longleftrightarrow> j < MAX_DEVICES \<and> registered s j = Some name \<and> (\<forall>l < j. registered s l \<noteq> Some name)"
  unfolding find_device_def find_loop_first first_index_iff
  using match_registered [OF assms] by (meson less_trans)+

lemma register_loop_cases:
  assumes "register_loop k i name ops s = (r, s')"
  obtains (full) "r = - 1" "devices s' = devices s" "\<forall>j. i \<le> j \<longrightarrow> j < i + k \<longrightarrow> dev_used (devices s ! j)"
  | (slot) j where "r = 0" "i \<le> j" "j < i + k" "\<not> dev_used (devices s ! j)" "\<forall>l. i \<le> l \<longrightarrow> l < j \<longrightarrow> dev_used (devices s ! l)"
      "devices s' = (devices s)[j := \<lparr>dev_name = copy_name 31 name, dev_ops = ops, dev_used = True\<rparr>]"
  using assms
proof (induction k i name ops s arbitrary: thesis rule: register_loop.induct)
  case (1 i name ops s)
  then show ?case by (auto simp: kprintf_def)
next
  case (2 k i name ops s)
  show ?case
  proof (cases "dev_used (devices s ! i)")
    case True
    have "(i \<le> j) = (j = i \<or> Suc i \<le> j)" for j by auto
    with True "2.prems" "2.IH" show ?thesis by auto
  next
    case False
    show ?thesis by (rule "2.prems"(2) [of i]) (use False "2.prems"(3) in \<open>auto simp: kprintf_def\<close>)
  qed
qed

lemma register_loop_frame:
  "register_loop k i name ops s = (r, s') \<Longrightarrow> s' = s\<lparr>klog := klog s', devices := devices s'\<rparr>"
proof (induction k i name ops s rule: register_loop.induct)
  case (1 i name ops s)
  then show ?case by (auto simp: kprintf_def)
next
  case (2 k i name ops s)
  then show ?case by (auto simp: kprintf_def split: if_splits)
qed

lemma find_device_cong:
  assumes "dev_wf s" "dev_wf s'" "c_string name"
    and "\<And>l. l < MAX_DEVICES \<Longrightarrow> registered s' l = Some name \<longleftrightarrow> registered s l = Some name"
  shows "find_device name s' = find_device name s"
proof (cases "find_device name s'")
  case None
  with assms show ?thesis by (metis find_device_iff(1))
next
  case (Some j)
  then have "j < MAX_DEVICES" "registered s' j = Some name" "\<forall>l < j. registered s' l \<noteq> Some name"
    using find_device_iff(2) [OF assms(2,3)] by auto
  then have "find_device name s = Some j"
    using assms(4) by (simp add: find_device_iff(2) [OF assms(1,3)])
  with Some show ?thesis by simp
qed

text \<open>An empty registry.\<close>

definition sample_vfs :: "vfs_state" where
  "sample_vfs = sched_state.extend sample_sched
     (vfs_state.fields (replicate 16 \<lparr>dev_name = [], dev_ops = 0, dev_used = False\<rparr>) 1
       (\<lambda>_. \<lparr>f_inode = 0, f_offset = 0, f_flags = 0\<rparr>)
       (\<lambda>_. \<lparr>i_ino = 0, i_type = 0, i_size = 0, i_ref = 0, i_ops = 0, i_private = 0\<rparr>))"

lemma sample_vfs_devices: "devices sample_vfs = replicate 16 \<lparr>dev_name = [], dev_ops = 0, dev_used = False\<rparr>"
  by (simp add: sample_vfs_def sched_state.defs vfs_state.defs)

text \<open>
  C32: \<open>vfs_register_device\<close> writes the name, cut to 31 characters, and the operations into the first free
  slot of the registry; it fails, with all 16 slots as they were, only when all are used. Beside the
  registry only the console changes. A device registered under a new name of at most 31 characters is
  then found in its slot under that name; one with a longer name is not found under the name it was
  registered with. Looking up any other name gives what it gave before.
\<close>

theorem vfs_register_find:
  assumes "dev_wf s" "c_string name" "vfs_register_device name ops s = (r, s')"
  shows "dev_wf s' \<and> s' = s\<lparr>klog := klog s', devices := devices s'\<rparr> \<and>
    (if \<exists>i < MAX_DEVICES. \<not> dev_used (devices s ! i)
     then r = 0 \<and>
       (\<exists>j < MAX_DEVICES. \<not> dev_used (devices s ! j) \<and> (\<forall>l < j. dev_used (devices s ! l)) \<and>
          devices s' = (devices s)[j := \<lparr>dev_name = take 31 name, dev_ops = ops, dev_used = True\<rparr>] \<and>
          (if length name \<le> 31 then find_device name s = None \<longrightarrow> find_device name s' = Some j
           else find_device name s' = None)) \<and>
       (\<forall>other. c_string other \<and> other \<noteq> take 31 name \<longrightarrow> find_device other s' = find_device other s)
     else r = - 1 \<and> devices s' = devices s)"
  using assms(3) [unfolded vfs_register_device_def]
proof (cases rule: register_loop_cases)
  case full
  then show ?thesis
    using assms(1) register_loop_frame [OF assms(3) [unfolded vfs_register_device_def]] by (auto simp: dev_wf_def)
next
  case (slot j)
  have nm: "copy_name 31 name = take 31 name" by (rule copy_name_take [OF assms(2)])
  have len: "length (devices s) = MAX_DEVICES" using assms(1) by (simp add: dev_wf_def)
  have wf': "dev_wf s'"
    using assms(1) c_string_take [OF assms(2), of 31] set_update_subset_insert [of "devices s" j]
    unfolding dev_wf_def slot(6) nm list_all_iff by fastforce
  have reg: "registered s' l = (if l = j then Some (take 31 name) else registered s l)" for l
    using slot(3) len by (simp add: registered_def slot(6) nm)
  have j: "registered s j = None" using slot(4) by (simp add: registered_def)
  have other: "find_device n s' = find_device n s" if "c_string n" "n \<noteq> take 31 name" for n
    using that j by (intro find_device_cong [OF assms(1) wf']) (auto simp: reg)
  have new: "find_device name s' = Some j" if "length name \<le> 31" "find_device name s = None"
    using that slot(3) len find_device_iff [OF assms(1,2)] find_device_iff(2) [OF wf' assms(2)]
    by (simp add: reg)
  have long: "find_device name s' = None" if "length name > 31"
  proof -
    have "registered s l \<noteq> Some name" if "l < MAX_DEVICES" for l
      using assms(1) \<open>length name > 31\<close> that by (auto simp: registered_def dev_wf_def list_all_length)
    moreover have "name \<noteq> take 31 name" using that by (metis length_take min.absorb_iff1 not_less)
    ultimately show ?thesis using other [OF assms(2)] find_device_iff(1) [OF assms(1,2)] by simp
  qed
  have j16: "j < MAX_DEVICES" "\<not> dev_used (devices s ! j)" "\<forall>l < j. dev_used (devices s ! l)"
    "devices s' = (devices s)[j := \<lparr>dev_name = take 31 name, dev_ops = ops, dev_used = True\<rparr>]"
    using slot(3-6) nm by simp_all
  have ex: "\<exists>i < MAX_DEVICES. \<not> dev_used (devices s ! i)" using j16(1,2) by blast
  have "if length name \<le> 31 then find_device name s = None \<longrightarrow> find_device name s' = Some j else find_device name s' = None"
    using new long by simp
  with j16 have "\<exists>j < MAX_DEVICES. \<not> dev_used (devices s ! j) \<and> (\<forall>l < j. dev_used (devices s ! l)) \<and>
      devices s' = (devices s)[j := \<lparr>dev_name = take 31 name, dev_ops = ops, dev_used = True\<rparr>] \<and>
      (if length name \<le> 31 then find_device name s = None \<longrightarrow> find_device name s' = Some j else find_device name s' = None)"
    by blast
  then show ?thesis unfolding if_P [OF ex]
    using wf' slot(1) other register_loop_frame [OF assms(3) [unfolded vfs_register_device_def]] by blast
qed

theorem vfs_register_find_witness:
  "dev_wf sample_vfs \<and> find_device ''testdev'' (snd (vfs_register_device ''testdev'' 0x1000 sample_vfs)) = Some 0"
proof -
  have wf: "dev_wf sample_vfs" by (simp add: dev_wf_def sample_vfs_devices list_all_iff c_string_def)
  have n: "c_string ''testdev''" by (simp add: c_string_def)
  obtain r s' where r: "vfs_register_device ''testdev'' 0x1000 sample_vfs = (r, s')"
    by (cases "vfs_register_device ''testdev'' 0x1000 sample_vfs")
  have "find_device ''testdev'' sample_vfs = None"
    unfolding find_device_iff(1) [OF wf n] by (simp add: registered_def sample_vfs_devices)
  moreover have ex: "\<exists>i < MAX_DEVICES. \<not> dev_used (devices sample_vfs ! i)"
    by (rule exI [of _ 0]) (simp add: sample_vfs_devices)
  moreover obtain j where j: "\<forall>l < j. dev_used (devices sample_vfs ! l)"
    "if length ''testdev'' \<le> 31 then find_device ''testdev'' sample_vfs = None \<longrightarrow> find_device ''testdev'' s' = Some j
     else find_device ''testdev'' s' = None"
    using vfs_register_find [OF wf n r] unfolding if_P [OF ex] by blast
  moreover have "j = 0" using spec [OF j(1), of 0] by (cases j) (simp_all add: sample_vfs_devices)
  ultimately have "find_device ''testdev'' s' = Some 0" by simp
  then show ?thesis using wf r by simp
qed

section \<open>Files\<close>

text \<open>The heap has room for a file and its inode.\<close>

definition file_room :: "'z vfs_state_scheme \<Rightarrow> bool" where
  "file_room s \<longleftrightarrow> heap_wf s \<and> heap_brk s + 48 \<le> heap_lim s"

text \<open>A successful open, up to the call of the driver's own operation.\<close>

definition opened :: "addr \<Rightarrow> u32 \<Rightarrow> 'z vfs_state_scheme \<Rightarrow> 'z vfs_state_scheme" where
  "opened ops flags s =
     (let f = heap_current s; i = heap_current s + 16 in
      s\<lparr>heap_current := heap_current s + 48, next_ino := next_ino s + 1,
        inode_at := (inode_at s)(i := \<lparr>i_ino = next_ino s, i_type = VFS_DEV, i_size = 0, i_ref = 1, i_ops = ops, i_private = NULL\<rparr>),
        file_at := (file_at s)(f := \<lparr>f_inode = i, f_offset = 0, f_flags = flags\<rparr>)\<rparr>)"

lemma all_fields:
  "f\<lparr>f_inode := a, f_offset := b, f_flags := c\<rparr> = \<lparr>f_inode = a, f_offset = b, f_flags = c\<rparr>"
  "i\<lparr>i_ino := n, i_type := t, i_size := z, i_ref := r, i_private := p, i_ops := q\<rparr> =
     \<lparr>i_ino = n, i_type = t, i_size = z, i_ref = r, i_ops = q, i_private = p\<rparr>"
  by simp_all

lemma kmalloc_16_32:
  assumes "file_room s"
  shows "kmalloc 16 s = (heap_current s, s\<lparr>heap_current := heap_current s + 16\<rparr>)"
    "kmalloc 32 (s\<lparr>heap_current := heap_current s + 16\<rparr>) = (heap_current s + 16, s\<lparr>heap_current := heap_current s + 48\<rparr>)"
    "heap_current s \<noteq> NULL" "heap_current s + 16 \<noteq> NULL"
proof -
  have wf: "heap_wf s" and room: "heap_brk s + 48 \<le> heap_lim s" using assms by (simp_all add: file_room_def)
  have r: "round8 16 = 16" "round8 32 = 32" by (simp_all add: round8_def)
  have k: "kmalloc 16 s = (heap_current s, s\<lparr>heap_current := heap_current s + 16\<rparr>)"
    using kmalloc_fits [OF wf, of 16] room r by simp
  then show "kmalloc 16 s = (heap_current s, s\<lparr>heap_current := heap_current s + 16\<rparr>)" .
  let ?t = "s\<lparr>heap_current := heap_current s + 16\<rparr>"
  have t: "heap_wf ?t" using heap_wf_kmalloc [OF wf, of 16] k by simp
  have b: "heap_brk ?t = heap_brk s + 16" "heap_lim ?t = heap_lim s"
    using bh.alloc_fits [OF wf, of 16] room r k by simp_all
  show "kmalloc 32 ?t = (heap_current s + 16, s\<lparr>heap_current := heap_current s + 48\<rparr>)"
    using kmalloc_fits [OF t, of 32] room r b by (simp add: add.assoc)
  show "heap_current s \<noteq> NULL" "heap_current s + 16 \<noteq> NULL"
    using bh.brk_le_lim [OF wf] bh.brk_le_lim [OF t] by (auto simp: heap_brk_def)
qed

text \<open>Opening a registered device whose driver has no objection.\<close>

lemma vfs_open_opened:
  assumes "file_room s" "find_device (skip_slash path) s = Some i"
    and "op_open (ops_at (dev_ops (devices s ! i))) = None \<or> op_open (ops_at (dev_ops (devices s ! i))) = Some (\<lambda>i f s. (0, s))"
  shows "vfs_open ops_at path flags s = (heap_current s, opened (dev_ops (devices s ! i)) flags s)"
proof -
  note k = kmalloc_16_32 [OF assms(1)]
  let ?t = "s\<lparr>heap_current := heap_current s + 48\<rparr>"
  have "vfs_create_inode VFS_DEV (s\<lparr>heap_current := heap_current s + 16\<rparr>) =
    (heap_current s + 16, upd_inode (\<lambda>i. i\<lparr>i_ino := next_ino s, i_type := VFS_DEV, i_size := 0, i_ref := 1,
       i_ops := NULL, i_private := NULL\<rparr>) (heap_current s + 16) (?t\<lparr>next_ino := next_ino s + 1\<rparr>))"
    using k(2,4) by (simp add: vfs_create_inode_def)
  then show ?thesis
    using assms(2,3) k(1,3,4)
    by (auto simp: vfs_open_def opened_def Let_def upd_file_def upd_inode_def all_fields)
qed

end
