(* ===== verification/Testdev.thy ===== *)
theory Testdev
  imports Vfs
begin

text \<open>
  The test device (\<open>drivers/testdev/testdev.c\<close>): a character device over a buffer of 1024 bytes, with
  the contract of a seekable byte device that it implements.
\<close>

section \<open>State and operations\<close>

definition TESTDEV_SIZE :: nat where [simp]: "TESTDEV_SIZE = 1024"

record testdev_state = vfs_state +
  testdev_buffer :: string
  testdev_len :: u32

definition testdev_open :: "addr \<Rightarrow> addr \<Rightarrow> 'z testdev_state_scheme \<Rightarrow> int \<times> 'z testdev_state_scheme" where
  "testdev_open inode file s = (0, s)"

definition testdev_close :: "addr \<Rightarrow> 'z testdev_state_scheme \<Rightarrow> int \<times> 'z testdev_state_scheme" where
  "testdev_close file s = (0, s)"

text \<open>The \<open>n\<close> accesses of a copy loop that starts at \<open>off\<close> are inside the buffer.\<close>

definition in_buffer :: "u32 \<Rightarrow> u64 \<Rightarrow> bool" where
  "in_buffer off n \<longleftrightarrow> n = 0 \<or> unat off + unat n \<le> TESTDEV_SIZE"

definition testdev_read :: "addr \<Rightarrow> u64 \<Rightarrow> 'z testdev_state_scheme \<Rightarrow> ((int \<times> string) \<times> 'z testdev_state_scheme) option" where
  "testdev_read file cnt s =
     (let offset = f_offset (file_at s file); available = testdev_len s - offset in
      if available = 0 then Some ((0, []), s)
      else
        let cnt = (if cnt > ucast available then ucast available else cnt) in
        if in_buffer offset cnt
        then Some ((int_of_size cnt, map (\<lambda>i. testdev_buffer s ! (unat offset + i)) [0..<unat cnt]),
                   upd_file (\<lambda>f. f\<lparr>f_offset := f_offset f + ucast cnt\<rparr>) file s)
        else None)"

text \<open>The copy loop of \<open>testdev_write\<close>: \<open>k\<close> characters to go, the next is number \<open>i\<close>.\<close>

fun store_chars :: "nat \<Rightarrow> nat \<Rightarrow> nat \<Rightarrow> (nat \<Rightarrow> char) \<Rightarrow> string \<Rightarrow> string" where
  "store_chars 0 i off cbuf b = b"
| "store_chars (Suc k) i off cbuf b = store_chars k (Suc i) off cbuf (b[off + i := cbuf i])"

definition testdev_write :: "addr \<Rightarrow> (nat \<Rightarrow> char) \<Rightarrow> u64 \<Rightarrow> 'z testdev_state_scheme \<Rightarrow> (int \<times> 'z testdev_state_scheme) option" where
  "testdev_write file buf cnt s =
     (let offset = f_offset (file_at s file); space = of_nat TESTDEV_SIZE - offset in
      if space = 0 then Some (- 1, kprintf ''[TESTDEV] Buffer full\<newline>'' [] s)
      else
        let cnt = (if cnt > ucast space then ucast space else cnt) in
        if in_buffer offset cnt
        then
          let s = s\<lparr>testdev_buffer := store_chars (unat cnt) 0 (unat offset) buf (testdev_buffer s)\<rparr>;
              s = upd_file (\<lambda>f. f\<lparr>f_offset := f_offset f + ucast cnt\<rparr>) file s;
              s = (if f_offset (file_at s file) > testdev_len s
                   then s\<lparr>testdev_len := f_offset (file_at s file)\<rparr> else s)
          in Some (int_of_size cnt, s)
        else None)"

definition testdev_seek :: "addr \<Rightarrow> u32 \<Rightarrow> 'z testdev_state_scheme \<Rightarrow> int \<times> 'z testdev_state_scheme" where
  "testdev_seek file offset s =
     (if offset > of_nat TESTDEV_SIZE then (- 1, s)
      else (0, upd_file (\<lambda>f. f\<lparr>f_offset := offset\<rparr>) file s))"

definition testdev_ops :: "'z testdev_state_scheme file_ops_t" where
  "testdev_ops =
     \<lparr>op_open = Some testdev_open, op_close = Some testdev_close, op_read = Some testdev_read,
      op_write = Some testdev_write, op_seek = Some testdev_seek\<rparr>"

definition testdev_init :: "'z testdev_state_scheme \<Rightarrow> 'z testdev_state_scheme" where
  "testdev_init s = s\<lparr>testdev_len := 0\<rparr>"

text \<open>\<open>p\<close> is the address of \<open>testdev_ops\<close>.\<close>

definition testdev_register :: "addr \<Rightarrow> 'z testdev_state_scheme \<Rightarrow> int \<times> 'z testdev_state_scheme" where
  "testdev_register p s = vfs_register_device ''testdev'' p s"

section \<open>Seekable byte devices\<close>

text \<open>
  What a client may rely on, for one open file: a position, a content of bounded length, and the three
  operations. Reading and writing are specified while the position is not behind the content's end.
\<close>

locale byte_device =
  fixes rd :: "u64 \<Rightarrow> 's \<Rightarrow> ((int \<times> string) \<times> 's) option"
    and wr :: "(nat \<Rightarrow> char) \<Rightarrow> u64 \<Rightarrow> 's \<Rightarrow> (int \<times> 's) option"
    and sk :: "u32 \<Rightarrow> 's \<Rightarrow> int \<times> 's"
    and pos :: "'s \<Rightarrow> nat"
    and content :: "'s \<Rightarrow> string"
    and ok :: "'s \<Rightarrow> bool"
    and cap :: nat
  assumes bounds: "ok s \<Longrightarrow> pos s \<le> cap \<and> length (content s) \<le> cap" "cap < 2 ^ 31"
    and seek_bad: "cap < unat p \<Longrightarrow> sk p s = (- 1, s)"
    and seek_ok: "ok s \<Longrightarrow> unat p \<le> cap \<Longrightarrow> sk p s = (r, s') \<Longrightarrow>
      r = 0 \<and> ok s' \<and> pos s' = unat p \<and> content s' = content s"
    and read_ok: "ok s \<Longrightarrow> pos s \<le> length (content s) \<Longrightarrow> d = take (unat n) (drop (pos s) (content s)) \<Longrightarrow>
      \<exists>s'. rd n s = Some ((int (length d), d), s') \<and> ok s' \<and> pos s' = pos s + length d \<and> content s' = content s"
    and write_full: "ok s \<Longrightarrow> pos s = cap \<Longrightarrow>
      \<exists>s'. wr buf n s = Some (- 1, s') \<and> ok s' \<and> pos s' = pos s \<and> content s' = content s"
    and write_ok: "ok s \<Longrightarrow> pos s \<le> length (content s) \<Longrightarrow> pos s < cap \<Longrightarrow> k = min (unat n) (cap - pos s) \<Longrightarrow>
      \<exists>s'. wr buf n s = Some (int k, s') \<and> ok s' \<and> pos s' = pos s + k \<and>
        content s' = take (pos s) (content s) @ map buf [0..<k] @ drop (pos s + k) (content s)"
begin

text \<open>What was written is read back after seeking to where it was written.\<close>

lemma write_seek_read:
  assumes "ok s" "pos s \<le> length (content s)" "pos s + unat n \<le> cap" "pos s < cap" "unat p = pos s"
  shows "\<exists>s1 s2 s3. wr buf n s = Some (int (unat n), s1) \<and> sk p s1 = (0, s2) \<and>
    rd m s2 = Some ((int (length (take (unat m) (drop (pos s) (content s1)))), take (unat m) (drop (pos s) (content s1))), s3) \<and>
    content s1 = take (pos s) (content s) @ map buf [0..<unat n] @ drop (pos s + unat n) (content s) \<and>
    ok s3 \<and> content s3 = content s1"
proof -
  have "unat n = min (unat n) (cap - pos s)" using assms(3) by simp
  from write_ok [OF assms(1,2,4) this] obtain s1 where
    w: "wr buf n s = Some (int (unat n), s1)" "ok s1"
      "content s1 = take (pos s) (content s) @ map buf [0..<unat n] @ drop (pos s + unat n) (content s)" by blast
  obtain r s2 where sk: "sk p s1 = (r, s2)" by (cases "sk p s1")
  have "unat p \<le> cap" using assms(4,5) by simp
  from seek_ok [OF w(2) this sk] have k: "r = 0" "ok s2" "pos s2 = pos s" "content s2 = content s1"
    using assms(5) by simp_all
  have "pos s2 \<le> length (content s2)" using k w(3) assms(2) by simp
  from read_ok [OF k(2) this refl, of m] obtain s3 where
    "rd m s2 = Some ((int (length (take (unat m) (drop (pos s) (content s1)))), take (unat m) (drop (pos s) (content s1))), s3)"
    "ok s3" "content s3 = content s1"
    unfolding k(3,4) by blast
  with w(1,3) sk k(1) show ?thesis by blast
qed

end

section \<open>The test device is one\<close>

definition testdev_content :: "'z testdev_state_scheme \<Rightarrow> string" where
  "testdev_content s = take (unat (testdev_len s)) (testdev_buffer s)"

definition file_pos :: "addr \<Rightarrow> 'z vfs_state_scheme \<Rightarrow> nat" where
  "file_pos f s = unat (f_offset (file_at s f))"

definition testdev_wf :: "'z testdev_state_scheme \<Rightarrow> bool" where
  "testdev_wf s \<longleftrightarrow> length (testdev_buffer s) = TESTDEV_SIZE \<and> unat (testdev_len s) \<le> TESTDEV_SIZE"

definition testdev_file :: "addr \<Rightarrow> 'z testdev_state_scheme \<Rightarrow> bool" where
  "testdev_file f s \<longleftrightarrow> testdev_wf s \<and> file_pos f s \<le> TESTDEV_SIZE"

lemma length_content: "testdev_wf s \<Longrightarrow> length (testdev_content s) = unat (testdev_len s)"
  by (simp add: testdev_wf_def testdev_content_def)

lemma store_chars_splice:
  "off + i + k \<le> length b \<Longrightarrow> store_chars k i off cbuf b = take (off + i) b @ map cbuf [i..<i + k] @ drop (off + i + k) b"
proof (induction k i off cbuf b rule: store_chars.induct)
  case (2 k i off cbuf b)
  have "[i..<i + Suc k] = i # [Suc i..<Suc i + k]" by (simp add: upt_conv_Cons)
  moreover have "take (off + Suc i) (b[off + i := cbuf i]) = take (off + i) b @ [cbuf i]"
    using "2.prems" by (simp add: take_Suc_conv_app_nth)
  ultimately show ?case using 2 by simp
qed simp

text \<open>32-bit differences and sums that do not wrap.\<close>

lemma unat_sub32: "b \<le> a \<Longrightarrow> unat (a - b :: u32) = unat a - unat b"
  by (simp add: unat_sub)

lemma unat_lt32: "unat (x :: u32) < 2 ^ 32"
  using unsigned_less [of x] by simp

lemma unat_ucast_u64: "unat (ucast (x :: u32) :: u64) = unat x"
  using unat_lt32 [of x] by (simp add: unsigned_ucast_eq take_bit_nat_eq_self)

lemma unat_ucast_u32: "unat (c :: u64) < 2 ^ 32 \<Longrightarrow> unat (ucast c :: u32) = unat c"
  by (simp add: unsigned_ucast_eq take_bit_nat_eq_self)

lemma unat_clip: "unat (if c > ucast a then ucast a else c :: u64) = min (unat c) (unat (a :: u32))"
  by (auto simp: word_less_nat_alt unat_ucast_u64)

lemma int_of_size_unat: "unat n < 2 ^ 31 \<Longrightarrow> int_of_size n = int (unat n)"
  using int_of_size_small [of "unat n"] by simp

lemma unat_add32: "unat a + unat b < 2 ^ 32 \<Longrightarrow> unat (a + b :: u32) = unat a + unat b"
  by (simp add: unat_word_ariths)

lemma upd_file_fields [simp]:
  "testdev_buffer (upd_file g f s) = testdev_buffer s" "testdev_len (upd_file g f s) = testdev_len s"
  "file_at (upd_file g f s) f = g (file_at s f)" "testdev_content (upd_file g f s) = testdev_content s"
  by (simp_all add: upd_file_def testdev_content_def)

lemma testdev_read_ok:
  fixes n :: u64
  assumes "testdev_file f s" "file_pos f s \<le> length (testdev_content s)"
  defines "d \<equiv> take (unat n) (drop (file_pos f s) (testdev_content s))"
  shows "\<exists>s'. testdev_read f n s = Some ((int (length d), d), s') \<and> testdev_file f s' \<and>
    file_pos f s' = file_pos f s + length d \<and> testdev_content s' = testdev_content s"
proof -
  let ?o = "f_offset (file_at s f)" and ?a = "testdev_len s - f_offset (file_at s f)"
  define c where "c = (if n > ucast ?a then ucast ?a else n)"
  have wf: "length (testdev_buffer s) = 1024" "unat (testdev_len s) \<le> 1024" "testdev_wf s"
    using assms(1) by (simp_all add: testdev_file_def testdev_wf_def)
  have o: "unat ?o \<le> unat (testdev_len s)" using assms(2) by (simp add: length_content [OF wf(3)] file_pos_def)
  then have a: "unat ?a = unat (testdev_len s) - unat ?o" by (simp add: unat_sub32 word_le_nat_alt)
  have c: "unat c = min (unat n) (unat (testdev_len s) - unat ?o)" unfolding c_def unat_clip a by simp
  have len: "length d = unat c"
    using c by (simp add: d_def length_content [OF wf(3)] file_pos_def min.commute)
  have dm: "d = map (\<lambda>i. testdev_buffer s ! (unat ?o + i)) [0..<unat c]"
  proof (rule nth_equalityI)
    show "length d = length (map (\<lambda>i. testdev_buffer s ! (unat ?o + i)) [0..<unat c])" by (simp add: len)
    fix i assume "i < length d"
    then have ic: "i < unat c" using len by simp
    then have "i < unat (testdev_len s) - unat ?o" using c by simp
    then have "unat ?o + i < unat (testdev_len s)" by linarith
    with \<open>i < length d\<close> show "d ! i = map (\<lambda>i. testdev_buffer s ! (unat ?o + i)) [0..<unat c] ! i"
      using ic wf by (simp add: d_def file_pos_def testdev_content_def)
  qed
  show ?thesis
  proof (cases "?a = 0")
    case True
    then have "d = []" using a len c by (simp flip: length_0_conv)
    with True assms(1) show ?thesis by (simp add: testdev_read_def)
  next
    case False
    have "unat ?o + unat c \<le> 1024" using c wf(2) o by linarith
    then have ib: "in_buffer ?o c" by (simp add: in_buffer_def)
    let ?s = "upd_file (\<lambda>f. f\<lparr>f_offset := f_offset f + ucast c\<rparr>) f s"
    have rd: "testdev_read f n s = Some ((int_of_size c, d), ?s)"
      using False ib unfolding testdev_read_def Let_def dm c_def [symmetric] by simp
    have small: "unat c \<le> 1024" using c wf(2) by simp
    then have "unat (ucast c :: u32) = unat c" by (intro unat_ucast_u32) simp
    then have "file_pos f ?s = file_pos f s + length d"
      using c wf(2) o len by (simp add: file_pos_def unat_add32)
    moreover have "int_of_size c = int (length d)" using small len by (simp add: int_of_size_unat)
    moreover have "testdev_file f ?s" using wf o c len calculation(1) by (simp add: testdev_file_def testdev_wf_def file_pos_def)
    ultimately show ?thesis using rd by (simp)
  qed
qed

lemma testdev_write_ok:
  fixes n :: u64
  assumes "testdev_file f s" "file_pos f s \<le> length (testdev_content s)" "file_pos f s < TESTDEV_SIZE"
  defines "k \<equiv> min (unat n) (TESTDEV_SIZE - file_pos f s)"
  shows "\<exists>s'. testdev_write f buf n s = Some (int k, s') \<and> testdev_file f s' \<and> file_pos f s' = file_pos f s + k \<and>
    testdev_content s' = take (file_pos f s) (testdev_content s) @ map buf [0..<k] @ drop (file_pos f s + k) (testdev_content s)"
proof -
  let ?o = "f_offset (file_at s f)" and ?a = "1024 - f_offset (file_at s f)"
  define c where "c = (if n > ucast ?a then ucast ?a else n)"
  have wf: "length (testdev_buffer s) = 1024" "unat (testdev_len s) \<le> 1024" "testdev_wf s"
    using assms(1) by (simp_all add: testdev_file_def testdev_wf_def)
  have o: "unat ?o < 1024" "unat ?o \<le> unat (testdev_len s)"
    using assms(2,3) by (simp_all add: length_content [OF wf(3)] file_pos_def)
  have a: "unat ?a = 1024 - unat ?o" using o(1) by (subst unat_sub32) (simp_all add: word_le_nat_alt)
  have c: "unat c = k" unfolding c_def unat_clip a by (simp add: k_def file_pos_def)
  have k: "unat ?o + k \<le> 1024" using o(1) by (simp add: k_def file_pos_def)
  have ne: "?a \<noteq> 0" using a o(1) by (metis unat_0 zero_less_diff less_irrefl)
  have ib: "in_buffer ?o c" using c k by (simp add: in_buffer_def)
  let ?s1 = "upd_file (\<lambda>f. f\<lparr>f_offset := f_offset f + ucast c\<rparr>) f
    (s\<lparr>testdev_buffer := store_chars k 0 (unat ?o) buf (testdev_buffer s)\<rparr>)"
  let ?s2 = "if f_offset (file_at ?s1 f) > testdev_len ?s1 then ?s1\<lparr>testdev_len := f_offset (file_at ?s1 f)\<rparr> else ?s1"
  have wr: "testdev_write f buf n s = Some (int_of_size c, ?s2)"
    using ne ib unfolding testdev_write_def Let_def TESTDEV_SIZE_def of_nat_numeral c_def [symmetric] c by simp
  have "int_of_size c = int k" using k c by (simp add: int_of_size_unat)
  have uo: "unat (?o + ucast c) = unat ?o + k"
    using k c by (simp add: unat_add32 unat_ucast_u32)
  have pos: "file_pos f ?s2 = file_pos f s + k" using uo by (simp add: file_pos_def) 
  have len: "unat (testdev_len ?s2) = max (unat (testdev_len s)) (unat ?o + k)"
    using uo by (simp add: word_less_nat_alt)
  have buf: "testdev_buffer ?s2 = take (unat ?o) (testdev_buffer s) @ map buf [0..<k] @ drop (unat ?o + k) (testdev_buffer s)"
    using store_chars_splice [of "unat ?o" 0 k "testdev_buffer s" buf] k wf by simp
  have "testdev_content ?s2 = take (file_pos f s) (testdev_content s) @ map buf [0..<k] @ drop (file_pos f s + k) (testdev_content s)"
    unfolding testdev_content_def len buf using o wf k by (simp add: file_pos_def drop_take max_def) linarith
  moreover have "testdev_file f ?s2"
    unfolding testdev_file_def testdev_wf_def len buf pos using wf o k by (simp add: file_pos_def)
  ultimately show ?thesis
    using pos unfolding wr \<open>int_of_size c = int k\<close> by (intro exI [of _ ?s2] conjI refl)
qed

lemma testdev_write_full:
  assumes "testdev_file f s" "file_pos f s = TESTDEV_SIZE"
  shows "testdev_write f buf n s = Some (- 1, kprintf ''[TESTDEV] Buffer full\<newline>'' [] s)"
proof -
  have "f_offset (file_at s f) = of_nat (file_pos f s)" by (simp add: file_pos_def)
  then have "f_offset (file_at s f) = 1024" using assms(2) by simp
  then show ?thesis by (simp add: testdev_write_def)
qed

lemma testdev_seek_ok:
  assumes "testdev_file f s" "unat p \<le> TESTDEV_SIZE" "testdev_seek f p s = (r, s')"
  shows "r = 0 \<and> testdev_file f s' \<and> file_pos f s' = unat p \<and> testdev_content s' = testdev_content s"
  using assms by (auto simp: testdev_seek_def word_less_nat_alt testdev_file_def testdev_wf_def file_pos_def)

interpretation td: byte_device "testdev_read f" "testdev_write f" "testdev_seek f" "file_pos f" testdev_content
  "testdev_file f" TESTDEV_SIZE for f
proof unfold_locales
  fix s :: "'z testdev_state_scheme" and p :: u32 and buf n d k and r :: int and s'
  show "TESTDEV_SIZE < unat p \<Longrightarrow> testdev_seek f p s = (- 1, s)"
    by (simp add: testdev_seek_def word_less_nat_alt)
  show "TESTDEV_SIZE < 2 ^ 31" by simp
  assume ok: "testdev_file f s"
  show "file_pos f s \<le> TESTDEV_SIZE \<and> length (testdev_content s) \<le> TESTDEV_SIZE"
    using ok length_content [of s] by (simp add: testdev_file_def testdev_wf_def)
  show "unat p \<le> TESTDEV_SIZE \<Longrightarrow> testdev_seek f p s = (r, s') \<Longrightarrow>
      r = 0 \<and> testdev_file f s' \<and> file_pos f s' = unat p \<and> testdev_content s' = testdev_content s"
    by (rule testdev_seek_ok [OF ok])
  show "\<exists>s'. testdev_write f buf n s = Some (- 1, s') \<and> testdev_file f s' \<and> file_pos f s' = file_pos f s \<and>
      testdev_content s' = testdev_content s" if "file_pos f s = TESTDEV_SIZE"
    using testdev_write_full [OF ok that] ok
    by (simp add: kprintf_def testdev_file_def testdev_wf_def file_pos_def testdev_content_def)
  assume b: "file_pos f s \<le> length (testdev_content s)"
  show "\<exists>s'. testdev_read f n s = Some ((int (length d), d), s') \<and> testdev_file f s' \<and>
      file_pos f s' = file_pos f s + length d \<and> testdev_content s' = testdev_content s"
    if "d = take (unat n) (drop (file_pos f s) (testdev_content s))"
    unfolding that by (rule testdev_read_ok [OF ok b])
  show "\<exists>s'. testdev_write f buf n s = Some (int k, s') \<and> testdev_file f s' \<and> file_pos f s' = file_pos f s + k \<and>
      testdev_content s' = take (file_pos f s) (testdev_content s) @ map buf [0..<k] @ drop (file_pos f s + k) (testdev_content s)"
    if "file_pos f s < TESTDEV_SIZE" "k = min (unat n) (TESTDEV_SIZE - file_pos f s)"
    unfolding that(2) by (rule testdev_write_ok [OF ok b that(1)])
qed

section \<open>A session through the VFS\<close>

text \<open>The operations leave inodes, and the file's inode, alone.\<close>

definition same_ops :: "addr \<Rightarrow> 'z vfs_state_scheme \<Rightarrow> 'z vfs_state_scheme \<Rightarrow> bool" where
  "same_ops f s s' \<longleftrightarrow> inode_at s' = inode_at s \<and> f_inode (file_at s' f) = f_inode (file_at s f)"

lemma same_ops_trans: "same_ops f s s' \<Longrightarrow> same_ops f s' s'' \<Longrightarrow> same_ops f s s''"
  by (simp add: same_ops_def)

lemma testdev_same_ops:
  "testdev_write f buf n s = Some (r, s') \<Longrightarrow> same_ops f s s'"
  "testdev_seek f p s = (r, s') \<Longrightarrow> same_ops f s s'"
  "testdev_read f n s = Some (d, s') \<Longrightarrow> same_ops f s s'"
  by (auto simp: testdev_write_def testdev_seek_def testdev_read_def Let_def same_ops_def upd_file_def kprintf_def
      split: if_splits)

lemma file_ops_same: "same_ops f s s' \<Longrightarrow> file_ops ops_at f s' = file_ops ops_at f s"
  by (simp add: file_ops_def same_ops_def)

lemma opened_testdev:
  assumes "testdev_wf s" "heap_current s = f"
  shows "testdev_file f (opened p flags s)" "file_pos f (opened p flags s) = 0"
    "testdev_content (opened p flags s) = testdev_content s"
    "p \<noteq> NULL \<Longrightarrow> file_ops ops_at f (opened p flags s) = Some (ops_at p)"
  using assms by (simp_all add: testdev_file_def testdev_wf_def file_pos_def opened_def Let_def testdev_content_def file_ops_def)

text \<open>
  C30: a session on the test device through the VFS, which is what the shell's \<open>testdev\<close> command does:
  opening \<open>/testdev\<close> succeeds while the heap has room, writing up to 1024 bytes reports their number,
  and after seeking back to the beginning a read returns exactly what was written, followed by what
  was left of the old content.
\<close>

theorem testdev_session:
  fixes buf :: "nat \<Rightarrow> char"
  assumes "testdev_wf s" "file_room s" "find_device ''testdev'' s = Some i" "dev_ops (devices s ! i) = p" "p \<noteq> NULL"
    and "ops_at p = testdev_ops" "unat n \<le> TESTDEV_SIZE"
  defines "new \<equiv> map buf [0..<unat n] @ drop (unat n) (testdev_content s)"
  shows "\<exists>f s1 s2 s3 s4. vfs_open ops_at ''/testdev'' flags s = (f, s1) \<and> f \<noteq> NULL \<and>
    vfs_write ops_at f buf n s1 = Some (int (unat n), s2) \<and> testdev_seek f 0 s2 = (0, s3) \<and>
    vfs_read ops_at f m s3 = Some ((int (length (take (unat m) new)), take (unat m) new), s4) \<and>
    testdev_content s4 = new \<and> fst (vfs_close ops_at f s4) = 0"
proof -
  let ?f = "heap_current s" and ?s1 = "opened p flags s"
  have path: "skip_slash ''/testdev'' = ''testdev''" by (simp add: skip_slash_def front_def)
  have op: "op_open (ops_at p) = Some (\<lambda>i f s. (0, s))"
    by (simp add: assms(6) testdev_ops_def testdev_open_def [abs_def])
  have o: "vfs_open ops_at ''/testdev'' flags s = (?f, ?s1)"
    using vfs_open_opened [OF assms(2), of "''/testdev''" i ops_at flags] op assms(3,4) by (simp add: path)
  note t = opened_testdev [OF assms(1) refl, where p = p and flags = flags]
  have pre: "file_pos ?f ?s1 \<le> length (testdev_content ?s1)" "file_pos ?f ?s1 + unat n \<le> TESTDEV_SIZE"
    "file_pos ?f ?s1 < TESTDEV_SIZE" "unat (0 :: u32) = file_pos ?f ?s1"
    using t assms(7) by simp_all
  obtain s2 s3 s4 where w: "testdev_write ?f buf n ?s1 = Some (int (unat n), s2)" "testdev_seek ?f 0 s2 = (0, s3)"
    "testdev_read ?f m s3 = Some ((int (length (take (unat m) (testdev_content s2))), take (unat m) (testdev_content s2)), s4)"
    "testdev_content s2 = new" "testdev_content s4 = testdev_content s2"
    using td.write_seek_read [OF t(1) pre, of buf m, unfolded t(2,3) drop_0 take_0 append_Nil add_0, folded new_def] by blast
  have s12: "same_ops ?f ?s1 s2" and s13: "same_ops ?f ?s1 s3" and s14: "same_ops ?f ?s1 s4"
    using testdev_same_ops(1) [OF w(1)] testdev_same_ops(2) [OF w(2)] testdev_same_ops(3) [OF w(3)]
    by (auto intro: same_ops_trans)
  have "vfs_write ops_at ?f buf n ?s1 = Some (int (unat n), s2)"
    using w(1) kmalloc_16_32(3) [OF assms(2)] t(4) [OF assms(5)] assms(6)
    by (simp add: vfs_write_def testdev_ops_def)
  moreover have "vfs_read ops_at ?f m s3 = Some ((int (length (take (unat m) new)), take (unat m) new), s4)"
    using w(3,4) kmalloc_16_32(3) [OF assms(2)] file_ops_same [OF s13] t(4) [OF assms(5)] assms(6)
    by (simp add: vfs_read_def testdev_ops_def)
  moreover have "fst (vfs_close ops_at ?f s4) = 0"
    using kmalloc_16_32(3) [OF assms(2)] by (simp add: vfs_close_def Let_def)
  ultimately show ?thesis using o w(2,4,5) kmalloc_16_32(3) [OF assms(2)] by auto
qed

text \<open>
  C31: \<open>testdev_seek\<close> allows positions behind the data, and \<open>testdev_read\<close> there computes what is
  available modulo \<open>2\<^sup>3\<^sup>2\<close>: a read past the end of the data is not limited at all and leaves the
  device's buffer as soon as it asks for more than the rest of it.
\<close>

theorem testdev_read_overruns:
  assumes "testdev_wf s" "testdev_len s < p" "unat p \<le> TESTDEV_SIZE" "unat p + unat n > TESTDEV_SIZE"
  shows "fst (testdev_seek f p s) = 0 \<and> testdev_read f n (snd (testdev_seek f p s)) = None"
proof -
  let ?s = "upd_file (\<lambda>f. f\<lparr>f_offset := p\<rparr>) f s"
  have sk: "testdev_seek f p s = (0, ?s)" using assms(3) by (simp add: testdev_seek_def word_less_nat_alt)
  let ?a = "testdev_len s - p"
  have l: "unat (testdev_len s) < unat p" "unat (testdev_len s) \<le> 1024"
    using assms(1,2) by (simp_all add: testdev_wf_def word_less_nat_alt)
  have ab: "unat ?a \<ge> 2 ^ 32 - 1024"
    using l(1) assms(3) by (simp add: unat_sub_if_size word_size)
  have ne: "?a \<noteq> 0" using assms(2) by auto
  define c where "c = (if n > ucast ?a then ucast ?a else n)"
  have c: "unat c = min (unat n) (unat ?a)" unfolding c_def by (rule unat_clip)
  have "unat p + unat c > 1024" using c ab assms(3,4) by (auto simp: min_def)
  then have "\<not> in_buffer p c" using assms(3) by (auto simp: in_buffer_def)
  then have "testdev_read f n ?s = None"
    using ne by (simp add: testdev_read_def Let_def c_def)
  then show ?thesis by (simp add: sk)
qed

section \<open>Witnesses\<close>

text \<open>The kernel after the device has been registered; its operations are at \<open>0x80201000\<close>.\<close>

definition sample_testdev :: testdev_state where
  "sample_testdev = snd (testdev_register 0x80201000 (vfs_state.extend sample_vfs
     (testdev_state.fields (replicate 1024 (CHR 0x00)) 0)))"

lemma register_first:
  assumes "\<not> dev_used (devices s ! 0)"
  shows "vfs_register_device name ops s = (0, kprintf ''[VFS] Registered device: %s\<newline>'' [Str name]
    (s\<lparr>devices := (devices s)[0 := \<lparr>dev_name = copy_name 31 name, dev_ops = ops, dev_used = True\<rparr>]\<rparr>))"
  using assms register_loop.simps(2) [of 15 0 name ops s] by (simp add: vfs_register_device_def)

lemma sample_vfs_heap:
  "heap_start_sym sample_vfs = 0x80240000" "heap_end_sym sample_vfs = 0x80640000" "heap_current sample_vfs = 0x80240000"
proof -
  have "heap_start_sym sample_vfs = heap_start_sym (mm_init sample_mm)" "heap_end_sym sample_vfs = heap_end_sym (mm_init sample_mm)"
    "heap_current sample_vfs = heap_current (mm_init sample_mm)"
    by (simp_all add: sample_vfs_def sample_sched_def sample_proc_def mm_state.defs vm_state.defs proc_state.defs
        sched_state.defs vfs_state.defs)
  then show "heap_start_sym sample_vfs = 0x80240000" "heap_end_sym sample_vfs = 0x80640000" "heap_current sample_vfs = 0x80240000"
    by (simp_all add: mm_init_fields) (simp_all add: sample_mm_def)
qed

lemma sample_testdev_facts:
  "testdev_wf sample_testdev" "file_room sample_testdev" "find_device ''testdev'' sample_testdev = Some 0"
  "dev_ops (devices sample_testdev ! 0) = 0x80201000" "testdev_content sample_testdev = []" "testdev_len sample_testdev = 0"
proof -
  let ?s = "vfs_state.extend sample_vfs (testdev_state.fields (replicate 1024 (CHR 0x00)) 0)"
  have s: "testdev_buffer ?s = replicate 1024 (CHR 0x00)" "testdev_len ?s = 0" "devices ?s = devices sample_vfs"
    "heap_start_sym ?s = heap_start_sym sample_vfs" "heap_end_sym ?s = heap_end_sym sample_vfs" "heap_current ?s = heap_current sample_vfs"
    by (simp_all add: vfs_state.defs testdev_state.defs)
  have "\<not> dev_used (devices ?s ! 0)" by (simp add: s sample_vfs_devices)
  note r = register_first [OF this, of "''testdev''" "0x80201000"]
  have d: "testdev_buffer sample_testdev = replicate 1024 (CHR 0x00)" "testdev_len sample_testdev = 0"
    "devices sample_testdev = (devices sample_vfs)[0 := \<lparr>dev_name = ''testdev'', dev_ops = 0x80201000, dev_used = True\<rparr>]"
    "heap_start_sym sample_testdev = 0x80240000" "heap_end_sym sample_testdev = 0x80640000" "heap_current sample_testdev = 0x80240000"
    using s by (simp_all add: sample_testdev_def testdev_register_def r kprintf_def copy_name_take c_string_def sample_vfs_heap)
  show "testdev_wf sample_testdev" "testdev_content sample_testdev = []" "testdev_len sample_testdev = 0"
    "dev_ops (devices sample_testdev ! 0) = 0x80201000" "file_room sample_testdev"
    by (simp_all add: d testdev_wf_def testdev_content_def file_room_def heap_wf_def heap_brk_def heap_lim_def sample_vfs_devices)
  have wf: "dev_wf sample_testdev"
    by (auto simp: dev_wf_def d sample_vfs_devices list_all_iff c_string_def dest!: set_update_subset_insert [THEN subsetD])
  have n: "c_string ''testdev''" by (simp add: c_string_def)
  show "find_device ''testdev'' sample_testdev = Some 0"
    unfolding find_device_iff(2) [OF wf n] by (simp add: registered_def d sample_vfs_devices)
qed

theorem testdev_session_witness:
  "\<exists>f s1 s2 s3 s4. vfs_open (\<lambda>a. testdev_ops) ''/testdev'' 0 sample_testdev = (f, s1) \<and>
     vfs_write (\<lambda>a. testdev_ops) f (nth ''Hello'') 5 s1 = Some (5, s2) \<and> testdev_seek f 0 s2 = (0, s3) \<and>
     vfs_read (\<lambda>a. testdev_ops) f 64 s3 = Some ((5, ''Hello''), s4)"
proof -
  have "map (nth ''Hello'') [0..<5] = ''Hello''" by (simp add: upt_conv_Cons)
  then show ?thesis
    using testdev_session [OF sample_testdev_facts(1-4), of "\<lambda>a. testdev_ops" 5 0 "nth ''Hello''" 64]
    by (simp add: sample_testdev_facts) metis
qed

theorem testdev_read_overruns_witness:
  "fst (testdev_seek 1 1000 sample_testdev) = 0 \<and> testdev_read 1 100 (snd (testdev_seek 1 1000 sample_testdev)) = None"
  using testdev_read_overruns [OF sample_testdev_facts(1), of 1000 100 1] by (simp add: sample_testdev_facts)

end
