(* ===== verification/Simplefs.thy ===== *)
theory Simplefs
  imports Testdev
begin

text \<open>
  The simple file system (\<open>kernel/fs/simplefs.c\<close>, \<open>kernel/fs/simplefs.h\<close>): a superblock and a table of
  64 inodes with names, without file contents, as in the code.
\<close>

section \<open>State\<close>

definition SFS_MAGIC :: u32 where [simp]: "SFS_MAGIC = 0x53465331"
definition SFS_BLOCK_SIZE :: u32 where [simp]: "SFS_BLOCK_SIZE = 4096"
definition SFS_MAX_FILES :: nat where [simp]: "SFS_MAX_FILES = 64"
definition SFS_MAX_FILENAME :: nat where [simp]: "SFS_MAX_FILENAME = 28"

record sfs_superblock_t =
  sb_magic :: u32
  sb_block_size :: u32
  sb_num_blocks :: u32
  sb_num_inodes :: u32
  sb_num_free_blocks :: u32
  sb_num_free_inodes :: u32

record sfs_inode_t =
  n_ino :: u32
  n_type :: u32
  n_size :: u32
  n_blocks :: "u32 list"
  n_name :: string

record sfs_state = testdev_state +
  superblock :: sfs_superblock_t
  inodes :: "sfs_inode_t list"
  data_blocks :: addr

definition set_inode :: "nat \<Rightarrow> sfs_inode_t \<Rightarrow> 'z sfs_state_scheme \<Rightarrow> 'z sfs_state_scheme" where
  "set_inode i n s = s\<lparr>inodes := (inodes s)[i := n]\<rparr>"

section \<open>Operations\<close>

definition sfs_init :: "'z sfs_state_scheme \<Rightarrow> 'z sfs_state_scheme" where
  "sfs_init s =
     (let s = kprintf ''[SFS] Initializing Simple File System\<newline>'' [] s
      in s\<lparr>inodes := map (\<lambda>n. n\<lparr>n_ino := 0, n_type := 0, n_size := 0\<rparr>) (inodes s)\<rparr>)"

text \<open>The product of the block count and the block size is a 32-bit product.\<close>

definition sfs_format :: "u32 \<Rightarrow> 'z sfs_state_scheme \<Rightarrow> int \<times> 'z sfs_state_scheme" where
  "sfs_format num_blocks s =
     (let s = kprintf ''[SFS] Formatting file system with %u blocks\<newline>'' [u32_arg num_blocks] s;
          s = s\<lparr>superblock := \<lparr>sb_magic = SFS_MAGIC, sb_block_size = SFS_BLOCK_SIZE, sb_num_blocks = num_blocks,
                 sb_num_inodes = of_nat SFS_MAX_FILES, sb_num_free_blocks = num_blocks,
                 sb_num_free_inodes = of_nat SFS_MAX_FILES\<rparr>\<rparr>;
          (p, s) = kmalloc (ucast (num_blocks * SFS_BLOCK_SIZE)) s;
          s = s\<lparr>data_blocks := p\<rparr>
      in if p = NULL then (- 1, kprintf ''[SFS] Failed to allocate data blocks\<newline>'' [] s)
         else (0, kprintf ''[SFS] File system formatted successfully\<newline>'' [] s))"

fun find_inode_loop :: "nat \<Rightarrow> nat \<Rightarrow> string \<Rightarrow> 'z sfs_state_scheme \<Rightarrow> nat option" where
  "find_inode_loop 0 i name s = None"
| "find_inode_loop (Suc k) i name s =
     (if n_ino (inodes s ! i) \<noteq> 0 \<and> names_match SFS_MAX_FILENAME (n_name (inodes s ! i)) name then Some i
      else find_inode_loop k (Suc i) name s)"

definition find_inode :: "string \<Rightarrow> 'z sfs_state_scheme \<Rightarrow> nat option" where
  "find_inode name s = find_inode_loop SFS_MAX_FILES 0 name s"

text \<open>The inode the body of the loop of \<open>sfs_create\<close> makes of slot \<open>i\<close>.\<close>

definition new_inode :: "nat \<Rightarrow> u32 \<Rightarrow> string \<Rightarrow> sfs_inode_t" where
  "new_inode i ty name =
     \<lparr>n_ino = of_nat i + 1, n_type = ty, n_size = 0, n_blocks = replicate 12 0,
      n_name = copy_name (SFS_MAX_FILENAME - 1) name\<rparr>"

fun create_loop :: "nat \<Rightarrow> nat \<Rightarrow> string \<Rightarrow> u32 \<Rightarrow> 'z sfs_state_scheme \<Rightarrow> int \<times> 'z sfs_state_scheme" where
  "create_loop 0 i name ty s = (- 1, kprintf ''[SFS] No free inodes\<newline>'' [] s)"
| "create_loop (Suc k) i name ty s =
     (if n_ino (inodes s ! i) = 0 then
        let s = set_inode i (new_inode i ty name) s;
            s = s\<lparr>superblock := (superblock s)\<lparr>sb_num_free_inodes := sb_num_free_inodes (superblock s) - 1\<rparr>\<rparr>
        in (sint (of_nat i + 1 :: u32),
            kprintf ''[SFS] Created file: %s (inode %u)\<newline>'' [Str name, u32_arg (of_nat i + 1)] s)
      else create_loop k (Suc i) name ty s)"

definition sfs_create :: "string \<Rightarrow> u32 \<Rightarrow> 'z sfs_state_scheme \<Rightarrow> int \<times> 'z sfs_state_scheme" where
  "sfs_create name ty s =
     (if find_inode name s \<noteq> None then (- 1, kprintf ''[SFS] File already exists: %s\<newline>'' [Str name] s)
      else create_loop SFS_MAX_FILES 0 name ty s)"

definition sfs_delete :: "string \<Rightarrow> 'z sfs_state_scheme \<Rightarrow> int \<times> 'z sfs_state_scheme" where
  "sfs_delete name s =
     (case find_inode name s of
        None \<Rightarrow> (- 1, kprintf ''[SFS] File not found: %s\<newline>'' [Str name] s)
      | Some i \<Rightarrow>
          let freed = of_nat (length (filter (\<lambda>b. b \<noteq> 0) (n_blocks (inodes s ! i))));
              s = s\<lparr>superblock := (superblock s)\<lparr>sb_num_free_blocks := sb_num_free_blocks (superblock s) + freed\<rparr>\<rparr>;
              s = set_inode i ((inodes s ! i)\<lparr>n_ino := 0, n_type := 0, n_size := 0\<rparr>) s;
              s = s\<lparr>superblock := (superblock s)\<lparr>sb_num_free_inodes := sb_num_free_inodes (superblock s) + 1\<rparr>\<rparr>
          in (0, kprintf ''[SFS] Deleted file: %s\<newline>'' [Str name] s))"

definition sfs_read :: "u32 \<Rightarrow> u32 \<Rightarrow> u32 \<Rightarrow> 'z sfs_state_scheme \<Rightarrow> int" where
  "sfs_read ino offset sz s =
     (if ino = 0 \<or> ino > of_nat SFS_MAX_FILES then - 1
      else let inode = inodes s ! unat (ino - 1) in
           if n_ino inode \<noteq> ino then - 1
           else if offset \<ge> n_size inode then 0
           else sint (if offset + sz > n_size inode then n_size inode - offset else sz))"

definition sfs_write :: "u32 \<Rightarrow> u32 \<Rightarrow> u32 \<Rightarrow> 'z sfs_state_scheme \<Rightarrow> int \<times> 'z sfs_state_scheme" where
  "sfs_write ino offset sz s =
     (if ino = 0 \<or> ino > of_nat SFS_MAX_FILES then (- 1, s)
      else let i = unat (ino - 1); inode = inodes s ! i in
           if n_ino inode \<noteq> ino then (- 1, s)
           else (sint sz,
                 if offset + sz > n_size inode then set_inode i (inode\<lparr>n_size := offset + sz\<rparr>) s else s))"

section \<open>The inode table\<close>

text \<open>
  The table's invariant: its size, the number of each inode in use, names as they are stored, and the
  count of free inodes.
\<close>

definition free_inodes :: "'z sfs_state_scheme \<Rightarrow> nat set" where
  "free_inodes s = {i. i < SFS_MAX_FILES \<and> n_ino (inodes s ! i) = 0}"

definition sfs_wf :: "'z sfs_state_scheme \<Rightarrow> bool" where
  "sfs_wf s \<longleftrightarrow> length (inodes s) = SFS_MAX_FILES \<and>
     (\<forall>i < SFS_MAX_FILES. n_ino (inodes s ! i) \<noteq> 0 \<longrightarrow> n_ino (inodes s ! i) = of_nat i + 1 \<and>
        c_string (n_name (inodes s ! i)) \<and> length (n_name (inodes s ! i)) \<le> 27) \<and>
     sb_num_free_inodes (superblock s) = of_nat (card (free_inodes s))"

text \<open>The name of the file in a slot.\<close>

definition entry :: "'z sfs_state_scheme \<Rightarrow> nat \<Rightarrow> string option" where
  "entry s i = (if n_ino (inodes s ! i) \<noteq> 0 then Some (n_name (inodes s ! i)) else None)"

lemma find_inode_loop_first:
  "find_inode_loop k i name s =
     first_index (\<lambda>i. n_ino (inodes s ! i) \<noteq> 0 \<and> names_match SFS_MAX_FILENAME (n_name (inodes s ! i)) name) k i"
  by (induction k i name s rule: find_inode_loop.induct) simp_all

lemma match_entry:
  assumes "sfs_wf s" "c_string name" "i < SFS_MAX_FILES"
  shows "n_ino (inodes s ! i) \<noteq> 0 \<and> names_match SFS_MAX_FILENAME (n_name (inodes s ! i)) name \<longleftrightarrow> entry s i = Some name"
proof (cases "n_ino (inodes s ! i) = 0")
  case False
  then have "names_match SFS_MAX_FILENAME (n_name (inodes s ! i)) name \<longleftrightarrow> n_name (inodes s ! i) = name"
    using assms by (intro names_match_iff) (auto simp: sfs_wf_def)
  with False show ?thesis by (simp add: entry_def)
qed (simp add: entry_def)

lemma find_inode_iff:
  assumes "sfs_wf s" "c_string name"
  shows "find_inode name s = None \<longleftrightarrow> (\<forall>j < SFS_MAX_FILES. entry s j \<noteq> Some name)"
    "find_inode name s = Some j \<longleftrightarrow> j < SFS_MAX_FILES \<and> entry s j = Some name \<and> (\<forall>l < j. entry s l \<noteq> Some name)"
  unfolding find_inode_def find_inode_loop_first first_index_iff
  using match_entry [OF assms] by (meson less_trans)+

lemma find_inode_cong:
  assumes "sfs_wf s" "sfs_wf s'" "c_string name"
    and "\<And>l. l < SFS_MAX_FILES \<Longrightarrow> entry s' l = Some name \<longleftrightarrow> entry s l = Some name"
  shows "find_inode name s' = find_inode name s"
proof (cases "find_inode name s'")
  case None
  with assms show ?thesis by (metis find_inode_iff(1))
next
  case (Some j)
  then have "j < SFS_MAX_FILES" "entry s' j = Some name" "\<forall>l < j. entry s' l \<noteq> Some name"
    using find_inode_iff(2) [OF assms(2,3)] by auto
  then have "find_inode name s = Some j" using assms(4) by (simp add: find_inode_iff(2) [OF assms(1,3)])
  with Some show ?thesis by simp
qed

section \<open>Creating and deleting\<close>

definition created :: "nat \<Rightarrow> u32 \<Rightarrow> string \<Rightarrow> 'z sfs_state_scheme \<Rightarrow> 'z sfs_state_scheme" where
  "created i ty name s =
     (let s = set_inode i (new_inode i ty name) s
      in s\<lparr>superblock := (superblock s)\<lparr>sb_num_free_inodes := sb_num_free_inodes (superblock s) - 1\<rparr>\<rparr>)"

lemma create_loop_first:
  "create_loop k i name ty s =
     (case first_index (\<lambda>i. n_ino (inodes s ! i) = 0) k i of
        None \<Rightarrow> (- 1, kprintf ''[SFS] No free inodes\<newline>'' [] s)
      | Some j \<Rightarrow> (sint (of_nat j + 1 :: u32),
          kprintf ''[SFS] Created file: %s (inode %u)\<newline>'' [Str name, u32_arg (of_nat j + 1)] (created j ty name s)))"
  by (induction k i name ty s rule: create_loop.induct) (simp_all add: created_def Let_def)

lemma sfs_kprintf [simp]:
  "inodes (kprintf f as s) = inodes s" "superblock (kprintf f as s) = superblock s" "sfs_wf (kprintf f as s) = sfs_wf s"
  "entry (kprintf f as s) = entry s" "find_inode name (kprintf f as s) = find_inode name s"
  "free_inodes (kprintf f as s) = free_inodes s"
proof -
  show i: "inodes (kprintf f as s) = inodes s" "superblock (kprintf f as s) = superblock s" by (simp_all add: kprintf_def)
  show "free_inodes (kprintf f as s) = free_inodes s" "entry (kprintf f as s) = entry s"
    by (simp_all add: free_inodes_def entry_def fun_eq_iff i)
  then show "sfs_wf (kprintf f as s) = sfs_wf s" by (simp add: sfs_wf_def i)
  show "find_inode name (kprintf f as s) = find_inode name s"
    by (simp only: find_inode_def find_inode_loop_first i)
qed

lemma ino_nonzero: "i < SFS_MAX_FILES \<Longrightarrow> (of_nat i + 1 :: u32) \<noteq> 0" "i < SFS_MAX_FILES \<Longrightarrow> sint (of_nat i + 1 :: u32) = int i + 1"
proof -
  assume i: "i < SFS_MAX_FILES"
  have "sint (of_nat (Suc i) :: u32) = int (Suc i)"
    using i by (simp only: signed_of_nat) (simp add: signed_take_bit_int_eq_self)
  then show s: "sint (of_nat i + 1 :: u32) = int i + 1" by (simp add: add.commute)
  show "(of_nat i + 1 :: u32) \<noteq> 0"
  proof
    assume "(of_nat i + 1 :: u32) = 0"
    then have "sint (of_nat i + 1 :: u32) = 0" by (simp only: signed_0)
    with s show False by simp
  qed
qed

lemma created_facts:
  fixes ty :: u32
  assumes "sfs_wf s" "i \<in> free_inodes s" "c_string name"
  defines "s' \<equiv> created i ty name s"
  shows "entry s' j = (if j = i then Some (take 27 name) else entry s j)" "free_inodes s' = free_inodes s - {i}" "sfs_wf s'"
proof -
  have i: "i < SFS_MAX_FILES" "length (inodes s) = SFS_MAX_FILES" using assms(1,2) by (simp_all add: free_inodes_def sfs_wf_def)
  have n: "inodes s' = (inodes s)[i := new_inode i ty name]" by (simp add: s'_def created_def Let_def set_inode_def)
  have nn: "n_name (new_inode i ty name) = take 27 name" "n_ino (new_inode i ty name) = of_nat i + 1"
    by (simp_all add: new_inode_def copy_name_take [OF assms(3)])
  show "entry s' j = (if j = i then Some (take 27 name) else entry s j)"
    using i ino_nonzero(1) [OF i(1)] by (simp add: entry_def n nn)
  show f: "free_inodes s' = free_inodes s - {i}"
    using i ino_nonzero(1) [OF i(1)] by (auto simp: free_inodes_def n nn nth_list_update)
  have fin: "finite (free_inodes s)" by (simp add: free_inodes_def)
  have "(of_nat (card (free_inodes s)) :: u32) = of_nat (Suc (card (free_inodes s - {i})))"
    using card_Suc_Diff1 [OF fin assms(2)] by simp
  then have "(of_nat (card (free_inodes s - {i})) :: u32) = of_nat (card (free_inodes s)) - 1" by simp
  then show "sfs_wf s'"
    using assms(1) i c_string_take [OF assms(3), of 27]
    by (auto simp: sfs_wf_def f n nn nth_list_update) (simp add: s'_def created_def Let_def set_inode_def)
qed

definition deleted :: "nat \<Rightarrow> 'z sfs_state_scheme \<Rightarrow> 'z sfs_state_scheme" where
  "deleted i s =
     (let freed = of_nat (length (filter (\<lambda>b. b \<noteq> 0) (n_blocks (inodes s ! i))));
          s = s\<lparr>superblock := (superblock s)\<lparr>sb_num_free_blocks := sb_num_free_blocks (superblock s) + freed\<rparr>\<rparr>;
          s = set_inode i ((inodes s ! i)\<lparr>n_ino := 0, n_type := 0, n_size := 0\<rparr>) s
      in s\<lparr>superblock := (superblock s)\<lparr>sb_num_free_inodes := sb_num_free_inodes (superblock s) + 1\<rparr>\<rparr>)"

lemma deleted_kprintf [simp]: "deleted i (kprintf f as s) = kprintf f as (deleted i s)"
  by (simp add: deleted_def kprintf_def set_inode_def Let_def)

lemma sfs_delete_deleted:
  "find_inode name s = Some i \<Longrightarrow> sfs_delete name s = (0, kprintf ''[SFS] Deleted file: %s\<newline>'' [Str name] (deleted i s))"
  by (simp add: sfs_delete_def deleted_def Let_def)

lemma deleted_facts:
  assumes "sfs_wf s" "i < SFS_MAX_FILES" "entry s i \<noteq> None"
  shows "entry (deleted i s) j = (if j = i then None else entry s j)" "free_inodes (deleted i s) = insert i (free_inodes s)"
    "sfs_wf (deleted i s)"
proof -
  let ?s = "deleted i s"
  have len: "length (inodes s) = SFS_MAX_FILES" using assms(1) by (simp add: sfs_wf_def)
  have n: "inodes ?s = (inodes s)[i := (inodes s ! i)\<lparr>n_ino := 0, n_type := 0, n_size := 0\<rparr>]"
    "sb_num_free_inodes (superblock ?s) = sb_num_free_inodes (superblock s) + 1"
    by (simp_all add: deleted_def Let_def set_inode_def)
  have "i \<notin> free_inodes s" using assms(3) by (auto simp: free_inodes_def entry_def)
  then have card: "card (insert i (free_inodes s)) = Suc (card (free_inodes s))"
    by (subst card_insert_disjoint) (simp_all add: free_inodes_def)
  show "entry ?s j = (if j = i then None else entry s j)" using len assms(2) by (simp add: entry_def n)
  show f: "free_inodes ?s = insert i (free_inodes s)"
    using len assms(2) by (auto simp: free_inodes_def n nth_list_update)
  show "sfs_wf ?s"
    using assms(1,2) len unfolding sfs_wf_def f n card by (auto simp: nth_list_update)
qed

text \<open>What a call of \<open>sfs_create\<close> does for a name that is not in the table.\<close>

lemma sfs_create_absent:
  assumes "sfs_wf s" "c_string name" "find_inode name s = None" "free_inodes s \<noteq> {}"
  obtains i where "i \<in> free_inodes s" "\<forall>j \<in> free_inodes s. i \<le> j" "fst (sfs_create name ty s) = int i + 1"
    "snd (sfs_create name ty s) = kprintf ''[SFS] Created file: %s (inode %u)\<newline>''
       [Str name, u32_arg (of_nat i + 1)] (created i ty name s)"
proof -
  obtain j where "j < SFS_MAX_FILES" "n_ino (inodes s ! j) = 0" using assms(4) by (auto simp: free_inodes_def)
  then have "first_index (\<lambda>i. n_ino (inodes s ! i) = 0) SFS_MAX_FILES 0 \<noteq> None" unfolding first_index_iff(1) by blast
  then obtain i where i: "first_index (\<lambda>i. n_ino (inodes s ! i) = 0) SFS_MAX_FILES 0 = Some i" by blast
  then have j: "i < SFS_MAX_FILES" "n_ino (inodes s ! i) = 0" "\<forall>l < i. n_ino (inodes s ! l) \<noteq> 0"
    unfolding first_index_iff by auto
  have "i \<in> free_inodes s" "\<forall>j \<in> free_inodes s. i \<le> j" using j by (auto simp: free_inodes_def not_less [symmetric])
  with that [of i] show thesis
    using assms(3) i ino_nonzero(2) [OF j(1)] by (simp add: sfs_create_def create_loop_first del: SFS_MAX_FILES_def)
qed

lemma create_then_delete:
  fixes ty :: u32
  assumes "sfs_wf s" "c_string name" "length name \<le> 27" "find_inode name s = None" "free_inodes s \<noteq> {}"
  defines "i \<equiv> Min (free_inodes s)"
  defines "c \<equiv> created i ty name s"
  shows "sfs_create name ty s = (int i + 1, kprintf ''[SFS] Created file: %s (inode %u)\<newline>''
       [Str name, u32_arg (of_nat i + 1)] c) \<and>
    find_inode name c = Some i \<and> sfs_wf c \<and> (\<forall>other. c_string other \<and> other \<noteq> name \<longrightarrow> find_inode other c = find_inode other s) \<and>
    find_inode name (deleted i c) = None \<and> free_inodes (deleted i c) = free_inodes s \<and> sfs_wf (deleted i c)"
proof -
  obtain j where j: "j \<in> free_inodes s" "\<forall>k \<in> free_inodes s. j \<le> k" "fst (sfs_create name ty s) = int j + 1"
    "snd (sfs_create name ty s) = kprintf ''[SFS] Created file: %s (inode %u)\<newline>''
       [Str name, u32_arg (of_nat j + 1)] (created j ty name s)"
    using sfs_create_absent [OF assms(1,2,4,5)] by blast
  have "finite (free_inodes s)" by (simp add: free_inodes_def)
  then have "j = i" using j(1,2) unfolding i_def by (metis Min_eqI)
  note i = j [unfolded this, folded c_def]
  note k = created_facts [OF assms(1) i(1) assms(2), where ty = ty, folded c_def]
  have i64: "i < SFS_MAX_FILES" using i(1) by (simp add: free_inodes_def)
  have e: "entry c l = (if l = i then Some name else entry s l)" for l using k(1) assms(3) by simp
  have ne: "entry s i = None" using i(1) by (simp add: entry_def free_inodes_def)
  have absent: "\<forall>l < SFS_MAX_FILES. entry s l \<noteq> Some name" using find_inode_iff(1) [OF assms(1,2)] assms(4) by simp
  have f: "find_inode name c = Some i"
    unfolding find_inode_iff(2) [OF k(3) assms(2)] using i64 absent e by auto
  have o: "find_inode other c = find_inode other s" if "c_string other" "other \<noteq> name" for other
    using that ne by (intro find_inode_cong [OF assms(1) k(3)]) (auto simp: e)
  have ei: "entry c i \<noteq> None" by (simp add: e)
  note d = deleted_facts [OF k(3) i64 ei]
  have gone: "find_inode name (deleted i c) = None"
    unfolding find_inode_iff(1) [OF d(3) assms(2)] using absent by (auto simp: d(1) e)
  have fr: "free_inodes (deleted i c) = free_inodes s" using d(2) k(2) i(1) by auto
  show ?thesis using i(3,4) f k(3) o gone fr d(3) by (metis prod.collapse)
qed

lemma sfs_create_full:
  assumes "free_inodes s = {}"
  shows "fst (sfs_create name ty s) = - 1 \<and> inodes (snd (sfs_create name ty s)) = inodes s \<and>
    superblock (snd (sfs_create name ty s)) = superblock s"
proof -
  have "first_index (\<lambda>i. n_ino (inodes s ! i) = 0) SFS_MAX_FILES 0 = None"
    unfolding first_index_iff(1) using assms by (auto simp: free_inodes_def)
  then show ?thesis by (simp add: sfs_create_def create_loop_first del: SFS_MAX_FILES_def)
qed

section \<open>Properties\<close>

text \<open>
  C33: files with names of at most 27 characters. Creating one whose name is taken, or when the table
  is full, returns -1 and changes no inode. Otherwise it gets the first free inode, is found under its
  name, no other lookup changes, and deleting it brings back exactly the free inodes there were; the
  table's invariant, with its count of free inodes, is kept throughout.
\<close>

theorem sfs_create_delete:
  assumes "sfs_wf s" "c_string name" "length name \<le> 27"
  shows "let (r, s1) = sfs_create name ty s; (r', s2) = sfs_delete name s1 in
    if find_inode name s \<noteq> None \<or> free_inodes s = {} then r = - 1 \<and> inodes s1 = inodes s \<and> sfs_wf s1
    else r = int (Min (free_inodes s)) + 1 \<and> find_inode name s1 = Some (Min (free_inodes s)) \<and> sfs_wf s1 \<and>
      (\<forall>other. c_string other \<and> other \<noteq> name \<longrightarrow> find_inode other s1 = find_inode other s) \<and>
      r' = 0 \<and> find_inode name s2 = None \<and> free_inodes s2 = free_inodes s \<and> sfs_wf s2"
proof -
  consider (taken) "find_inode name s \<noteq> None" | (full) "free_inodes s = {}"
    | (new) "find_inode name s = None" "free_inodes s \<noteq> {}" by blast
  then show ?thesis
  proof cases
    case taken
    then show ?thesis using assms(1) by (simp add: sfs_create_def Let_def case_prod_beta)
  next
    case full
    note f = sfs_create_full [OF full, of name ty]
    then have "sfs_wf (snd (sfs_create name ty s))" using assms(1) by (simp add: sfs_wf_def free_inodes_def)
    with f full show ?thesis by (simp add: Let_def case_prod_beta)
  next
    case new
    from create_then_delete [OF assms new, where ty = ty] show ?thesis
      using new sfs_delete_deleted [of name "snd (sfs_create name ty s)"] by (auto simp: Let_def)
  qed
qed

text \<open>
  A name of 28 or more characters is stored cut to 27, but looked up in full, and so never found:
  creating the same file twice gives two inodes with the same name, and none can be deleted.
\<close>

theorem sfs_long_names:
  assumes "sfs_wf s" "c_string name" "27 < length name" "2 \<le> card (free_inodes s)"
  shows "let (r1, s1) = sfs_create name ty s; (r2, s2) = sfs_create name ty s1 in
    0 < r1 \<and> r1 < r2 \<and> entry s2 (nat r1 - 1) = Some (take 27 name) \<and> entry s2 (nat r2 - 1) = Some (take 27 name) \<and>
    fst (sfs_delete name s2) = - 1"
proof -
  have nf: "find_inode name t = None" if "sfs_wf t" for t :: "'a sfs_state_scheme"
    unfolding find_inode_iff(1) [OF that assms(2)] using that assms(3) by (auto simp: entry_def sfs_wf_def)
  have fin: "finite (free_inodes s)" by (simp add: free_inodes_def)
  have "free_inodes s \<noteq> {}" using assms(4) by auto
  from sfs_create_absent [OF assms(1,2) nf [OF assms(1)] this, of ty] obtain i where
    i: "i \<in> free_inodes s" "\<forall>j \<in> free_inodes s. i \<le> j" "fst (sfs_create name ty s) = int i + 1"
      "snd (sfs_create name ty s) = kprintf ''[SFS] Created file: %s (inode %u)\<newline>''
         [Str name, u32_arg (of_nat i + 1)] (created i ty name s)" by blast
  let ?s1 = "snd (sfs_create name ty s)"
  note c = created_facts [OF assms(1) i(1) assms(2), where ty = ty]
  have f1: "free_inodes ?s1 = free_inodes s - {i}" and w1: "sfs_wf ?s1" using c by (simp_all add: i(4))
  have "free_inodes ?s1 \<noteq> {}"
  proof
    assume "free_inodes ?s1 = {}"
    then have "free_inodes s \<subseteq> {i}" using f1 by auto
    from card_mono [OF _ this] assms(4) show False by simp
  qed
  from sfs_create_absent [OF w1 assms(2) nf [OF w1] this, of ty] obtain j where
    j: "j \<in> free_inodes ?s1" "fst (sfs_create name ty ?s1) = int j + 1"
      "snd (sfs_create name ty ?s1) = kprintf ''[SFS] Created file: %s (inode %u)\<newline>''
         [Str name, u32_arg (of_nat j + 1)] (created j ty name ?s1)" by blast
  let ?s2 = "snd (sfs_create name ty ?s1)"
  note d = created_facts [OF w1 j(1) assms(2), where ty = ty]
  have "i < j" using i(2) j(1) f1 by fastforce
  moreover have "sfs_wf ?s2" using d(3) by (simp add: j(3))
  moreover have "entry ?s2 k = (if k = j then Some (take 27 name) else entry ?s1 k)" for k using d(1) by (simp add: j(3))
  moreover have "entry ?s1 k = (if k = i then Some (take 27 name) else entry s k)" for k using c(1) by (simp add: i(4))
  moreover have "nat (int k + 1) = Suc k" for k by (simp add: nat_add_distrib)
  ultimately show ?thesis
    using i(3) j(2) nf [of ?s2] by (simp add: Let_def case_prod_beta sfs_delete_def)
qed

text \<open>
  C34: reading and writing by inode number. A write returns the requested number, as a signed 32-bit
  value. As long as the end of the range stays below \<open>2\<^sup>3\<^sup>2\<close>, a write makes the file reach to its end and a
  read returns what is left of the file at most. When the end wraps around, a write returns the same
  although the file ends before the end of the range: its size becomes the maximum of the old size and
  the wrapped sum, which is below the offset. A read that starts
  inside the file then returns, unless the wrapped sum is behind the end of the file, the requested
  number, which is more than the file has left.
\<close>

theorem sfs_read_write_sizes:
  assumes "sfs_wf s" "i < SFS_MAX_FILES" "entry s i \<noteq> None"
  defines "ino \<equiv> of_nat i + 1" and "len \<equiv> n_size (inodes s ! i)"
  shows "let len' = n_size (inodes (snd (sfs_write ino off n s)) ! i) in
    fst (sfs_write ino off n s) = sint n \<and>
    (if unat off + unat n < 2 ^ 32
     then len' = max len (off + n) \<and> sfs_read ino off n s = (if off < len then sint (min n (len - off)) else 0)
     else len' = max len (off + n) \<and> off + n < off \<and> unat len' < unat off + unat n \<and>
       sfs_read ino off n s = (if off < len then sint (if off + n \<le> len then n else len - off) else 0) \<and>
       (off < len \<longrightarrow> len - off < n))"
proof -
  let ?n = "inodes s ! i"
  have l: "length (inodes s) = SFS_MAX_FILES" using assms(1) by (simp add: sfs_wf_def)
  have nz: "ino \<noteq> 0" unfolding ino_def by (rule ino_nonzero(1) [OF assms(2)])
  have u: "unat (ino - 1) = i" using assms(2) by (simp add: ino_def unsigned_of_nat take_bit_nat_eq_self)
  have "unat (of_nat (Suc i) :: u32) = Suc i"
    using assms(2) by (simp only: unsigned_of_nat) (simp add: take_bit_nat_eq_self)
  then have "unat ino = i + 1" by (simp add: ino_def add.commute)
  then have le: "\<not> ino > of_nat SFS_MAX_FILES" using assms(2) by (simp add: word_less_nat_alt)
  have ni: "n_ino ?n = ino" using assms(1-3) by (auto simp: sfs_wf_def entry_def ino_def split: if_splits)
  have w: "sfs_write ino off n s = (sint n, if off + n > len then set_inode i (?n\<lparr>n_size := off + n\<rparr>) s else s)"
    using nz le ni by (simp add: sfs_write_def Let_def u len_def)
  have r: "sfs_read ino off n s = (if off \<ge> len then 0 else sint (if off + n > len then len - off else n))"
    using nz le ni by (simp add: sfs_read_def Let_def u len_def)
  have len': "n_size (inodes (snd (sfs_write ino off n s)) ! i) = max len (off + n)"
    using l assms(2) by (auto simp: w set_inode_def len_def max_def dest: less_imp_le)
  show ?thesis
  proof (cases "unat off + unat n < 2 ^ 32")
    case True
    have sum: "unat (off + n) = unat off + unat n" by (rule unat_add32 [OF True])
    have "(if off + n > len then len - off else n) = min n (len - off)" if "off < len"
    proof -
      have "unat (len - off) = unat len - unat off" using that by (simp add: unat_sub32 order.strict_implies_order)
      then show ?thesis using sum that by (auto simp: min_def word_less_nat_alt word_le_nat_alt)
    qed
    then show ?thesis using True len' by (auto simp: Let_def w r not_le)
  next
    case False
    have "unat (off + n) = unat off + unat n - 2 ^ 32"
      using False unat_lt32 [of off] unat_lt32 [of n] by (simp add: unat_word_ariths mod_if)
    then have o: "off + n < off" using False unat_lt32 [of n] by (simp add: word_less_nat_alt)
    have "unat (max len (off + n)) < unat off + unat n"
      using False o unat_lt32 [of len] unat_lt32 [of "off + n"] by (simp add: max_def)
    moreover have "len - off < n" if "off < len"
      using that False unat_lt32 [of len] unat_sub32 [of off len] by (simp add: word_less_nat_alt order.strict_implies_order)
    ultimately show ?thesis using False len' o by (auto simp: Let_def w r)
  qed
qed


section \<open>Witnesses\<close>

definition blank_inode :: sfs_inode_t where
  "blank_inode = \<lparr>n_ino = 0, n_type = 0, n_size = 0, n_blocks = replicate 12 0, n_name = []\<rparr>"

text \<open>An empty table, and one with a file of 10 bytes in its first slot.\<close>

definition sample_sfs :: sfs_state where
  "sample_sfs = testdev_state.extend sample_testdev (sfs_state.fields
     \<lparr>sb_magic = SFS_MAGIC, sb_block_size = SFS_BLOCK_SIZE, sb_num_blocks = 256, sb_num_inodes = 64,
      sb_num_free_blocks = 256, sb_num_free_inodes = 64\<rparr> (replicate 64 blank_inode) 0)"

lemma sample_sfs_facts: "inodes sample_sfs = replicate 64 blank_inode" "free_inodes sample_sfs = {..<64}" "sfs_wf sample_sfs"
proof -
  show i: "inodes sample_sfs = replicate 64 blank_inode"
    by (simp add: sample_sfs_def testdev_state.defs sfs_state.defs)
  then show f: "free_inodes sample_sfs = {..<64}" by (auto simp: free_inodes_def blank_inode_def)
  have "sb_num_free_inodes (superblock sample_sfs) = 64" by (simp add: sample_sfs_def testdev_state.defs sfs_state.defs)
  then show "sfs_wf sample_sfs" by (simp add: sfs_wf_def i f) (simp add: blank_inode_def)
qed

theorem sfs_create_delete_witness:
  "sfs_wf sample_sfs \<and> fst (sfs_create ''testfile'' VFS_FILE sample_sfs) = 1 \<and>
     find_inode ''testfile'' (snd (sfs_create ''testfile'' VFS_FILE sample_sfs)) = Some 0"
proof -
  have n: "c_string ''testfile''" "length ''testfile'' \<le> 27" by (simp_all add: c_string_def)
  have m: "Min (free_inodes sample_sfs) = 0" unfolding sample_sfs_facts(2) by (intro Min_eqI) auto
  have "find_inode ''testfile'' sample_sfs = None"
    unfolding find_inode_iff(1) [OF sample_sfs_facts(3) n(1)] by (simp add: entry_def sample_sfs_facts(1) blank_inode_def)
  with sfs_create_delete [OF sample_sfs_facts(3) n, of VFS_FILE] m sample_sfs_facts(2,3)
  show ?thesis by (simp add: Let_def case_prod_beta lessThan_empty_iff)
qed

theorem sfs_long_names_witness:
  "let name = replicate 28 (CHR ''x''); s1 = snd (sfs_create name 1 sample_sfs) in
     fst (sfs_create name 1 sample_sfs) < fst (sfs_create name 1 s1)"
proof -
  have "c_string (replicate 28 (CHR ''x''))" "27 < length (replicate 28 (CHR ''x''))" "2 \<le> card (free_inodes sample_sfs)"
    by (simp_all add: c_string_def sample_sfs_facts(2))
  from sfs_long_names [OF sample_sfs_facts(3) this, of 1] show ?thesis by (simp add: Let_def case_prod_beta)
qed

theorem sfs_read_write_sizes_witness:
  "let s = created 0 VFS_FILE ''f'' sample_sfs in
     sfs_wf s \<and> n_size (inodes (snd (sfs_write 1 6 4 s)) ! 0) = 10"
proof -
  have z: "0 \<in> free_inodes sample_sfs" and n: "c_string ''f''" by (simp_all add: sample_sfs_facts(2) c_string_def)
  let ?s = "created 0 VFS_FILE ''f'' sample_sfs"
  note c = created_facts [OF sample_sfs_facts(3) z n, where ty = VFS_FILE]
  have e: "entry ?s 0 \<noteq> None" using c(1) by simp
  have "n_size (inodes ?s ! 0) = 0"
    by (simp add: created_def set_inode_def Let_def new_inode_def sample_sfs_facts(1))
  with sfs_read_write_sizes [OF c(3) _ e, of 6 4] c(3) show ?thesis by (simp add: Let_def max_def)
qed

end
