(* ===== verification/Syscall.thy ===== *)
theory Syscall
  imports Simplefs
begin

text \<open>
  The system calls (\<open>kernel/syscall/syscall.c\<close>). The console is a list of characters that have been
  received and not yet read; a call that waits for a character that never comes does not return,
  which is \<open>None\<close>. User buffers and path names are read and written byte by byte.
\<close>

section \<open>State\<close>

definition SYS_READ :: u64 where [simp]: "SYS_READ = 0"
definition SYS_WRITE :: u64 where [simp]: "SYS_WRITE = 1"
definition SYS_FORK :: u64 where [simp]: "SYS_FORK = 2"
definition SYS_EXEC :: u64 where [simp]: "SYS_EXEC = 3"
definition SYS_EXIT :: u64 where [simp]: "SYS_EXIT = 4"
definition SYS_OPEN :: u64 where [simp]: "SYS_OPEN = 5"
definition SYS_CLOSE :: u64 where [simp]: "SYS_CLOSE = 6"
definition SYS_GETPID :: u64 where [simp]: "SYS_GETPID = 7"
definition SYS_YIELD :: u64 where [simp]: "SYS_YIELD = 8"
definition SYSCALL_ERROR :: u64 where [simp]: "SYSCALL_ERROR = - 1"

record sys_state = sfs_state +
  console_in :: string
  bytes :: "addr \<Rightarrow> char"

text \<open>\<open>uart_getc\<close> on the list of received characters.\<close>

definition getc :: "'z sys_state_scheme \<Rightarrow> (char \<times> 'z sys_state_scheme) option" where
  "getc s = (case console_in s of [] \<Rightarrow> None | c # cs \<Rightarrow> Some (c, s\<lparr>console_in := cs\<rparr>))"

text \<open>The string at an address; there may be no terminator.\<close>

partial_function (option) string_at :: "(addr \<Rightarrow> char) \<Rightarrow> addr \<Rightarrow> string option" where
  "string_at m a =
     (if m a = CHR 0x00 then Some []
      else Option.bind (string_at m (a + 1)) (\<lambda>cs. Some (m a # cs)))"

section \<open>Operations\<close>

definition syscall_init :: "'z sys_state_scheme \<Rightarrow> 'z sys_state_scheme" where
  "syscall_init s = s"

text \<open>The loop of \<open>SYS_READ\<close>: \<open>k\<close> characters to go at number \<open>i\<close>.\<close>

fun sys_read_loop :: "nat \<Rightarrow> nat \<Rightarrow> addr \<Rightarrow> 'z sys_state_scheme \<Rightarrow> (u64 \<times> 'z sys_state_scheme) option" where
  "sys_read_loop 0 i buf s = Some (of_nat i, s)"
| "sys_read_loop (Suc k) i buf s =
     (case getc s of
        None \<Rightarrow> None
      | Some (c, s) \<Rightarrow>
          let s = s\<lparr>bytes := (bytes s)(buf + of_nat i := c)\<rparr>
          in if c = CHR 0x0A then Some (of_nat i + 1, s) else sys_read_loop k (Suc i) buf s)"

fun sys_write_loop :: "nat \<Rightarrow> nat \<Rightarrow> addr \<Rightarrow> 'z sys_state_scheme \<Rightarrow> 'z sys_state_scheme" where
  "sys_write_loop 0 i buf s = s"
| "sys_write_loop (Suc k) i buf s = sys_write_loop k (Suc i) buf (kputc (bytes s (buf + of_nat i)) s)"

text \<open>
  The result of the call. For \<open>SYS_YIELD\<close> the state is that at the switch; the call returns when the
  process is switched to again.
\<close>

definition syscall_handler ::
  "(addr \<Rightarrow> 'z sys_state_scheme file_ops_t) \<Rightarrow> u64 \<Rightarrow> u64 \<Rightarrow> u64 \<Rightarrow> u64 \<Rightarrow> 'z sys_state_scheme \<Rightarrow>
     (u64 \<times> 'z sys_state_scheme) option" where
  "syscall_handler ops_at num arg0 arg1 arg2 s =
     (if num = SYS_READ then sys_read_loop (unat arg1) 0 arg0 s
      else if num = SYS_WRITE then Some (arg1, sys_write_loop (unat arg1) 0 arg0 s)
      else if num = SYS_FORK then Some (SYSCALL_ERROR, kprintf ''[SYSCALL] fork() not implemented\<newline>'' [] s)
      else if num = SYS_EXEC then Some (SYSCALL_ERROR, kprintf ''[SYSCALL] exec() not implemented\<newline>'' [] s)
      else if num = SYS_EXIT then
        Some (0, kprintf ''[SYSCALL] Process exit with code %u\<newline>'' [u32_arg (ucast arg0)] s)
      else if num = SYS_OPEN then
        Option.bind (string_at (bytes s) arg0) (\<lambda>path.
          case vfs_open ops_at path (ucast arg1) s of (file, s) \<Rightarrow>
            Some (if file = NULL then SYSCALL_ERROR else file, s))
      else if num = SYS_CLOSE then
        (case vfs_close ops_at arg0 s of (r, s) \<Rightarrow> Some (word_of_int r, s))
      else if num = SYS_GETPID then
        Some (case current_proc s of None \<Rightarrow> 0 | Some r \<Rightarrow> p_pid (get_proc s r), s)
      else if num = SYS_YIELD then Some (0, snd (sched_yield s))
      else Some (SYSCALL_ERROR, kprintf ''[SYSCALL] Unknown syscall: %u\<newline>'' [u32_arg (ucast num)] s))"

section \<open>Reading a line\<close>

text \<open>What \<open>SYS_READ\<close> takes from the input: up to \<open>n\<close> characters, not beyond the first line feed.\<close>

fun take_line :: "nat \<Rightarrow> string \<Rightarrow> string option" where
  "take_line 0 cs = Some []"
| "take_line (Suc n) [] = None"
| "take_line (Suc n) (c # cs) = (if c = CHR 0x0A then Some [c] else map_option (Cons c) (take_line n cs))"

text \<open>A string stored at consecutive addresses.\<close>

fun store_string :: "addr \<Rightarrow> string \<Rightarrow> (addr \<Rightarrow> char) \<Rightarrow> addr \<Rightarrow> char" where
  "store_string a [] m = m"
| "store_string a (c # cs) m = store_string (a + 1) cs (m(a := c))"

lemma sys_read_loop_line:
  "sys_read_loop k i buf s =
     map_option (\<lambda>l. (of_nat (i + length l), s\<lparr>console_in := drop (length l) (console_in s),
        bytes := store_string (buf + of_nat i) l (bytes s)\<rparr>)) (take_line k (console_in s))"
proof (induction k i buf s rule: sys_read_loop.induct)
  case (2 k i buf s)
  show ?case
  proof (cases "console_in s")
    case (Cons c cs)
    let ?s = "s\<lparr>console_in := cs, bytes := (bytes s)(buf + of_nat i := c)\<rparr>"
    have g: "getc s = Some (c, s\<lparr>console_in := cs\<rparr>)" by (simp add: getc_def Cons)
    show ?thesis
    proof (cases "c = CHR 0x0A")
      case True
      with Cons show ?thesis by (simp add: g add.commute)
    next
      case False
      have "sys_read_loop (Suc k) i buf s = sys_read_loop k (Suc i) buf ?s" using False by (simp add: g)
      also have "\<dots> = map_option (\<lambda>l. (of_nat (Suc i + length l), ?s\<lparr>console_in := drop (length l) (console_in ?s),
        bytes := store_string (buf + of_nat (Suc i)) l (bytes ?s)\<rparr>)) (take_line k (console_in ?s))"
        using "2.IH" [OF g refl refl] False by (simp add: fun_upd_def)
      finally show ?thesis
        using False Cons by (cases "take_line k cs") (simp_all add: algebra_simps)
    qed
  qed (simp add: getc_def)
qed simp

lemma sys_write_loop_log:
  "klog (sys_write_loop k i buf s) = klog s @ map (\<lambda>j. LPutc (bytes s (buf + of_nat j))) [i..<i + k] \<and>
   (sys_write_loop k i buf s)\<lparr>klog := l\<rparr> = s\<lparr>klog := l\<rparr>"
proof (induction k i buf s rule: sys_write_loop.induct)
  case (2 k i buf s)
  have "[i..<i + Suc k] = i # [Suc i..<Suc i + k]" by (simp add: upt_conv_Cons)
  with 2 show ?case by (simp add: kputc_def)
qed simp

text \<open>
  C35: \<open>SYS_READ\<close> stores the next characters of the console in the user's buffer, up to the length
  asked for and not beyond the first line feed, returns their number, and leaves the rest of the
  input; it returns as soon as that many characters are there, and otherwise waits. \<open>SYS_WRITE\<close> sends
  the bytes of the buffer and returns their number.
\<close>

theorem syscall_console:
  "syscall_handler ops_at SYS_READ buf n a s =
     (case take_line (unat n) (console_in s) of
        None \<Rightarrow> None
      | Some l \<Rightarrow> Some (of_nat (length l), s\<lparr>console_in := drop (length l) (console_in s),
          bytes := store_string buf l (bytes s)\<rparr>)) \<and>
   (\<exists>s'. syscall_handler ops_at SYS_WRITE buf n a s = Some (n, s') \<and> s'\<lparr>klog := klog s\<rparr> = s \<and>
      klog s' = klog s @ map (\<lambda>j. LPutc (bytes s (buf + of_nat j))) [0..<unat n])"
  using sys_write_loop_log [of "unat n" 0 buf s "klog s"]
  by (simp add: syscall_handler_def sys_read_loop_line split: option.split)

end
