(* ===== verification/Trap.thy ===== *)
theory Trap
  imports Sched_System
begin

text \<open>
  Trap handling (\<open>kernel/trap/trap.c\<close>): enabling interrupts, and the dispatch of the trap handler on the
  cause register. \<open>trap_entry\<close>, the assembly that calls it, is a parameter: only its address is used.
\<close>

section \<open>Causes\<close>

definition CAUSE_MISALIGNED_FETCH :: u64 where [simp]: "CAUSE_MISALIGNED_FETCH = 0"
definition CAUSE_FETCH_ACCESS :: u64 where [simp]: "CAUSE_FETCH_ACCESS = 1"
definition CAUSE_ILLEGAL_INSTRUCTION :: u64 where [simp]: "CAUSE_ILLEGAL_INSTRUCTION = 2"
definition CAUSE_BREAKPOINT :: u64 where [simp]: "CAUSE_BREAKPOINT = 3"
definition CAUSE_MISALIGNED_LOAD :: u64 where [simp]: "CAUSE_MISALIGNED_LOAD = 4"
definition CAUSE_LOAD_ACCESS :: u64 where [simp]: "CAUSE_LOAD_ACCESS = 5"
definition CAUSE_MISALIGNED_STORE :: u64 where [simp]: "CAUSE_MISALIGNED_STORE = 6"
definition CAUSE_STORE_ACCESS :: u64 where [simp]: "CAUSE_STORE_ACCESS = 7"
definition CAUSE_USER_ECALL :: u64 where [simp]: "CAUSE_USER_ECALL = 8"
definition CAUSE_SUPERVISOR_ECALL :: u64 where [simp]: "CAUSE_SUPERVISOR_ECALL = 9"

section \<open>Operations\<close>

definition trap_init :: "addr \<Rightarrow> 'z sched_state_scheme \<Rightarrow> 'z sched_state_scheme" where
  "trap_init trap_entry s =
     (let s = kprintf ''[TRAP] Initializing trap handling\<newline>'' [] s;
          s = w_stvec trap_entry s;
          s = w_sie (r_sie s OR SIE_SEIE OR SIE_STIE OR SIE_SSIE) s;
          s = w_sstatus (r_sstatus s OR SSTATUS_SIE) s
      in kprintf ''[TRAP] Trap vector set to %p\<newline>'' [Num (r_stvec s)] s)"

text \<open>The message for an exception.\<close>

definition exception_message :: "u64 \<Rightarrow> string \<times> varg list" where
  "exception_message scause =
     (if scause = CAUSE_MISALIGNED_FETCH then (''  Instruction address misaligned\<newline>'', [])
      else if scause = CAUSE_FETCH_ACCESS then (''  Instruction access fault\<newline>'', [])
      else if scause = CAUSE_ILLEGAL_INSTRUCTION then (''  Illegal instruction\<newline>'', [])
      else if scause = CAUSE_BREAKPOINT then (''  Breakpoint\<newline>'', [])
      else if scause = CAUSE_MISALIGNED_LOAD then (''  Load address misaligned\<newline>'', [])
      else if scause = CAUSE_LOAD_ACCESS then (''  Load access fault\<newline>'', [])
      else if scause = CAUSE_MISALIGNED_STORE then (''  Store address misaligned\<newline>'', [])
      else if scause = CAUSE_STORE_ACCESS then (''  Store access fault\<newline>'', [])
      else if scause = CAUSE_USER_ECALL then (''  Environment call from U-mode\<newline>'', [])
      else if scause = CAUSE_SUPERVISOR_ECALL then (''  Environment call from S-mode\<newline>'', [])
      else (''  Unknown exception: %u\<newline>'', [u32_arg (ucast scause)]))"

text \<open>The value returned says whether the handler has left for another context.\<close>

definition trap_handler :: "'z sched_state_scheme \<Rightarrow> (bool, 'z sched_state_scheme) outcome" where
  "trap_handler s =
     (let scause = r_scause s; sepc = r_sepc s; stval = r_stval s in
      if scause AND INTERRUPT_BIT \<noteq> 0 then
        let int_num = scause AND NOT INTERRUPT_BIT in
        if int_num = 1 then Ret False (kprintf ''[TRAP] Software interrupt\<newline>'' [] s)
        else if int_num = 5 then (case sched_tick s of (left, s) \<Rightarrow> Ret left s)
        else if int_num = 9 then Ret False (kprintf ''[TRAP] External interrupt\<newline>'' [] s)
        else Ret False (kprintf ''[TRAP] Unknown interrupt: %u\<newline>'' [u32_arg (ucast int_num)] s)
      else
        let s = kprintf ''\<newline>[TRAP] Exception occurred!\<newline>'' [] s;
            s = kprintf ''  scause: %p\<newline>'' [Num scause] s;
            s = kprintf ''  sepc:   %p\<newline>'' [Num sepc] s;
            s = kprintf ''  stval:  %p\<newline>'' [Num stval] s;
            (msg, args) = exception_message scause
        in panic ''Unhandled exception'' (kprintf msg args s))"

section \<open>Properties\<close>

lemma bit_INTERRUPT: "bit INTERRUPT_BIT n \<longleftrightarrow> n = 63"
  unfolding INTERRUPT_BIT_def bit_push_bit_iff by (auto simp: possible_bit_word)

lemma interrupt_bit: "scause AND INTERRUPT_BIT \<noteq> 0 \<longleftrightarrow> bit scause 63"
proof -
  have b: "bit (scause AND INTERRUPT_BIT) n \<longleftrightarrow> n = 63 \<and> bit scause 63" for n
    unfolding bit_and_iff bit_INTERRUPT by auto
  show ?thesis unfolding bit_eq_iff [of "scause AND INTERRUPT_BIT" 0] b by (auto simp: possible_bit_word)
qed

lemma timer_only:
  assumes "bit scause 63" "scause AND NOT INTERRUPT_BIT = 5"
  shows "scause = 0x8000000000000005"
proof -
  have "scause = (scause AND NOT INTERRUPT_BIT) OR INTERRUPT_BIT"
    by (rule bit_eqI) (use assms(1) in \<open>auto simp: bit_or_iff bit_and_iff bit_not_iff bit_INTERRUPT possible_bit_word simp del: INTERRUPT_BIT_def\<close>)
  also have "\<dots> = 0x8000000000000005" unfolding assms(2) by simp
  finally show ?thesis .
qed

text \<open>The cause registers of a timer interrupt and of a system call.\<close>

lemma timer_cause: "(0x8000000000000005 :: u64) AND INTERRUPT_BIT \<noteq> 0" "(0x8000000000000005 :: u64) AND NOT INTERRUPT_BIT = 5"
  "(8 :: u64) AND INTERRUPT_BIT = 0"
  by simp_all

text \<open>
  C26: a trap returns exactly when it is an interrupt; every exception, a system call from user mode
  included, halts the kernel in \<open>panic\<close>. A timer interrupt runs \<open>sched_tick\<close> and nothing else, and keeps
  the scheduler's invariant and processes; every other interrupt only writes to the log.
\<close>

theorem trap_dispatch:
  assumes "sched_wf s"
  shows "returns (trap_handler s) = bit (csr_scause s) 63 \<and>
    (csr_scause s = 0x8000000000000005 \<longrightarrow>
      trap_handler s = Ret (fst (sched_tick s)) (snd (sched_tick s)) \<and>
      sched_wf (snd (sched_tick s)) \<and> tracked (snd (sched_tick s)) = tracked s) \<and>
    (csr_scause s \<noteq> 0x8000000000000005 \<longrightarrow> (end_state (trap_handler s))\<lparr>klog := klog s\<rparr> = s)"
proof -
  have log: "(kprintf f as t)\<lparr>klog := l\<rparr> = t\<lparr>klog := l\<rparr>" for f as l and t :: "'a sched_state_scheme"
    by (simp add: kprintf_def)
  have ret: "returns (trap_handler s) = bit (csr_scause s) 63"
    unfolding trap_handler_def Let_def r_scause_def interrupt_bit by (simp split: prod.split)
  have "(end_state (trap_handler s))\<lparr>klog := klog s\<rparr> = s" if "csr_scause s \<noteq> 0x8000000000000005"
    using that timer_only [of "csr_scause s"]
    unfolding trap_handler_def Let_def r_scause_def interrupt_bit
    by (auto simp: log panic_def split: prod.split simp del: INTERRUPT_BIT_def)
  moreover have "trap_handler s = Ret (fst (sched_tick s)) (snd (sched_tick s))" if "csr_scause s = 0x8000000000000005"
    using timer_cause that by (simp add: trap_handler_def Let_def r_scause_def case_prod_beta del: INTERRUPT_BIT_def)
  ultimately show ?thesis using ret sched_tick_keeps [OF assms] by blast
qed

theorem trap_dispatch_witness:
  "sched_wf sample_run \<and> \<not> returns (trap_handler (sample_run\<lparr>csr_scause := 8\<rparr>)) \<and>
     returns (trap_handler (sample_run\<lparr>csr_scause := 0x8000000000000005\<rparr>))"
proof -
  have w: "sched_wf (sample_run\<lparr>csr_scause := c\<rparr>)" for c
    using sample_run_facts(1) sched_frame(1) [of "sample_run\<lparr>csr_scause := c\<rparr>" sample_run] by simp
  show ?thesis using trap_dispatch [OF w, of 8] trap_dispatch [OF w, of "0x8000000000000005"] sample_run_facts(1)
    by (simp add: bit_numeral_rec)
qed

end
