(* ===== verification/Uart.thy ===== *)
theory Uart
  imports Machine
begin

text \<open>
  The UART driver (\<open>drivers/uart/uart.c\<close>): polled output and input over the device's registers. The
  device is a pair of functions that give the value of the \<open>k\<close>-th read of the line status register and
  of the receive buffer; the driver's side counts its reads and collects what it writes.
\<close>

section \<open>Registers\<close>

definition UART_BASE :: u64 where [simp]: "UART_BASE = 0x10000000"
definition UART_RBR :: u64 where "UART_RBR = UART_BASE + 0"
definition UART_THR :: u64 where "UART_THR = UART_BASE + 0"
definition UART_LSR :: u64 where "UART_LSR = UART_BASE + 5"
definition UART_LSR_RX_READY :: u8 where [simp]: "UART_LSR_RX_READY = push_bit 0 1"

text \<open>What the device answers: status and received bytes, by the number of the read.\<close>

record uart_dev =
  dev_lsr :: "nat \<Rightarrow> u8"
  dev_rbr :: "nat \<Rightarrow> char"

record uart_state =
  lsr_reads :: nat
  rbr_reads :: nat
  uart_sent :: string

section \<open>Operations\<close>

definition uart_init :: "uart_state \<Rightarrow> uart_state" where
  "uart_init u = u"

text \<open>The polling loop, from read \<open>k\<close> on: the number of reads when the bit has shown; it may never end.\<close>

partial_function (option) uart_poll :: "uart_dev \<Rightarrow> u8 \<Rightarrow> nat \<Rightarrow> nat option" where
  "uart_poll d flag k = (if dev_lsr d k AND flag = 0 then uart_poll d flag (Suc k) else Some (Suc k))"



definition uart_getc :: "uart_dev \<Rightarrow> uart_state \<Rightarrow> (char \<times> uart_state) option" where
  "uart_getc d u =
     (case uart_poll d UART_LSR_RX_READY (lsr_reads u) of
        None \<Rightarrow> None
      | Some k \<Rightarrow> Some (dev_rbr d (rbr_reads u), u\<lparr>lsr_reads := k, rbr_reads := Suc (rbr_reads u)\<rparr>))"

definition uart_has_char :: "uart_dev \<Rightarrow> uart_state \<Rightarrow> bool \<times> uart_state" where
  "uart_has_char d u =
     (dev_lsr d (lsr_reads u) AND UART_LSR_RX_READY \<noteq> 0, u\<lparr>lsr_reads := Suc (lsr_reads u)\<rparr>)"

section \<open>Polling\<close>




text \<open>A line feed is sent as carriage return and line feed.\<close>

definition crlf :: "string \<Rightarrow> string" where
  "crlf cs = concat (map (\<lambda>c. if c = CHR 0x0A then [CHR 0x0D, CHR 0x0A] else [c]) cs)"

lemma crlf_simps [simp]: "crlf [] = []" "crlf (c # cs) = (if c = CHR 0x0A then [CHR 0x0D, CHR 0x0A] else [c]) @ crlf cs"
  by (simp_all add: crlf_def)




end
