(* ===== verification/Printf.thy ===== *)
theory Printf
  imports Uart
begin

text \<open>
  \<open>printf\<close> (\<open>kernel/printf.c\<close>): which characters a call sends to the UART, or where it leaves the
  defined behaviour of C. The console log of the other components is given its meaning here.
\<close>

section \<open>Numbers\<close>

text \<open>The digits of a number, lowest first, as the loop of \<open>print_num\<close> stores them; the bases are 10 and 16.\<close>

definition digit :: "u64 \<Rightarrow> char" where
  "digit n = ''0123456789abcdef'' ! unat n"

function num_digits :: "u64 \<Rightarrow> u64 \<Rightarrow> string" where
  "num_digits num base =
     (if num > 0 \<and> base > 1 then digit (num mod base) # num_digits (num div base) base else [])"
  by pat_completeness auto
termination
proof (relation "measure (\<lambda>(num, base). unat num)")
  fix num base :: u64
  assume "num > 0 \<and> base > 1"
  then show "((num div base, base), num, base) \<in> measure (\<lambda>(num, base). unat num)"
    by (simp add: unat_div word_less_nat_alt)
qed simp

declare num_digits.simps [simp del]

text \<open>Leaving the defined behaviour: the 32 characters of \<open>buf\<close> are too few, there is no argument left,
  an argument is no pointer to a string, a string has no number, the format ends within a conversion, or a
  signed number overflows (a width above \<open>2\<^sup>3\<^sup>1 - 1\<close>, or the negation of \<open>- 2\<^sup>6\<^sup>3\<close>).\<close>

datatype fault = Buffer_Overflow | Missing_Arg | Bad_Pointer | No_Number | Past_End | Signed_Overflow

datatype printed = Done string | Fault string fault

definition print_num :: "u64 \<Rightarrow> u64 \<Rightarrow> nat \<Rightarrow> char \<Rightarrow> printed" where
  "print_num num base width pad =
     (let buf = (if num = 0 then ''0'' else num_digits num base);
          buf = buf @ replicate (width - length buf) pad
      in if length buf \<le> 32 then Done (rev buf) else Fault [] Buffer_Overflow)"

section \<open>Formats\<close>

definition is_digit :: "char \<Rightarrow> bool" where
  "is_digit c \<longleftrightarrow> 48 \<le> (of_char c :: nat) \<and> (of_char c :: nat) \<le> 57"

fun parse_width :: "nat \<Rightarrow> string \<Rightarrow> (nat \<times> string) option" where
  "parse_width width [] = Some (width, [])"
| "parse_width width (c # fmt) =
     (if is_digit c
      then let width = width * 10 + (of_char c - 48) in if width < 2 ^ 31 then parse_width width fmt else None
      else Some (width, c # fmt))"

text \<open>What follows a \<open>%\<close>: the padding character, the width, and the rest of the format.\<close>

definition parse_spec :: "string \<Rightarrow> (char \<times> nat \<times> string) option" where
  "parse_spec fmt =
     (if fmt \<noteq> [] \<and> hd fmt = CHR ''0'' then map_option (Pair (CHR ''0'')) (parse_width 0 (tl fmt))
      else map_option (Pair (CHR '' '')) (parse_width 0 fmt))"

text \<open>Output followed by more output.\<close>

fun emit :: "string \<Rightarrow> printed \<Rightarrow> printed" where
  "emit out (Done s) = Done (out @ s)"
| "emit out (Fault s f) = Fault (out @ s) f"

definition num_arg :: "varg list \<Rightarrow> (u64 \<Rightarrow> printed) \<Rightarrow> printed \<times> varg list" where
  "num_arg args f =
     (case args of
        [] \<Rightarrow> (Fault [] Missing_Arg, [])
      | Num n # args \<Rightarrow> (f n, args)
      | Str s # args \<Rightarrow> (Fault [] No_Number, args))"

text \<open>The \<open>switch\<close> over the conversion character, with the arguments it leaves.\<close>

definition convert :: "char \<Rightarrow> nat \<Rightarrow> char \<Rightarrow> varg list \<Rightarrow> printed \<times> varg list" where
  "convert c width pad args =
     (if c = CHR ''d'' then
        num_arg args (\<lambda>num. if sint num < 0
                            then emit ''-'' (if sint num = - (2 ^ 63) then Fault [] Signed_Overflow else print_num (- num) 10 width pad)
                            else print_num num 10 width pad)
      else if c = CHR ''u'' then num_arg args (\<lambda>num. print_num num 10 width pad)
      else if c = CHR ''x'' then num_arg args (\<lambda>num. print_num num 16 width pad)
      else if c = CHR ''p'' then
        (case num_arg args (\<lambda>ptr. print_num ptr 16 16 (CHR ''0'')) of (r, args) \<Rightarrow> (emit ''0x'' r, args))
      else if c = CHR ''s'' then
        (case args of
           [] \<Rightarrow> (Fault [] Missing_Arg, [])
         | Str s # args \<Rightarrow> (Done (crlf s), args)
         | Num p # args \<Rightarrow> (if p = NULL then Done (crlf ''(null)'') else Fault [] Bad_Pointer, args))
      else if c = CHR ''c'' then num_arg args (\<lambda>n. Done [char_of (unat n)])
      else if c = CHR ''%'' then (Done ''%'', args)
      else (Done [CHR ''%'', c], args))"

lemma parse_width_length: "parse_width w fmt = Some (w', rest) \<Longrightarrow> length rest \<le> length fmt"
  by (induction w fmt rule: parse_width.induct) (auto simp: Let_def split: if_splits)

lemma parse_spec_length: "parse_spec fmt = Some (pad, w, rest) \<Longrightarrow> length rest \<le> length fmt"
  by (cases fmt) (auto simp: parse_spec_def Let_def split: if_splits dest!: parse_width_length)

function printf :: "string \<Rightarrow> varg list \<Rightarrow> printed" where
  "printf [] args = Done []"
| "printf (c # fmt) args =
     (if c = CHR ''%'' then
        (case parse_spec fmt of
           None \<Rightarrow> Fault [] Signed_Overflow
         | Some (pad, width, rest) \<Rightarrow>
             (case rest of
                [] \<Rightarrow> Fault [CHR ''%'', CHR 0x00] Past_End
              | conv # fmt \<Rightarrow>
                  (case convert conv width pad args of
                     (Done out, args) \<Rightarrow> emit out (printf fmt args)
                   | (Fault out f, args) \<Rightarrow> Fault out f)))
      else emit (if c = CHR 0x0A then [CHR 0x0D, c] else [c]) (printf fmt args))"
  by pat_completeness auto
termination
  by (relation "measure (\<lambda>(fmt, args). length fmt)") (auto dest!: parse_spec_length)

declare printf.simps(2) [simp del]

lemma printf_char: "c \<noteq> CHR ''%'' \<Longrightarrow> printf (c # fmt) args = emit (crlf [c]) (printf fmt args)"
  by (simp add: printf.simps(2))

lemma printf_conv:
  "parse_spec fmt = Some (pad, width, conv # rest) \<Longrightarrow> printf (CHR ''%'' # fmt) args =
     (case convert conv width pad args of
        (Done out, args) \<Rightarrow> emit out (printf rest args) | (Fault out f, args) \<Rightarrow> Fault out f)"
  by (simp add: printf.simps(2))

section \<open>What the console has shown\<close>

definition entry_out :: "log_entry \<Rightarrow> printed" where
  "entry_out e = (case e of LPrintf fmt args \<Rightarrow> printf fmt args | LPutc c \<Rightarrow> Done [c])"

fun log_out :: "log_entry list \<Rightarrow> printed" where
  "log_out [] = Done []"
| "log_out (e # es) = (case entry_out e of Done out \<Rightarrow> emit out (log_out es) | Fault out f \<Rightarrow> Fault out f)"

lemma emit_emit: "emit a (emit b r) = emit (a @ b) r"
  by (cases r) simp_all

lemma log_out_append:
  "log_out (a @ b) = (case log_out a of Done out \<Rightarrow> emit out (log_out b) | Fault out f \<Rightarrow> Fault out f)"
proof (induction a)
  case Nil
  show ?case by (cases "log_out b") simp_all
next
  case (Cons e a)
  then show ?case by (cases "log_out a") (simp_all add: emit_emit split: printed.split)
qed

section \<open>Properties of numbers\<close>

definition digit_val :: "char \<Rightarrow> nat" where
  "digit_val c = (let n = of_char c in if n \<le> 57 then n - 48 else n - 87)"

text \<open>The value of digits written highest first.\<close>

definition digits_value :: "nat \<Rightarrow> string \<Rightarrow> nat" where
  "digits_value base ds = foldl (\<lambda>v c. v * base + digit_val c) 0 ds"

lemma digit_val_digit: "unat n < 16 \<Longrightarrow> digit_val (digit n) = unat n"
proof -
  have "\<forall>n \<in> set [0..<16]. digit_val (''0123456789abcdef'' ! n) = n" by code_simp
  then show "unat n < 16 \<Longrightarrow> digit_val (digit n) = unat n" by (simp add: digit_def)
qed

lemma digits_value_snoc: "digits_value base (ds @ [c]) = digits_value base ds * base + digit_val c"
  by (simp add: digits_value_def)

lemma num_digits_value:
  assumes "1 < base" "base \<le> 16"
  shows "digits_value (unat base) (rev (num_digits num base)) = unat num"
  using assms
proof (induction num base rule: num_digits.induct)
  case (1 num base)
  show ?case
  proof (cases "num > 0")
    case True
    have b: "0 < unat base" "unat base \<le> 16" using "1.prems" by (simp_all add: word_less_nat_alt word_le_nat_alt)
    have "unat (num mod base) < 16" using b mod_less_divisor [OF b(1), of "unat num"] by (simp add: unat_mod)
    from digit_val_digit [OF this] 1 True show ?thesis
      by (subst num_digits.simps) (simp add: digits_value_snoc unat_div unat_mod)
  next
    case False
    then have "num = 0" by (simp add: word_gt_0)
    then show ?thesis by (simp add: num_digits.simps digits_value_def)
  qed
qed

lemma num_digits_length: "unat num < unat base ^ k \<Longrightarrow> 1 < base \<Longrightarrow> length (num_digits num base) \<le> k"
proof (induction k arbitrary: num)
  case 0
  then show ?case by (simp add: num_digits.simps unat_eq_0)
next
  case (Suc k)
  have "unat (num div base) < unat base ^ k"
    using Suc.prems by (simp add: unat_div less_mult_imp_div_less mult.commute)
  then show ?case using Suc.IH [of "num div base"] Suc.prems(2) by (subst num_digits.simps) simp
qed

lemma num_digits_max:
  assumes "base = 10 \<or> base = 16"
  shows "length (num_digits num base) \<le> 20"
proof (rule num_digits_length)
  have "(2 :: nat) ^ 64 < 10 ^ 20" "(10 :: nat) ^ 20 \<le> 16 ^ 20" by simp_all
  with unat_lt64 [of num] assms show "unat num < unat base ^ 20" by auto
qed (use assms in auto)

lemma num_digits_lead: "num_digits num base \<noteq> [] \<Longrightarrow> 1 < base \<Longrightarrow> base \<le> 16 \<Longrightarrow> digit_val (last (num_digits num base)) \<noteq> 0"
proof (induction num base rule: num_digits.induct)
  case (1 num base)
  then have num: "num > 0" using num_digits.simps [of num base] by (auto split: if_splits)
  have eq: "num_digits num base = digit (num mod base) # num_digits (num div base) base"
    using num "1.prems"(2) by (subst num_digits.simps) simp
  have b: "0 < unat base" "unat base \<le> 16" using "1.prems"(2,3) by (simp_all add: word_less_nat_alt word_le_nat_alt)
  show ?case
  proof (cases "num_digits (num div base) base = []")
    case True
    have "num div base = 0"
      using True "1.prems"(2) num_digits.simps [of "num div base" base] by (auto simp: word_gt_0 split: if_splits)
    then have "num mod base = num" using div_mult_mod_eq [of num base] by simp
    moreover have "unat (num mod base) < 16" using b mod_less_divisor [OF b(1), of "unat num"] by (simp add: unat_mod)
    ultimately show ?thesis using digit_val_digit [of "num mod base"] True num by (simp add: eq unat_eq_0)
  next
    case False
    then show ?thesis using 1 num by (simp add: eq)
  qed
qed

text \<open>
  C37: for the two bases \<open>printf\<close> uses, \<open>print_num\<close> writes the number: padding up to the width, then
  the digits, which read back as the number and have no leading zero. Its buffer of 32 characters
  is enough for every number and every width up to 32, and overflows for every larger width.
\<close>

theorem print_num_roundtrip:
  assumes "base = 10 \<or> base = 16"
  shows "if width \<le> 32 then
      \<exists>ds. print_num num base width pad = Done (replicate (width - length ds) pad @ ds) \<and> ds \<noteq> [] \<and>
        digits_value (unat base) ds = unat num \<and> (num \<noteq> 0 \<longrightarrow> digit_val (hd ds) \<noteq> 0)
    else print_num num base width pad = Fault [] Buffer_Overflow"
proof -
  let ?buf = "if num = 0 then ''0'' else num_digits num base"
  have b: "1 < base" "base \<le> 16" using assms by auto
  have len: "length ?buf \<le> 20" using num_digits_max [OF assms, of num] by simp
  have ne: "?buf \<noteq> []" using b(1) num_digits.simps [of num base] by (auto simp: word_neq_0_conv)
  have val: "digits_value (unat base) (rev ?buf) = unat num"
    using num_digits_value [OF b, of num] by (simp add: digits_value_def digit_val_def)
  have lead: "num \<noteq> 0 \<longrightarrow> digit_val (hd (rev ?buf)) \<noteq> 0"
    using num_digits_lead [OF _ b, of num] ne by (auto simp: hd_rev)
  have pn: "print_num num base width pad =
      (if length ?buf + (width - length ?buf) \<le> 32 then Done (replicate (width - length ?buf) pad @ rev ?buf)
       else Fault [] Buffer_Overflow)"
    by (simp add: print_num_def Let_def)
  show ?thesis
  proof (cases "width \<le> 32")
    case True
    with len have "length ?buf + (width - length ?buf) \<le> 32" by simp
    with pn True ne val lead show ?thesis
      by (intro iffD2 [OF if_P] exI [of _ "rev ?buf"]) auto
  next
    case False
    with pn len show ?thesis by auto
  qed
qed

theorem print_num_roundtrip_witness: "print_num 255 16 4 (CHR ''0'') = Done ''00ff'' \<and> print_num 255 16 33 (CHR ''0'') = Fault [] Buffer_Overflow"
proof -
  have "print_num 255 16 4 (CHR ''0'') = Done ''00ff''" by (simp add: print_num_def num_digits.simps digit_def Let_def, simp add: numeral_2_eq_2)
  then show ?thesis using print_num_roundtrip [of 16 33 255 "CHR ''0''"] by simp
qed

section \<open>Formats as directives\<close>

text \<open>A format read as literal characters and conversions with their flag, width digits and letter.\<close>

datatype directive = Lit char | Conv bool string char

fun fmt_of :: "directive \<Rightarrow> string" where
  "fmt_of (Lit c) = [c]"
| "fmt_of (Conv zero width c) = ''%'' @ (if zero then ''0'' else []) @ width @ [c]"

fun directive_ok :: "directive \<Rightarrow> bool" where
  "directive_ok (Lit c) \<longleftrightarrow> c \<noteq> CHR ''%''"
| "directive_ok (Conv zero width c) \<longleftrightarrow>
     list_all is_digit width \<and> (zero \<or> width = [] \<or> hd width \<noteq> CHR ''0'') \<and> \<not> is_digit c"

text \<open>
  What a conversion shows, said on numbers: the digits of a natural number in a base, highest first, on
  the right of a field; the sign of a negative number stands before the padding.
\<close>

definition digit_char :: "nat \<Rightarrow> char" where
  "digit_char n = char_of (if n < 10 then 48 + n else 87 + n)"

fun nat_str :: "nat \<Rightarrow> nat \<Rightarrow> string" where
  "nat_str b n = (if n < b \<or> b < 2 then [digit_char n] else nat_str b (n div b) @ [digit_char (n mod b)])"

declare nat_str.simps [simp del]

definition field :: "nat \<Rightarrow> char \<Rightarrow> string \<Rightarrow> printed" where
  "field w pad ds = (if w \<le> 32 then Done (replicate (w - length ds) pad @ ds) else Fault [] Buffer_Overflow)"

fun shown :: "char \<Rightarrow> nat \<Rightarrow> char \<Rightarrow> varg \<Rightarrow> printed" where
  "shown c w pad (Str s) = (if c = CHR ''s'' then Done (crlf s) else emit (if c = CHR ''p'' then ''0x'' else []) (Fault [] No_Number))"
| "shown c w pad (Num n) =
     (if c = CHR ''d'' then
        (if sint n = - (2 ^ 63) then Fault ''-'' Signed_Overflow
         else if sint n < 0 then emit ''-'' (field w pad (nat_str 10 (nat (- sint n))))
         else field w pad (nat_str 10 (nat (sint n))))
      else if c = CHR ''u'' then field w pad (nat_str 10 (unat n))
      else if c = CHR ''x'' then field w pad (nat_str 16 (unat n))
      else if c = CHR ''p'' then Done (''0x'' @ replicate (16 - length (nat_str 16 (unat n))) (CHR ''0'') @ nat_str 16 (unat n))
      else if c = CHR ''s'' then (if n = 0 then Done ''(null)'' else Fault [] Bad_Pointer)
      else Done [char_of (unat n)])"

text \<open>What a sequence of directives shows: \<open>%%\<close> and unknown letters take no argument, the others the next one.\<close>

fun render :: "directive list \<Rightarrow> varg list \<Rightarrow> printed" where
  "render [] args = Done []"
| "render (Lit c # ds) args = emit (crlf [c]) (render ds args)"
| "render (Conv zero width c # ds) args =
     (if digits_value 10 width \<ge> 2 ^ 31 then Fault [] Signed_Overflow
      else if c = CHR ''%'' then emit ''%'' (render ds args)
      else if c \<notin> set ''duxpsc'' then emit [CHR ''%'', c] (render ds args)
      else case args of
             [] \<Rightarrow> Fault (if c = CHR ''p'' then ''0x'' else []) Missing_Arg
           | a # args \<Rightarrow>
               (case shown c (digits_value 10 width) (if zero then CHR ''0'' else CHR '' '') a of
                  Done out \<Rightarrow> emit out (render ds args)
                | Fault out f \<Rightarrow> Fault out f))"

text \<open>The loop of \<open>print_num\<close> against the digits of a number.\<close>

lemma digit_eq: "unat d < 16 \<Longrightarrow> digit d = digit_char (unat d)"
proof -
  have "\<forall>n \<in> set [0..<16]. ''0123456789abcdef'' ! n = digit_char n" by code_simp
  then show "unat d < 16 \<Longrightarrow> digit d = digit_char (unat d)" by (simp add: digit_def)
qed

lemma num_digits_str:
  assumes "num \<noteq> 0" "1 < base" "base \<le> 16"
  shows "rev (num_digits num base) = nat_str (unat base) (unat num)"
  using assms
proof (induction num base rule: num_digits.induct)
  case (1 num base)
  have b: "\<not> unat base < 2" "0 < unat base" "unat base \<le> 16" using "1.prems"(2,3) by (simp_all add: word_less_nat_alt word_le_nat_alt)
  have pos: "num > 0" using "1.prems"(1) by (simp add: word_neq_0_conv)
  have dig: "digit (num mod base) = digit_char (unat num mod unat base)"
    using b(2,3) mod_less_divisor [OF b(2), of "unat num"] by (subst digit_eq) (simp_all add: unat_mod)
  have step: "num_digits num base = digit (num mod base) # num_digits (num div base) base"
    using pos "1.prems"(2) by (subst num_digits.simps) simp
  show ?case
  proof (cases "unat num < unat base")
    case True
    then have "num div base = 0" by (simp add: unat_div flip: unat_eq_0)
    then have "num_digits (num div base) base = []" by (simp add: num_digits.simps)
    then show ?thesis using True dig by (subst nat_str.simps) (simp add: step)
  next
    case False
    then have "num div base \<noteq> 0" using b(2) by (simp add: unat_div div_eq_0_iff flip: unat_eq_0)
    then have "rev (num_digits (num div base) base) = nat_str (unat base) (unat num div unat base)"
      using "1.IH" pos "1.prems"(2,3) by (simp add: unat_div)
    then show ?thesis using False b(1) dig by (subst nat_str.simps) (simp add: step)
  qed
qed

lemma print_num_field:
  assumes "base = 10 \<or> base = 16"
  shows "print_num num base width pad = field width pad (nat_str (unat base) (unat num))"
proof -
  let ?buf = "if num = 0 then ''0'' else num_digits num base"
  have b: "1 < base" "base \<le> 16" using assms by auto
  have "digit_char 0 = CHR ''0''" by code_simp
  then have "nat_str (unat base) 0 = ''0''" using b(1) by (subst nat_str.simps) (simp add: word_less_nat_alt)
  then have str: "rev ?buf = nat_str (unat base) (unat num)" using num_digits_str [OF _ b] by simp
  have "length ?buf \<le> 20" using num_digits_max [OF assms, of num] by simp
  then have "length ?buf + (width - length ?buf) \<le> 32 \<longleftrightarrow> width \<le> 32" by auto
  moreover have "print_num num base width pad =
      (if length ?buf + (width - length ?buf) \<le> 32 then Done (replicate (width - length (rev ?buf)) pad @ rev ?buf)
       else Fault [] Buffer_Overflow)"
    by (simp add: print_num_def Let_def)
  ultimately show ?thesis unfolding field_def str [symmetric] by simp
qed

lemma unat_sint: "0 \<le> sint n \<Longrightarrow> nat (sint n) = unat n" "sint n < 0 \<Longrightarrow> nat (- sint n) = unat (- n)" for n :: u64
proof -
  have u: "uint n = sint n mod 2 ^ 64" by (simp add: uint_sint take_bit_eq_mod)
  have l: "sint n < 2 ^ 63" "- (2 ^ 63) \<le> sint n" using sint_lt [of n] sint_ge [of n] by simp_all
  show "nat (sint n) = unat n" if "0 \<le> sint n"
    using that l(1) by (simp add: unat_eq_nat_uint u)
  have "uint (- n) = (- sint n) mod 2 ^ 64" by (simp add: uint_word_ariths u mod_minus_eq)
  then show "nat (- sint n) = unat (- n)" if "sint n < 0"
    using that l(2) by (simp add: unat_eq_nat_uint)
qed

lemma convert_shown:
  "convert c w pad args =
     (if c = CHR ''%'' then (Done ''%'', args)
      else if c \<notin> set ''duxpsc'' then (Done [CHR ''%'', c], args)
      else case args of
             [] \<Rightarrow> (Fault (if c = CHR ''p'' then ''0x'' else []) Missing_Arg, [])
           | a # args \<Rightarrow> (shown c w pad a, args))"
proof (cases args)
  case Nil
  then show ?thesis by (simp add: convert_def num_arg_def)
next
  case (Cons a as)
  show ?thesis
  proof (cases a)
    case (Num n)
    have u: "unat (10 :: u64) = 10" "unat (16 :: u64) = 16" by simp_all
    have "convert (CHR ''d'') w pad args = (shown (CHR ''d'') w pad a, as)"
      unfolding Cons Num convert_def num_arg_def by (simp add: print_num_field unat_sint)
    moreover have "convert (CHR ''p'') w pad args = (shown (CHR ''p'') w pad a, as)"
      unfolding Cons Num convert_def num_arg_def by (simp add: print_num_field field_def)
    ultimately show ?thesis using Cons Num by (simp add: convert_def num_arg_def print_num_field)
  qed (use Cons in \<open>simp add: convert_def num_arg_def\<close>)
qed

lemma width_grows: "w \<le> foldl (\<lambda>v c. v * 10 + digit_val c) w ds"
  by (induction ds arbitrary: w) (simp, fastforce intro: le_trans [rotated])

lemma parse_width_digits:
  assumes "list_all is_digit ds" "\<not> is_digit c" "w < 2 ^ 31"
  shows "parse_width w (ds @ c # fmt) =
    (let v = foldl (\<lambda>v c. v * 10 + digit_val c) w ds in if v < 2 ^ 31 then Some (v, c # fmt) else None)"
  using assms
proof (induction ds arbitrary: w)
  case (Cons d ds)
  have "digit_val d = of_char d - 48" using Cons.prems(1) by (simp add: is_digit_def digit_val_def Let_def)
  with Cons width_grows [of "w * 10 + digit_val d" ds] show ?case by (auto simp: Let_def)
qed simp

lemma parse_spec_conv:
  assumes "directive_ok (Conv zero width c)"
  shows "parse_spec ((if zero then ''0'' else []) @ width @ c # fmt) =
    (if digits_value 10 width < 2 ^ 31 then Some (if zero then CHR ''0'' else CHR '' '', digits_value 10 width, c # fmt) else None)"
proof (cases zero)
  case True
  then show ?thesis using assms by (simp add: parse_spec_def parse_width_digits digits_value_def Let_def)
next
  case False
  have "hd (width @ c # fmt) \<noteq> CHR ''0''"
    using assms False by (cases width) (auto simp: is_digit_def)
  then show ?thesis using assms False by (simp add: parse_spec_def parse_width_digits digits_value_def Let_def)
qed

text \<open>
  C36: \<open>printf\<close> shows a format as the sequence of its directives: literal characters with line feeds
  expanded; \<open>%d\<close> as the signed and \<open>%u\<close> as the unsigned decimal value of the next argument, \<open>%x\<close> as its
  hexadecimal digits, each right-aligned in the width with blanks or, after \<open>%0\<close>, zeros, the sign before
  them; \<open>%p\<close> as \<open>0x\<close> and 16 hexadecimal digits; \<open>%s\<close> as the string or \<open>(null)\<close>, \<open>%c\<close> as the character, \<open>%%\<close> and
  unknown letters as text. It leaves the defined behaviour exactly where this reading says: for a width
  above 32 in a number or above \<open>2\<^sup>3\<^sup>1 - 1\<close> anywhere, the decimal value \<open>- 2\<^sup>6\<^sup>3\<close>, and missing or wrong arguments.
\<close>

theorem printf_renders:
  "list_all directive_ok ds \<Longrightarrow> printf (concat (map fmt_of ds)) args = render ds args"
proof (induction ds arbitrary: args)
  case (Cons d ds)
  show ?case
  proof (cases d)
    case (Lit c)
    then show ?thesis using Cons by (simp add: printf_char)
  next
    case (Conv zero width c)
    let ?rest = "concat (map fmt_of ds)"
    have p: "parse_spec ((if zero then ''0'' else []) @ width @ c # ?rest) =
      (if digits_value 10 width < 2 ^ 31 then Some (if zero then CHR ''0'' else CHR '' '', digits_value 10 width, c # ?rest) else None)"
      using Cons.prems Conv by (intro parse_spec_conv) simp
    have ih: "printf ?rest = render ds" using Cons by (intro ext) simp
    show ?thesis
    proof (cases "digits_value 10 width < 2 ^ 31")
      case True
      let ?pad = "if zero then CHR ''0'' else CHR '' ''" and ?w = "digits_value 10 width"
      have "printf (concat (map fmt_of (d # ds))) args =
          (case convert c ?w ?pad args of (Done out, args) \<Rightarrow> emit out (printf ?rest args) | (Fault out f, args) \<Rightarrow> Fault out f)"
        using printf_conv [OF p [unfolded if_P [OF True]], of args] by (simp add: Conv)
      also have "\<dots> = (case convert c ?w ?pad args of (Done out, args) \<Rightarrow> emit out (render ds args) | (Fault out f, args) \<Rightarrow> Fault out f)"
        unfolding ih ..
      also have "\<dots> = render (d # ds) args"
        using True unfolding convert_shown Conv render.simps by (cases args) (simp_all split del: if_split add: if_distrib [of "case_prod _"], simp_all)
      finally show ?thesis .
    next
      case False
      then have "parse_spec ((if zero then ''0'' else []) @ width @ c # ?rest) = None" using p by simp
      then have "printf (CHR ''%'' # ((if zero then ''0'' else []) @ width @ c # ?rest)) args = Fault [] Signed_Overflow"
        by (simp add: printf.simps(2))
      then show ?thesis using False Conv by simp
    qed
  qed
qed simp

theorem printf_renders_witness:
  "printf ''PID %02u: %s %x'' [Num 7, Str ''init'', Num 255] = Done ''PID 07: init ff''"
proof -
  let ?ds = "map Lit ''PID '' @ Conv True ''2'' (CHR ''u'') # map Lit '': '' @ Conv False [] (CHR ''s'') # Lit (CHR '' '') # [Conv False [] (CHR ''x'')]"
  have "list_all directive_ok ?ds" by (simp add: is_digit_def)
  moreover have "digit_char 7 = CHR ''7''" "digit_char 15 = CHR ''f''" by code_simp+
  ultimately show ?thesis using printf_renders [of ?ds "[Num 7, Str ''init'', Num 255]"]
    by (simp add: field_def nat_str.simps digits_value_def digit_val_def Let_def)
qed

text \<open>
  \<open>%lu\<close>, which the statistics use throughout, is not a conversion of this \<open>printf\<close>: it prints
  the text \<open>%lu\<close> and leaves its argument for the next conversion. The process statistics therefore
  hand the process identifier to \<open>%s\<close> as a pointer, and the call leaves the defined behaviour for
  every identifier but zero.
\<close>

theorem lu_consumes_nothing:
  "printf (''%lu'' @ fmt) args = emit ''%lu'' (printf fmt args) \<and>
   (pid \<noteq> 0 \<longrightarrow> printf ''Process %lu (%s):\<newline>'' [Num pid, Str name] = Fault ''Process %lu ('' Bad_Pointer)"
proof -
  have lu: "printf (''%lu'' @ fmt) args = emit ''%lu'' (printf fmt args)" for fmt args
  proof -
    have "parse_spec (''lu'' @ fmt) = Some (CHR '' '', 0, CHR ''l'' # CHR ''u'' # fmt)"
      by (simp add: parse_spec_def is_digit_def)
    from printf_conv [OF this, of args] show ?thesis
      by (cases "printf fmt args") (simp_all add: convert_def printf_char)
  qed
  have "printf (''Process '' @ ''%lu'' @ '' (%s):\<newline>'') [Num pid, Str name] = Fault ''Process %lu ('' Bad_Pointer" if "pid \<noteq> 0"
  proof -
    have "parse_spec ''s):\<newline>'' = Some (CHR '' '', 0, ''s):\<newline>'')" by (simp add: parse_spec_def is_digit_def)
    from printf_conv [OF this, of "[Num pid, Str name]"] that
    show ?thesis
      using lu [of "'' (%s):\<newline>''" "[Num pid, Str name]"] by (simp add: printf_char convert_def)
  qed
  with lu show ?thesis by simp
qed

theorem lu_consumes_nothing_witness: "printf ''Process %lu (%s):\<newline>'' [Num 1, Str ''init''] = Fault ''Process %lu ('' Bad_Pointer"
  using lu_consumes_nothing [of "[]" "[]" 1 "''init''"] by simp
end
