(* ===== verification/Elf.thy ===== *)
theory Elf
  imports Vm_Kernel
begin

text \<open>
  The ELF loader (\<open>kernel/process/elf.c\<close>, \<open>kernel/process/elf.h\<close>): the headers as they lie in memory,
  their validation and the pass over the program headers. Memory is read byte by byte through a
  function from addresses, little-endian as on the machine.
\<close>

section \<open>Headers\<close>

definition rd16 :: "(addr \<Rightarrow> u8) \<Rightarrow> addr \<Rightarrow> u16" where
  "rd16 m a = ucast (m a) OR push_bit 8 (ucast (m (a + 1)))"

definition rd32 :: "(addr \<Rightarrow> u8) \<Rightarrow> addr \<Rightarrow> u32" where
  "rd32 m a = ucast (rd16 m a) OR push_bit 16 (ucast (rd16 m (a + 2)))"

definition rd64 :: "(addr \<Rightarrow> u8) \<Rightarrow> addr \<Rightarrow> u64" where
  "rd64 m a = ucast (rd32 m a) OR push_bit 32 (ucast (rd32 m (a + 4)))"

definition EI_NIDENT :: nat where [simp]: "EI_NIDENT = 16"
definition EI_MAG0 :: nat where [simp]: "EI_MAG0 = 0"
definition EI_MAG1 :: nat where [simp]: "EI_MAG1 = 1"
definition EI_MAG2 :: nat where [simp]: "EI_MAG2 = 2"
definition EI_MAG3 :: nat where [simp]: "EI_MAG3 = 3"
definition EI_CLASS :: nat where [simp]: "EI_CLASS = 4"
definition EI_DATA :: nat where [simp]: "EI_DATA = 5"
definition ELFMAG0 :: u8 where [simp]: "ELFMAG0 = 0x7f"
definition ELFMAG1 :: u8 where [simp]: "ELFMAG1 = 0x45"
definition ELFMAG2 :: u8 where [simp]: "ELFMAG2 = 0x4c"
definition ELFMAG3 :: u8 where [simp]: "ELFMAG3 = 0x46"
definition ELFCLASS64 :: u8 where [simp]: "ELFCLASS64 = 2"
definition ELFDATA2LSB :: u8 where [simp]: "ELFDATA2LSB = 1"
definition ET_EXEC :: u16 where [simp]: "ET_EXEC = 2"
definition EM_RISCV :: u16 where [simp]: "EM_RISCV = 243"
definition PT_LOAD :: u32 where [simp]: "PT_LOAD = 1"
definition PF_X :: u32 where [simp]: "PF_X = 1"
definition PF_W :: u32 where [simp]: "PF_W = 2"
definition PF_R :: u32 where [simp]: "PF_R = 4"

record Elf64_Ehdr =
  e_ident :: "u8 list"
  e_type :: u16
  e_machine :: u16
  e_version :: u32
  e_entry :: u64
  e_phoff :: u64
  e_shoff :: u64
  e_flags :: u32
  e_ehsize :: u16
  e_phentsize :: u16
  e_phnum :: u16
  e_shentsize :: u16
  e_shnum :: u16
  e_shstrndx :: u16

record Elf64_Phdr =
  p_type :: u32
  p_flags :: u32
  p_offset :: u64
  p_vaddr :: u64
  p_paddr :: u64
  p_filesz :: u64
  p_memsz :: u64
  p_align :: u64

text \<open>The structures at an address, with the offsets the compiler gives their fields.\<close>

definition ehdr_at :: "(addr \<Rightarrow> u8) \<Rightarrow> addr \<Rightarrow> Elf64_Ehdr" where
  "ehdr_at m a =
     \<lparr>e_ident = map (\<lambda>i. m (a + of_nat i)) [0..<EI_NIDENT], e_type = rd16 m (a + 16), e_machine = rd16 m (a + 18),
      e_version = rd32 m (a + 20), e_entry = rd64 m (a + 24), e_phoff = rd64 m (a + 32),
      e_shoff = rd64 m (a + 40), e_flags = rd32 m (a + 48), e_ehsize = rd16 m (a + 52),
      e_phentsize = rd16 m (a + 54), e_phnum = rd16 m (a + 56), e_shentsize = rd16 m (a + 58),
      e_shnum = rd16 m (a + 60), e_shstrndx = rd16 m (a + 62)\<rparr>"

definition phdr_at :: "(addr \<Rightarrow> u8) \<Rightarrow> addr \<Rightarrow> Elf64_Phdr" where
  "phdr_at m a =
     \<lparr>p_type = rd32 m a, p_flags = rd32 m (a + 4), p_offset = rd64 m (a + 8), p_vaddr = rd64 m (a + 16),
      p_paddr = rd64 m (a + 24), p_filesz = rd64 m (a + 32), p_memsz = rd64 m (a + 40), p_align = rd64 m (a + 48)\<rparr>"

section \<open>Operations\<close>

definition elf_validate :: "Elf64_Ehdr \<Rightarrow> 'z machine_scheme \<Rightarrow> int \<times> 'z machine_scheme" where
  "elf_validate ehdr s =
     (if e_ident ehdr ! EI_MAG0 \<noteq> ELFMAG0 \<or> e_ident ehdr ! EI_MAG1 \<noteq> ELFMAG1 \<or>
         e_ident ehdr ! EI_MAG2 \<noteq> ELFMAG2 \<or> e_ident ehdr ! EI_MAG3 \<noteq> ELFMAG3
      then (- 1, kprintf ''[ELF] Invalid magic number\<newline>'' [] s)
      else if e_ident ehdr ! EI_CLASS \<noteq> ELFCLASS64
      then (- 1, kprintf ''[ELF] Not a 64-bit ELF\<newline>'' [] s)
      else if e_ident ehdr ! EI_DATA \<noteq> ELFDATA2LSB
      then (- 1, kprintf ''[ELF] Not little-endian\<newline>'' [] s)
      else if e_machine ehdr \<noteq> EM_RISCV
      then (- 1, kprintf ''[ELF] Not a RISC-V binary\<newline>'' [] s)
      else if e_type ehdr \<noteq> ET_EXEC
      then (- 1, kprintf ''[ELF] Not an executable\<newline>'' [] s)
      else (0, s))"

text \<open>The permissions of a segment, which the loader computes and does not use.\<close>

definition segment_perm :: "Elf64_Phdr \<Rightarrow> u64" where
  "segment_perm ph =
     (let perm = 0;
          perm = (if p_flags ph AND PF_R \<noteq> 0 then perm OR PTE_R else perm);
          perm = (if p_flags ph AND PF_W \<noteq> 0 then perm OR PTE_W else perm);
          perm = (if p_flags ph AND PF_X \<noteq> 0 then perm OR PTE_X else perm)
      in perm OR PTE_U)"

text \<open>The loop over the program headers, \<open>k\<close> to go at number \<open>i\<close>; an entry takes 56 bytes.\<close>

fun load_segments :: "(addr \<Rightarrow> u8) \<Rightarrow> addr \<Rightarrow> nat \<Rightarrow> nat \<Rightarrow> 'z machine_scheme \<Rightarrow> bool \<times> 'z machine_scheme" where
  "load_segments m phdr 0 i s = (True, s)"
| "load_segments m phdr (Suc k) i s =
     (let ph = phdr_at m (phdr + 56 * of_nat i) in
      if p_type ph \<noteq> PT_LOAD then load_segments m phdr k (Suc i) s
      else
        let s = kprintf ''[ELF] Segment %d: vaddr=%p filesz=%lu memsz=%lu flags=%x\<newline>''
                  [Num (of_nat i), Num (p_vaddr ph), Num (p_filesz ph), Num (p_memsz ph), u32_arg (p_flags ph)] s;
            perm = segment_perm ph
        in if p_vaddr ph + p_memsz ph > MAXVA
           then (False, kprintf ''[ELF] Segment virtual address out of range\<newline>'' [] s)
           else load_segments m phdr k (Suc i) s)"

text \<open>The status, and the value stored through \<open>entry\<close> when there is one. \<open>size\<close> is not used.\<close>

definition elf_load ::
  "(addr \<Rightarrow> u8) \<Rightarrow> addr \<Rightarrow> u64 \<Rightarrow> 'z machine_scheme \<Rightarrow> (int \<times> u64 option) \<times> 'z machine_scheme" where
  "elf_load m binary sz s =
     (let ehdr = ehdr_at m binary; (r, s) = elf_validate ehdr s in
      if r \<noteq> 0 then ((- 1, None), s)
      else
        let s = kprintf ''[ELF] Loading ELF binary...\<newline>'' [] s;
            s = kprintf ''[ELF] Entry point: %p\<newline>'' [Num (e_entry ehdr)] s;
            s = kprintf ''[ELF] Program headers: %u\<newline>'' [Num (ucast (e_phnum ehdr))] s;
            (ok, s) = load_segments m (binary + e_phoff ehdr) (unat (e_phnum ehdr)) 0 s
        in if ok then ((0, Some (e_entry ehdr)), kprintf ''[ELF] ELF loaded successfully\<newline>'' [] s)
           else ((- 1, None), s))"

section \<open>Properties\<close>

text \<open>What the loader checks of a header, and of the segments.\<close>

definition header_ok :: "Elf64_Ehdr \<Rightarrow> bool" where
  "header_ok ehdr \<longleftrightarrow> take 6 (e_ident ehdr) = [0x7f, 0x45, 0x4c, 0x46, 2, 1] \<and> e_machine ehdr = 243 \<and> e_type ehdr = 2"

lemma elf_validate_iff:
  assumes "length (e_ident ehdr) = EI_NIDENT"
  shows "fst (elf_validate ehdr s) = (if header_ok ehdr then 0 else - 1)"
    "header_ok ehdr \<Longrightarrow> elf_validate ehdr s = (0, s)"
proof -
  have "take 6 (e_ident ehdr) = map ((!) (e_ident ehdr)) [0..<6]"
    using assms by (intro nth_equalityI) simp_all
  also have "[0..<6] = [0, 1, 2, 3, 4, 5 :: nat]" by (simp add: upt_conv_Cons)
  finally have "header_ok ehdr \<longleftrightarrow> e_ident ehdr ! 0 = 0x7f \<and> e_ident ehdr ! 1 = 0x45 \<and> e_ident ehdr ! 2 = 0x4c \<and>
      e_ident ehdr ! 3 = 0x46 \<and> e_ident ehdr ! 4 = 2 \<and> e_ident ehdr ! 5 = 1 \<and> e_machine ehdr = 243 \<and> e_type ehdr = 2"
    by (auto simp: header_ok_def)
  then show "fst (elf_validate ehdr s) = (if header_ok ehdr then 0 else - 1)"
    "header_ok ehdr \<Longrightarrow> elf_validate ehdr s = (0, s)" by (auto simp: elf_validate_def)
qed

definition segment_ok :: "Elf64_Phdr \<Rightarrow> bool" where
  "segment_ok ph \<longleftrightarrow> p_type ph = PT_LOAD \<longrightarrow> p_vaddr ph + p_memsz ph \<le> MAXVA"

lemma load_segments_ok:
  "fst (load_segments m phdr k i s) \<longleftrightarrow> (\<forall>j. i \<le> j \<longrightarrow> j < i + k \<longrightarrow> segment_ok (phdr_at m (phdr + 56 * of_nat j)))"
proof (induction m phdr k i s rule: load_segments.induct)
  case (2 m phdr k i s)
  let ?P = "\<lambda>j. segment_ok (phdr_at m (phdr + 56 * of_nat j))"
  have "(\<forall>j. i \<le> j \<longrightarrow> j < i + Suc k \<longrightarrow> ?P j) \<longleftrightarrow> ?P i \<and> (\<forall>j. Suc i \<le> j \<longrightarrow> j < Suc i + k \<longrightarrow> ?P j)"
    by (metis Suc_le_eq add_Suc_right add_Suc_shift le_eq_less_or_eq less_add_Suc1)
  with 2 show ?case by (auto simp: Let_def segment_ok_def)
qed simp

lemma kprintf_klog [simp]: "(kprintf f as s)\<lparr>klog := l\<rparr> = s\<lparr>klog := l\<rparr>"
  by (simp add: kprintf_def)

lemma elf_validate_log: "(snd (elf_validate ehdr s))\<lparr>klog := klog s\<rparr> = s"
  by (simp add: elf_validate_def)

lemma load_segments_log: "(snd (load_segments m phdr k i s))\<lparr>klog := l\<rparr> = s\<lparr>klog := l\<rparr>"
  by (induction m phdr k i s rule: load_segments.induct) (simp_all add: Let_def)

definition image_ok :: "(addr \<Rightarrow> u8) \<Rightarrow> addr \<Rightarrow> bool" where
  "image_ok m binary \<longleftrightarrow> header_ok (ehdr_at m binary) \<and>
     (\<forall>i < unat (e_phnum (ehdr_at m binary)).
        segment_ok (phdr_at m (binary + e_phoff (ehdr_at m binary) + 56 * of_nat i)))"

lemma elf_load_result:
  "fst (elf_load m binary sz s) = (if image_ok m binary then (0, Some (e_entry (ehdr_at m binary))) else (- 1, None))"
  "(snd (elf_load m binary sz s))\<lparr>klog := klog s\<rparr> = s"
proof -
  let ?h = "ehdr_at m binary"
  have len: "length (e_ident ?h) = EI_NIDENT" by (simp add: ehdr_at_def)
  have "fst (elf_load m binary sz s) = (if image_ok m binary then (0, Some (e_entry ?h)) else (- 1, None)) \<and>
    (snd (elf_load m binary sz s))\<lparr>klog := klog s\<rparr> = s"
  proof (cases "header_ok ?h")
    case True
    note v = elf_validate_iff(2) [OF len True]
    show ?thesis
      using True by (simp add: elf_load_def v Let_def case_prod_beta load_segments_ok load_segments_log image_ok_def)
  next
    case False
    then have "fst (elf_validate ?h s) = - 1" using elf_validate_iff(1) [OF len] by simp
    with False show ?thesis by (simp add: elf_load_def Let_def case_prod_beta image_ok_def elf_validate_log)
  qed
  then show "fst (elf_load m binary sz s) = (if image_ok m binary then (0, Some (e_entry ?h)) else (- 1, None))"
    "(snd (elf_load m binary sz s))\<lparr>klog := klog s\<rparr> = s" by simp_all
qed

text \<open>
  C39: \<open>elf_load\<close> succeeds exactly for a 64-bit little-endian RISC-V executable all of whose loadable
  segments end, in 64-bit arithmetic, at most at \<open>MAXVA\<close>; it then stores the entry point of the
  header, and otherwise stores nothing. It loads no segment: no state changes but the log.
\<close>

theorem elf_load_checks:
  "let ehdr = ehdr_at m binary;
       ok = (take 6 (e_ident ehdr) = [0x7f, 0x45, 0x4c, 0x46, 2, 1] \<and> e_machine ehdr = 243 \<and> e_type ehdr = 2 \<and>
         (\<forall>i < unat (e_phnum ehdr). let ph = phdr_at m (binary + e_phoff ehdr + 56 * of_nat i) in
            p_type ph = PT_LOAD \<longrightarrow> p_vaddr ph + p_memsz ph \<le> MAXVA))
   in fst (elf_load m binary sz s) = (if ok then (0, Some (e_entry ehdr)) else (- 1, None)) \<and>
      (snd (elf_load m binary sz s))\<lparr>klog := klog s\<rparr> = s"
  by (simp add: elf_load_result image_ok_def header_ok_def segment_ok_def Let_def)

text \<open>An image: a header, and one loadable segment at \<open>0xfffffffffffff000\<close> whose size is \<open>n\<close> pages.\<close>

definition sample_image :: "u8 \<Rightarrow> u8 list" where
  "sample_image n =
     [0x7f, 0x45, 0x4c, 0x46, 2, 1, 0, 0, 0, 0, 0, 0, 0, 0, 0, 0, 2, 0, 243, 0, 1, 0, 0, 0,
      0, 0x10, 0, 0, 0, 0, 0, 0, 64, 0, 0, 0, 0, 0, 0, 0, 0, 0, 0, 0, 0, 0, 0, 0,
      0, 0, 0, 0, 64, 0, 56, 0, 1, 0, 0, 0, 0, 0, 0, 0,
      1, 0, 0, 0, 5, 0, 0, 0, 0, 0, 0, 0, 0, 0, 0, 0, 0, 0xf0, 0xff, 0xff, 0xff, 0xff, 0xff, 0xff,
      0, 0, 0, 0, 0, 0, 0, 0, 0, 0, 0, 0, 0, 0, 0, 0, 0, 16 * n, 0, 0, 0, 0, 0, 0, 0, 0x10, 0, 0, 0, 0, 0, 0]"

definition image_mem :: "u8 list \<Rightarrow> addr \<Rightarrow> u8" where
  "image_mem bs a = (if unat a < length bs then bs ! unat a else 0)"

lemma sample_header: "header_ok (ehdr_at (image_mem (sample_image n)) 0)"
  "e_phnum (ehdr_at (image_mem (sample_image n)) 0) = 1" "e_phoff (ehdr_at (image_mem (sample_image n)) 0) = 64"
  "e_entry (ehdr_at (image_mem (sample_image n)) 0) = 0x1000"
  by (simp_all add: header_ok_def ehdr_at_def image_mem_def sample_image_def rd16_def rd32_def rd64_def upt_conv_Cons)

lemma sample_segment:
  "p_type (phdr_at (image_mem (sample_image n)) 64) = 1"
  "p_vaddr (phdr_at (image_mem (sample_image n)) 64) = 0xfffffffffffff000"
  by (simp_all add: phdr_at_def image_mem_def sample_image_def rd16_def rd32_def rd64_def)

lemma sample_memsz:
  "p_memsz (phdr_at (image_mem (sample_image 2)) 64) = 0x2000" "p_memsz (phdr_at (image_mem (sample_image 0)) 64) = 0"
  by (simp_all add: phdr_at_def image_mem_def sample_image_def rd16_def rd32_def rd64_def)

lemma sample_loads: "image_ok (image_mem (sample_image 2)) 0" "\<not> image_ok (image_mem (sample_image 0)) 0"
  by (simp_all add: image_ok_def sample_header sample_segment sample_memsz segment_ok_def MAXVA_def)

theorem elf_load_checks_witness:
  "\<forall>s :: machine. fst (elf_load (image_mem (sample_image 2)) 0 120 s) = (0, Some 0x1000)"
proof
  fix s :: machine
  show "fst (elf_load (image_mem (sample_image 2)) 0 120 s) = (0, Some 0x1000)"
    using elf_load_checks [of "image_mem (sample_image 2)" 0 120 s] sample_loads(1)
    by (simp add: image_ok_def header_ok_def segment_ok_def sample_header Let_def)
qed

text \<open>
  The loader trusts the image. Its range check adds modulo \<open>2\<^sup>6\<^sup>4\<close>, so it accepts a segment that
  starts far above \<open>MAXVA\<close> and wraps around; and it ignores the size of the image, so whether it
  accepts a 64-byte file depends on what lies in memory behind it.
\<close>

theorem elf_load_trusts_image:
  "let m = image_mem (sample_image 2); m' = image_mem (sample_image 0) in
     fst (elf_load m 0 64 s) = (0, Some 0x1000) \<and> p_vaddr (phdr_at m 64) > MAXVA \<and> p_memsz (phdr_at m 64) > 0 \<and>
     map (\<lambda>i. m (of_nat i)) [0..<64] = map (\<lambda>i. m' (of_nat i)) [0..<64] \<and> fst (elf_load m' 0 64 s) = (- 1, None)"
proof -
  have "map (\<lambda>i. image_mem (sample_image 2) (of_nat i)) [0..<64] = map (\<lambda>i. image_mem (sample_image 0) (of_nat i)) [0..<64]"
    by (simp add: image_mem_def sample_image_def upt_conv_Cons)
  then show ?thesis
    by (simp add: Let_def elf_load_result sample_loads sample_header sample_segment sample_memsz MAXVA_def del: map_eq_conv)
qed

end
