(* ===== verification/Plic.thy ===== *)
theory Plic
  imports Machine
begin

text \<open>
  The interrupt controller and the clock (\<open>drivers/plic/plic.c\<close>, \<open>drivers/rtc/rtc.c\<close>): accesses to
  32-bit device registers, given by a function from addresses. What a read of the claim register or
  of the clock returns is up to the device.
\<close>

section \<open>Registers\<close>

definition PLIC_BASE :: u64 where [simp]: "PLIC_BASE = 0x0C000000"

text \<open>The argument is 32 bits wide, and so is its product.\<close>

definition PLIC_PRIORITY :: "u32 \<Rightarrow> u64" where
  "PLIC_PRIORITY irq = PLIC_BASE + ucast (irq * 4)"

definition PLIC_ENABLE :: "u64 \<Rightarrow> u64" where
  "PLIC_ENABLE hart = PLIC_BASE + 0x2000 + hart * 0x80"

definition PLIC_THRESHOLD :: "u64 \<Rightarrow> u64" where
  "PLIC_THRESHOLD hart = PLIC_BASE + 0x200000 + hart * 0x1000"

definition PLIC_CLAIM :: "u64 \<Rightarrow> u64" where
  "PLIC_CLAIM hart = PLIC_BASE + 0x200004 + hart * 0x1000"

definition RTC_BASE :: u64 where [simp]: "RTC_BASE = 0x101000"

type_synonym regs = "addr \<Rightarrow> u32"

section \<open>Operations\<close>

definition plic_init :: "regs \<Rightarrow> regs" where
  "plic_init m = m(PLIC_THRESHOLD 0 := 0)"

text \<open>The word of the enable bits that holds an interrupt.\<close>

definition enable_word :: "u32 \<Rightarrow> addr" where
  "enable_word irq = PLIC_ENABLE 0 + 4 * ucast (irq div 32)"

definition plic_enable :: "u32 \<Rightarrow> regs \<Rightarrow> regs" where
  "plic_enable irq m =
     (let m = m(PLIC_PRIORITY irq := 1); w = enable_word irq
      in m(w := m w OR push_bit (unat (irq mod 32)) 1))"

definition plic_disable :: "u32 \<Rightarrow> regs \<Rightarrow> regs" where
  "plic_disable irq m =
     (let w = enable_word irq in m(w := m w AND NOT (push_bit (unat (irq mod 32)) 1)))"

definition plic_claim :: "regs \<Rightarrow> u32" where
  "plic_claim m = m (PLIC_CLAIM 0)"

definition plic_complete :: "u32 \<Rightarrow> regs \<Rightarrow> regs" where
  "plic_complete irq m = m(PLIC_CLAIM 0 := irq)"

definition rtc_init :: "regs \<Rightarrow> regs" where
  "rtc_init m = m"

definition rtc_get_time :: "regs \<Rightarrow> u64" where
  "rtc_get_time m = ucast (m RTC_BASE)"

section \<open>Enable bits\<close>

text \<open>An interrupt is enabled when its bit is set in the word for it.\<close>

definition irq_enabled :: "u32 \<Rightarrow> regs \<Rightarrow> bool" where
  "irq_enabled irq m \<longleftrightarrow> bit (m (enable_word irq)) (unat (irq mod 32))"

text \<open>The controller has 1024 interrupts, so priorities and enable bits do not overlap.\<close>

lemma unat_enable_word: "irq < 1024 \<Longrightarrow> unat (enable_word irq) = 0x0C002000 + 4 * (unat irq div 32)"
proof -
  assume "irq < 1024"
  then have "unat irq < 1024" by (simp add: word_less_nat_alt)
  then have u: "unat (ucast (irq div 32) :: u64) = unat irq div 32"
    by (simp add: unsigned_ucast_eq take_bit_nat_eq_self unat_div)
  then have "unat (4 * ucast (irq div 32) :: u64) = 4 * (unat irq div 32)"
    using \<open>unat irq < 1024\<close> by (subst unat_mult_small) simp_all
  with \<open>unat irq < 1024\<close> show ?thesis
    by (simp add: enable_word_def PLIC_ENABLE_def unat_add_small)
qed

lemma unat_priority: "irq < 1024 \<Longrightarrow> unat (PLIC_PRIORITY irq) = 0x0C000000 + 4 * unat irq"
proof -
  assume "irq < 1024"
  then have "unat irq < 1024" by (simp add: word_less_nat_alt)
  then have "unat (irq * 4) = 4 * unat irq" by (simp add: unat_word_ariths)
  then have "unat (ucast (irq * 4) :: u64) = 4 * unat irq"
    using \<open>unat irq < 1024\<close> by (simp add: unsigned_ucast_eq take_bit_nat_eq_self)
  then show ?thesis using \<open>unat irq < 1024\<close> by (simp add: PLIC_PRIORITY_def unat_add_small)
qed

lemma priority_not_enable: "irq < 1024 \<Longrightarrow> irq' < 1024 \<Longrightarrow> PLIC_PRIORITY irq \<noteq> enable_word irq'"
  using unat_priority [of irq] unat_enable_word [of irq'] by (auto simp: word_less_nat_alt)

lemma enable_word_eq:
  assumes "irq < 1024" "irq' < 1024"
  shows "enable_word irq = enable_word irq' \<and> unat (irq mod 32) = unat (irq' mod 32) \<longleftrightarrow> irq = irq'"
proof
  assume a: "enable_word irq = enable_word irq' \<and> unat (irq mod 32) = unat (irq' mod 32)"
  then have "unat irq div 32 = unat irq' div 32" using unat_enable_word [OF assms(1)] unat_enable_word [OF assms(2)] by simp
  moreover have "unat irq mod 32 = unat irq' mod 32" using a by (simp add: unat_mod)
  ultimately have "unat irq = unat irq'" by (metis div_mult_mod_eq)
  then show "irq = irq'" by (simp add: word_unat_eq_iff)
qed simp

text \<open>
  C40: for the 1024 interrupts of the controller, enabling sets the interrupt's own enable bit and its
  priority to 1, disabling clears the bit, and neither changes the enable bit of any other interrupt.
\<close>

theorem plic_enable_exact:
  assumes "irq < 1024" "irq' < 1024"
  shows "irq_enabled irq' (plic_enable irq m) = (irq' = irq \<or> irq_enabled irq' m) \<and>
    plic_enable irq m (PLIC_PRIORITY irq) = 1 \<and>
    irq_enabled irq' (plic_disable irq m) = (irq' \<noteq> irq \<and> irq_enabled irq' m)"
proof -
  let ?b = "unat (irq mod 32)" and ?b' = "unat (irq' mod 32)"
  have lt: "?b < 32" "?b' < 32" by (simp_all add: unat_mod)
  have np: "PLIC_PRIORITY irq \<noteq> enable_word irq" "PLIC_PRIORITY irq \<noteq> enable_word irq'"
    using priority_not_enable assms by blast+
  have "irq_enabled irq' (plic_enable irq m) = (irq' = irq \<or> irq_enabled irq' m)"
    using enable_word_eq [OF assms] np lt
    by (cases "enable_word irq' = enable_word irq") (auto simp: irq_enabled_def plic_enable_def Let_def bit_simps)
  moreover have "irq_enabled irq' (plic_disable irq m) = (irq' \<noteq> irq \<and> irq_enabled irq' m)"
    using enable_word_eq [OF assms] lt
    by (cases "enable_word irq' = enable_word irq") (auto simp: irq_enabled_def plic_disable_def Let_def bit_simps)
  moreover have "plic_enable irq m (PLIC_PRIORITY irq) = 1"
    using np by (simp add: plic_enable_def Let_def)
  ultimately show ?thesis by blast
qed

theorem plic_enable_exact_witness: "irq_enabled 10 (plic_enable 10 (\<lambda>a. 0)) \<and> \<not> irq_enabled 11 (plic_enable 10 (\<lambda>a. 0))"
  using plic_enable_exact [of 10 10 "\<lambda>a. 0"] plic_enable_exact [of 10 11 "\<lambda>a. 0"]
  by (simp add: irq_enabled_def)

end
