(* ===== verification/Shell.thy ===== *)
theory Shell
  imports Syscall Trap Printf Elf Plic
begin

text \<open>
  The kernel proper (\<open>kernel/main.c\<close>): the built-in tests, the shell with its line editor and commands,
  and the start-up sequence of \<open>kernel_main\<close>.
\<close>

section \<open>State\<close>

definition SHELL_BUFFER_SIZE :: nat where [simp]: "SHELL_BUFFER_SIZE = 128"

definition QEMU_VIRT_TEST :: addr where [simp]: "QEMU_VIRT_TEST = 0x100000"

text \<open>\<open>mmio_out\<close> collects the stores to device registers that \<open>main.c\<close> makes itself: address and value.\<close>

record kernel_state = sys_state +
  mmio_out :: "(addr \<times> u32) list"

fun strlen :: "string \<Rightarrow> u64" where
  "strlen [] = 0"
| "strlen (c # s) = strlen s + 1"

section \<open>Tests\<close>

text \<open>
  A failing check prints and ends the test. \<open>vm_free\<close> is given the depth 3 of the tables, and the test has
  no result, \<open>None\<close>, if the tables are nested deeper.
\<close>

definition test_vm :: "'z kernel_state_scheme \<Rightarrow> (unit, 'z kernel_state_scheme) outcome option" where
  "test_vm s =
     (let s = kprintf ''[TEST] Testing virtual memory...\<newline>'' [] s; (pt, s) = vm_create_user_pagetable s in
      if pt = NULL then Some (Ret () (kprintf ''[TEST] Failed to create user page table\<newline>'' [] s))
      else
        let s = kprintf ''[TEST] Created user page table at %p\<newline>'' [Num pt] s; pa = 0x80100000 in
        case mappages pt 0x1000 PAGE_SIZE pa (ucast (PTE_R OR PTE_W OR PTE_U)) s of
          Panic m s \<Rightarrow> Some (Panic m s)
        | Ret r s \<Rightarrow>
            if r \<noteq> 0 then Some (Ret () (kprintf ''[TEST] Failed to map page\<newline>'' [] s))
            else
              let s = kprintf ''[TEST] Mapped VA 0x1000 -> PA %p\<newline>'' [Num pa] s; pa2 = walkaddr pt 0x1000 s in
              if pa2 \<noteq> pa
              then Some (Ret () (kprintf ''[TEST] Address translation failed: got %p, expected %p\<newline>'' [Num pa2, Num pa] s))
              else
                let s = kprintf ''[TEST] Address translation verified\<newline>'' [] s in
                map_option (\<lambda>s. Ret () (kprintf ''[TEST] Virtual memory test PASSED\<newline>'' [] s)) (vm_free 3 pt s))"

text \<open>Naming a process and printing its line, as the three parts of \<open>test_scheduler\<close> do.\<close>

definition name_proc :: "nat \<Rightarrow> string \<Rightarrow> proc_ref \<Rightarrow> 'z kernel_state_scheme \<Rightarrow> 'z kernel_state_scheme" where
  "name_proc n name r s = upd_proc (\<lambda>p. p\<lparr>p_name := copy_name n name\<rparr>) r s"

definition print_proc :: "string \<Rightarrow> proc_ref \<Rightarrow> 'z kernel_state_scheme \<Rightarrow> 'z kernel_state_scheme" where
  "print_proc fmt r s =
     kprintf fmt [Str (p_name (get_proc s r)), Num (p_pid (get_proc s r)), Num (word_of_int (p_priority (get_proc s r)))] s"

definition test_scheduler :: "'z kernel_state_scheme \<Rightarrow> 'z kernel_state_scheme" where
  "test_scheduler s =
     (let s = kprintf ''[TEST] Testing scheduler...\<newline>'' [] s; (p1, s) = process_alloc s in
      case p1 of
        None \<Rightarrow> kprintf ''[TEST] Failed to allocate process 1\<newline>'' [] s
      | Some r1 \<Rightarrow>
          let s = name_proc 5 ''test1'' r1 s;
              s = sched_set_priority p1 PRIORITY_DEFAULT s;
              s = print_proc ''[TEST] Allocated process: %s (PID %lu, Priority: %d)\<newline>'' r1 s;
              (p2, s) = process_alloc s
          in case p2 of
               None \<Rightarrow> kprintf ''[TEST] Failed to allocate process 2\<newline>'' [] s
             | Some r2 \<Rightarrow>
                 let s = name_proc 5 ''test2'' r2 s;
                     s = sched_set_priority p2 (PRIORITY_NORMAL_MIN + 10) s;
                     s = print_proc ''[TEST] Allocated process: %s (PID %lu, Priority: %d)\<newline>'' r2 s;
                     (p3, s) = process_alloc s
                 in case p3 of
                      None \<Rightarrow> kprintf ''[TEST] Failed to allocate process 3\<newline>'' [] s
                    | Some r3 \<Rightarrow>
                        let s = name_proc 7 ''rt_test'' r3 s;
                            s = sched_set_priority p3 50 s;
                            s = sched_set_policy p3 SCHED_FIFO s;
                            s = print_proc ''[TEST] Allocated RT process: %s (PID %lu, Priority: %d, Policy: FIFO)\<newline>'' r3 s;
                            s = sched_add p3 (sched_add p2 (sched_add p1 s));
                            s = kprintf ''[TEST] Added processes to scheduler\<newline>'' [] s;
                            s = sched_print_stats s
                        in kprintf ''[TEST] Scheduler test PASSED\<newline>'' [] s)"

definition test_filesystem :: "'z kernel_state_scheme \<Rightarrow> 'z kernel_state_scheme" where
  "test_filesystem s =
     (let s = kprintf ''[TEST] Testing file system...\<newline>'' [] s; (ino, s) = sfs_create ''testfile'' VFS_FILE s in
      if ino \<le> 0 then kprintf ''[TEST] Failed to create file\<newline>'' [] s
      else
        let s = kprintf ''[TEST] Created file 'testfile' with inode %d\<newline>'' [Num (word_of_int ino)] s;
            (ret, s) = sfs_delete ''testfile'' s
        in if ret \<noteq> 0 then kprintf ''[TEST] Failed to delete file\<newline>'' [] s
           else
             let s = kprintf ''[TEST] Deleted file 'testfile'\<newline>'' [] s
             in kprintf ''[TEST] File system test PASSED\<newline>'' [] s)"

definition run_tests :: "'z kernel_state_scheme \<Rightarrow> (unit, 'z kernel_state_scheme) outcome option" where
  "run_tests s =
     (let s = kprintf ''\<newline>========================================\<newline>'' [] s;
          s = kprintf ''  Running System Tests\<newline>'' [] s;
          s = kprintf ''========================================\<newline>\<newline>'' [] s
      in map_option (\<lambda>r. obind r (\<lambda>_ s.
           let s = kprintf ''\<newline>'' [] s;
               s = test_scheduler s;
               s = kprintf ''\<newline>'' [] s;
               s = test_filesystem s;
               s = kprintf ''\<newline>'' [] s;
               s = kprintf ''========================================\<newline>'' [] s;
               s = kprintf ''  All Tests Completed\<newline>'' [] s
           in Ret () (kprintf ''========================================\<newline>\<newline>'' [] s))) (test_vm s))"

definition print_banner :: "'z kernel_state_scheme \<Rightarrow> 'z kernel_state_scheme" where
  "print_banner s =
     (let s = kprintf ''\<newline>'' [] s;
          s = kprintf ''====================================\<newline>'' [] s;
          s = kprintf ''  RISC-V 64-bit Embedded OS\<newline>'' [] s;
          s = kprintf ''  Version 1.0\<newline>'' [] s;
          s = kprintf ''====================================\<newline>'' [] s
      in kprintf ''\<newline>'' [] s)"

definition test_memory :: "'z kernel_state_scheme \<Rightarrow> 'z kernel_state_scheme" where
  "test_memory s =
     (let s = kprintf ''[TEST] Testing memory allocation...\<newline>'' [] s;
          (page1, s) = alloc_page s;
          (page2, s) = alloc_page s;
          s = kprintf ''[TEST] Allocated pages: %p, %p\<newline>'' [Num page1, Num page2] s;
          (ptr1, s) = kmalloc 256 s;
          (ptr2, s) = kmalloc 512 s;
          s = kprintf ''[TEST] Allocated heap: %p, %p\<newline>'' [Num ptr1, Num ptr2] s;
          s = free_page page1 s;
          s = free_page page2 s
      in kprintf ''[TEST] Memory test completed\<newline>'' [] s)"

definition show_system_info :: "'z kernel_state_scheme \<Rightarrow> 'z kernel_state_scheme" where
  "show_system_info s =
     (let s = kprintf ''\<newline>[INFO] System Information:\<newline>'' [] s;
          s = kprintf ''  Architecture: RISC-V 64-bit (RV64IMAC)\<newline>'' [] s;
          s = kprintf ''  Privilege Mode: Supervisor (S-mode)\<newline>'' [] s;
          s = kprintf ''  Page Size: %d bytes\<newline>'' [Num PAGE_SIZE] s;
          sstatus = r_sstatus s; sie = r_sie s; stvec = r_stvec s;
          s = kprintf ''  sstatus: %p\<newline>'' [Num sstatus] s;
          s = kprintf ''  sie:     %p\<newline>'' [Num sie] s;
          s = kprintf ''  stvec:   %p\<newline>'' [Num stvec] s
      in kprintf ''\<newline>'' [] s)"

section \<open>The shell\<close>

text \<open>
  The inner loop of \<open>run_shell\<close>: \<open>buffer\<close> holds the \<open>pos\<close> characters of the line. \<open>None\<close> when all input
  has been read and the shell waits for more.
\<close>

definition printable :: "char \<Rightarrow> bool" where
  "printable c \<longleftrightarrow> 32 \<le> (of_char c :: nat) \<and> (of_char c :: nat) < 127"

definition BACKSPACE :: string where
  "BACKSPACE = [CHR 0x08, CHR '' '', CHR 0x08]"

function read_line :: "string \<Rightarrow> 'z kernel_state_scheme \<Rightarrow> string option \<times> 'z kernel_state_scheme" where
  "read_line buffer s =
     (case getc s of
        None \<Rightarrow> (None, s)
      | Some (c, s) \<Rightarrow>
          if c = CHR 0x0D \<or> c = CHR 0x0A then (Some buffer, kprintf ''\<newline>'' [] s)
          else if c = CHR 0x08 \<or> c = CHR 0x7F then
            (if buffer \<noteq> [] then read_line (butlast buffer) (kprintf BACKSPACE [] s) else read_line buffer s)
          else if printable c then
            (if length buffer < SHELL_BUFFER_SIZE - 1 then read_line (buffer @ [c]) (kputc c s) else read_line buffer s)
          else read_line buffer s)"
  by pat_completeness auto
termination
  by (relation "measure (\<lambda>(buffer, s). length (console_in s))")
    (auto simp: getc_def kprintf_def kputc_def split: list.splits)

declare read_line.simps [simp del]

text \<open>
  The command \<open>testdev\<close>. \<open>None\<close> when the driver leaves its buffer or the file has no operations. The read
  buffer has 65 characters; what is printed of it ends at the first null character.
\<close>

definition shell_testdev ::
  "(addr \<Rightarrow> 'z kernel_state_scheme file_ops_t) \<Rightarrow> 'z kernel_state_scheme \<Rightarrow> 'z kernel_state_scheme option" where
  "shell_testdev ops_at s =
     (let s = kprintf ''[TEST] Testing /testdev device\<newline>'' [] s;
          (file, s) = vfs_open ops_at ''/testdev'' 0 s
      in if file = NULL then Some (kprintf ''[TEST] Failed to open /testdev\<newline>'' [] s)
         else
           let test_data = ''Hello from VFS test!''; data_len = strlen test_data in
           Option.bind (vfs_write ops_at file (nth test_data) data_len s) (\<lambda>(written, s).
           if written < 0 then Some (snd (vfs_close ops_at file (kprintf ''[TEST] Failed to write data\<newline>'' [] s)))
           else
             let s = kprintf ''[TEST] Wrote %d bytes\<newline>'' [Num (word_of_int written)] s in
             Option.bind (file_ops ops_at file s) (\<lambda>ops.
             let (seek_ret, s) = (case op_seek ops of None \<Rightarrow> (0, s) | Some seek \<Rightarrow> seek file 0 s) in
             if seek_ret \<noteq> 0 then Some (snd (vfs_close ops_at file (kprintf ''[TEST] Failed to seek\<newline>'' [] s)))
             else
               Option.bind (vfs_read ops_at file 64 s) (\<lambda>((read_bytes, data), s).
               if read_bytes < 0
               then Some (snd (vfs_close ops_at file (kprintf ''[TEST] Failed to read data\<newline>'' [] s)))
               else
                 let s = (if read_bytes > 0 \<and> read_bytes < 65
                          then kprintf ''[TEST] Read %d bytes: %s\<newline>''
                                 [Num (word_of_int read_bytes), Str (takeWhile (\<lambda>c. c \<noteq> CHR 0x00) (take (nat read_bytes) data))] s
                          else s);
                     s = snd (vfs_close ops_at file s)
                 in Some (kprintf ''[TEST] Test completed\<newline>'' [] s)))))"

text \<open>
  The store of the command \<open>reboot\<close>, by the instruction at \<open>pc\<close>. With paging on, an address without a writable
  entry in the installed table makes it a store page fault (cause 15), which the trap vector hands to
  \<open>trap_handler\<close>.
\<close>

definition satp_root :: "'z machine_scheme \<Rightarrow> addr" where
  "satp_root s = push_bit 12 (csr_satp s AND mask 44)"

definition store_maps :: "addr \<Rightarrow> 'z mm_state_scheme \<Rightarrow> bool" where
  "store_maps a s \<longleftrightarrow> drop_bit 60 (csr_satp s) = 0 \<or>
     (case translate (mem s) (satp_root s) (page_no a) of None \<Rightarrow> False | Some e \<Rightarrow> e AND PTE_W \<noteq> 0)"

definition store_device ::
  "addr \<Rightarrow> addr \<Rightarrow> u32 \<Rightarrow> 'z kernel_state_scheme \<Rightarrow> (unit, 'z kernel_state_scheme) outcome" where
  "store_device pc a v s =
     (if store_maps a s then Ret () (s\<lparr>mmio_out := mmio_out s @ [(a, v)]\<rparr>)
      else obind (trap_handler (s\<lparr>csr_scause := 15, csr_sepc := pc, csr_stval := a\<rparr>)) (\<lambda>_ s. Ret () s))"

text \<open>The commands. The line holds printable characters only, so a comparison up to the terminator is equality.\<close>

definition shell_command ::
  "addr \<Rightarrow> (addr \<Rightarrow> 'z kernel_state_scheme file_ops_t) \<Rightarrow> string \<Rightarrow> 'z kernel_state_scheme \<Rightarrow>
     (unit, 'z kernel_state_scheme) outcome option" where
  "shell_command pc ops_at buffer s =
     (if buffer = ''help'' then
        Some (Ret () (let s = kprintf ''Available commands:\<newline>'' [] s;
                  s = kprintf ''  help     - Show this help message\<newline>'' [] s;
                  s = kprintf ''  info     - Show system information\<newline>'' [] s;
                  s = kprintf ''  test     - Run memory test\<newline>'' [] s;
                  s = kprintf ''  testdev  - Test VFS device driver\<newline>'' [] s;
                  s = kprintf ''  ps       - Show process statistics\<newline>'' [] s;
                  s = kprintf ''  sched    - Show scheduler statistics\<newline>'' [] s;
                  s = kprintf ''  echo     - Echo back the input\<newline>'' [] s
              in kprintf ''  reboot   - Reboot the system\<newline>'' [] s))
      else if buffer = ''ps'' then
        Some (Ret () (let s = kprintf ''\<newline>[PS] Process List:\<newline>'' [] s;
                  s = kprintf ''========================================\<newline>'' [] s;
                  curr = current_proc s;
                  s = (if curr \<noteq> None then process_print_stats curr s else kprintf ''No current process\<newline>'' [] s)
              in kprintf ''========================================\<newline>'' [] s))
      else if buffer = ''sched'' then Some (Ret () (sched_print_stats s))
      else if buffer = ''info'' then Some (Ret () (show_system_info s))
      else if buffer = ''testdev'' then map_option (Ret ()) (shell_testdev ops_at s)
      else if buffer = ''test'' then Some (Ret () (test_memory s))
      else if take 5 buffer = ''echo '' then Some (Ret () (kprintf ''%s\<newline>'' [Str (drop 5 buffer)] s))
      else if buffer = ''reboot'' then
        Some (store_device pc QEMU_VIRT_TEST 0x5555 (kprintf ''Rebooting...\<newline>'' [] s))
      else
        (let s = kprintf ''Unknown command: %s\<newline>'' [Str buffer] s
         in Some (Ret () (kprintf ''Type 'help' for available commands\<newline>'' [] s))))"

text \<open>
  The outer loop, as far as the input goes: the state in which the shell waits for the next character, or
  that of a panic.
  \<open>None\<close> when a command is undefined or the loop does not come to wait.
\<close>

partial_function (option) shell_loop ::
  "addr \<Rightarrow> (addr \<Rightarrow> 'z kernel_state_scheme file_ops_t) \<Rightarrow> 'z kernel_state_scheme \<Rightarrow>
     (unit, 'z kernel_state_scheme) outcome option" where
  "shell_loop pc ops_at s =
     (case read_line [] (kprintf ''> '' [] s) of
        (None, s) \<Rightarrow> Some (Ret () s)
      | (Some line, s) \<Rightarrow>
          Option.bind (if line = [] then Some (Ret () s) else shell_command pc ops_at line s)
            (\<lambda>r. case r of Ret _ s \<Rightarrow> shell_loop pc ops_at s | Panic m s \<Rightarrow> Some (Panic m s)))"

definition run_shell ::
  "addr \<Rightarrow> (addr \<Rightarrow> 'z kernel_state_scheme file_ops_t) \<Rightarrow> 'z kernel_state_scheme \<Rightarrow>
     (unit, 'z kernel_state_scheme) outcome option" where
  "run_shell pc ops_at s =
     (let s = kprintf ''[SHELL] Starting simple shell\<newline>'' [] s
      in shell_loop pc ops_at (kprintf ''Type 'help' for available commands\<newline>'' [] s))"

section \<open>Start-up\<close>

text \<open>
  The initialisation in \<open>kernel_main\<close>. \<open>trap_entry\<close> and \<open>ops\<close> are the addresses of the trap vector and of
  \<open>testdev_ops\<close>; \<open>uart_init\<close> does nothing. The results of \<open>sfs_format\<close> and \<open>testdev_register\<close> are ignored.
\<close>

definition kernel_init ::
  "addr \<Rightarrow> addr \<Rightarrow> 'z kernel_state_scheme \<Rightarrow> (unit, 'z kernel_state_scheme) outcome" where
  "kernel_init trap_entry ops s =
     (let s = print_banner s;
          s = kprintf ''[KERNEL] Starting RISC-V OS kernel...\<newline>'' [] s;
          s = kprintf ''[KERNEL] Kernel loaded at 0x80200000\<newline>'' [] s;
          s = mm_init s
      in obind (vm_init s) (\<lambda>_ s.
         let s = kvminithart s;
             s = trap_init trap_entry s;
             s = scheduler_init s;
             s = vfs_init s;
             s = sfs_init s;
             s = snd (sfs_format 256 s);
             s = testdev_init s;
             s = snd (testdev_register ops s)
         in Ret () s))"

text \<open>
  \<open>kernel_main\<close>, up to the state in which the shell waits for the next character, or a panic; the one behind
  \<open>run_shell\<close> is never reached.
\<close>

definition kernel_main ::
  "addr \<Rightarrow> (addr \<Rightarrow> 'z kernel_state_scheme file_ops_t) \<Rightarrow> addr \<Rightarrow> addr \<Rightarrow> 'z kernel_state_scheme \<Rightarrow>
     (unit, 'z kernel_state_scheme) outcome option" where
  "kernel_main pc ops_at trap_entry ops s =
     (case kernel_init trap_entry ops s of
        Panic m s \<Rightarrow> Some (Panic m s)
      | Ret _ s \<Rightarrow>
          Option.bind (run_tests (show_system_info s)) (\<lambda>r.
          case r of
            Panic m s \<Rightarrow> Some (Panic m s)
          | Ret _ s \<Rightarrow> run_shell pc ops_at (test_memory s)))"

section \<open>The line editor\<close>

text \<open>A terminal's line: the characters before the cursor and those from the cursor on.\<close>

fun term_char :: "string \<times> string \<Rightarrow> char \<Rightarrow> string \<times> string" where
  "term_char (l, r) c =
     (if c = CHR 0x08 then (if l = [] then (l, r) else (butlast l, last l # r)) else (l @ [c], tl r))"

definition terminal :: "string \<Rightarrow> string \<times> string" where
  "terminal cs = foldl term_char ([], []) cs"

text \<open>The line a sequence of keys without a line end makes.\<close>

definition edit_key :: "string \<Rightarrow> char \<Rightarrow> string" where
  "edit_key l c =
     (if c = CHR 0x08 \<or> c = CHR 0x7F then butlast l
      else if printable c \<and> length l < 127 then l @ [c] else l)"

definition line_end :: "char \<Rightarrow> bool" where
  "line_end c \<longleftrightarrow> c = CHR 0x0D \<or> c = CHR 0x0A"

text \<open>What the editor sends for a key.\<close>

definition key_echo :: "string \<Rightarrow> char \<Rightarrow> log_entry list" where
  "key_echo l c =
     (if c = CHR 0x08 \<or> c = CHR 0x7F then (if l = [] then [] else [LPrintf BACKSPACE []])
      else if printable c \<and> length l < 127 then [LPutc c] else [])"

lemma read_line_key:
  assumes "console_in s = c # cs" "\<not> line_end c"
  shows "read_line l s = read_line (edit_key l c) (s\<lparr>console_in := cs, klog := klog s @ key_echo l c\<rparr>)"
proof -
  have g: "getc s = Some (c, s\<lparr>console_in := cs\<rparr>)" by (simp add: getc_def assms)
  have same: "s\<lparr>console_in := cs, klog := klog s\<rparr> = s\<lparr>console_in := cs\<rparr>" by simp
  show ?thesis
    using assms(2) by (subst read_line.simps)
      (simp add: g line_end_def edit_key_def key_echo_def kprintf_def kputc_def same)
qed

lemma read_line_end:
  assumes "console_in s = e # cs" "line_end e"
  shows "read_line l s = (Some l, s\<lparr>console_in := cs, klog := klog s @ [LPrintf ''\<newline>'' []]\<rparr>)"
  using assms by (subst read_line.simps) (simp add: getc_def line_end_def kprintf_def)

lemma read_line_none: "console_in s = [] \<Longrightarrow> read_line l s = (None, s)"
  by (subst read_line.simps) (simp add: getc_def)

fun echoes :: "string \<Rightarrow> string \<Rightarrow> log_entry list" where
  "echoes l [] = []"
| "echoes l (c # cs) = key_echo l c @ echoes (edit_key l c) cs"

lemma read_line_keys:
  assumes "console_in s = cs @ rest" "list_all (\<lambda>c. \<not> line_end c) cs"
  shows "read_line l s = read_line (foldl edit_key l cs) (s\<lparr>console_in := rest, klog := klog s @ echoes l cs\<rparr>)"
  using assms
proof (induction cs arbitrary: l s)
  case (Cons c cs)
  have "read_line l s = read_line (edit_key l c) (s\<lparr>console_in := cs @ rest, klog := klog s @ key_echo l c\<rparr>)"
    using Cons.prems by (intro read_line_key) simp_all
  with Cons.IH [of "s\<lparr>console_in := cs @ rest, klog := klog s @ key_echo l c\<rparr>"] Cons.prems show ?case by simp
next
  case Nil
  have "s = s\<lparr>console_in := rest, klog := klog s\<rparr>" using Nil(1) by simp
  then show ?case by simp
qed

lemma edit_bounds:
  assumes "length l \<le> 127" "list_all printable l"
  shows "length (foldl edit_key l cs) \<le> 127 \<and> list_all printable (foldl edit_key l cs)"
  using assms
proof (induction cs arbitrary: l)
  case (Cons c cs)
  have "length (edit_key l c) \<le> 127" "list_all printable (edit_key l c)"
    using Cons.prems by (auto simp: edit_key_def list_all_iff dest: in_set_butlastD)
  then show ?case using Cons.IH by simp
qed simp

lemma edit_plain:
  assumes "list_all printable cs" "length l \<le> 127"
  shows "foldl edit_key l cs = take 127 (l @ cs)"
  using assms
proof (induction cs arbitrary: l)
  case (Cons c cs)
  have "c \<noteq> CHR 0x08" "c \<noteq> CHR 0x7F" using Cons.prems(1) by (auto simp: printable_def)
  then have "edit_key l c = take 127 (l @ [c])" using Cons.prems by (simp add: edit_key_def)
  moreover have "take 127 (take 127 (l @ [c]) @ cs) = take 127 (l @ c # cs)"
    using Cons.prems(2) by (cases "length l = 127") simp_all
  ultimately show ?case using Cons by simp
qed simp

lemma printf_backspace: "printf BACKSPACE [] = Done BACKSPACE"
  by (simp add: BACKSPACE_def printf_char)

text \<open>The terminal follows the buffer.\<close>

lemma echoes_shown:
  assumes "list_all printable l" "set r \<subseteq> {CHR '' ''}"
  shows "\<exists>out r'. log_out (echoes l cs) = Done out \<and> foldl term_char (l, r) out = (foldl edit_key l cs, r') \<and>
    set r' \<subseteq> {CHR '' ''}"
  using assms
proof (induction cs arbitrary: l r)
  case (Cons c cs)
  let ?l = "edit_key l c"
  have pl: "list_all printable ?l"
    using Cons.prems(1) by (auto simp: edit_key_def list_all_iff dest: in_set_butlastD)
  obtain out1 r1 where 1: "log_out (key_echo l c) = Done out1" "foldl term_char (l, r) out1 = (?l, r1)" "set r1 \<subseteq> {CHR '' ''}"
  proof (cases "c = CHR 0x08 \<or> c = CHR 0x7F")
    case bs: True
    show thesis
    proof (cases "l = []")
      case True
      with bs show thesis using that [of "[]" r] Cons.prems by (simp add: key_echo_def edit_key_def)
    next
      case False
      have "foldl term_char (l, r) BACKSPACE = (butlast l, CHR '' '' # r)"
        using False by (simp add: BACKSPACE_def)
      with bs False show thesis using that [of BACKSPACE "CHR '' '' # r"] Cons.prems
        by (simp add: key_echo_def edit_key_def entry_out_def printf_backspace)
    qed
  next
    case nb: False
    show thesis
    proof (cases "printable c \<and> length l < 127")
      case True
      have "set (tl r) \<subseteq> {CHR '' ''}" using Cons.prems(2) by (cases r) auto
      with nb True show thesis using that [of "[c]" "tl r"] by (simp add: key_echo_def edit_key_def entry_out_def)
    next
      case False
      with nb have "key_echo l c = []" "?l = l" by (auto simp: key_echo_def edit_key_def)
      then show thesis using that [of "[]" r] Cons.prems by simp
    qed
  qed
  obtain out2 r2 where 2: "log_out (echoes ?l cs) = Done out2" "foldl term_char (?l, r1) out2 = (foldl edit_key ?l cs, r2)"
    "set r2 \<subseteq> {CHR '' ''}"
    using Cons.IH [OF pl 1(3)] by blast
  have "log_out (echoes l (c # cs)) = Done (out1 @ out2)"
    using 1(1) 2(1) by (simp add: log_out_append)
  with 1 2 show ?case by (intro exI [of _ "out1 @ out2"] exI [of _ r2]) simp
qed simp

text \<open>
  C25: the shell's line editor. When the keys of a line and its end have arrived, the editor returns the
  edited line, with at most 127 characters, all printable; keys that are all printable give the line
  they spell, cut at 127 characters. Nothing but the log and the input changes, the rest of the input
  is left for the next line, and after the echo the terminal shows the line before the cursor and
  blanks after it.
\<close>

theorem read_line_edits:
  assumes "console_in s = keys @ e # rest" "list_all (\<lambda>c. \<not> line_end c) keys" "line_end e"
  defines "line \<equiv> foldl edit_key [] keys"
  shows "\<exists>es out blanks s'. read_line [] s = (Some line, s') \<and> length line < SHELL_BUFFER_SIZE \<and> list_all printable line \<and>
    (list_all printable keys \<longrightarrow> line = take 127 keys) \<and>
    s' = s\<lparr>console_in := rest, klog := klog s @ es @ [LPrintf ''\<newline>'' []]\<rparr> \<and>
    log_out es = Done out \<and> terminal out = (line, blanks) \<and> set blanks \<subseteq> {CHR '' ''}"
proof -
  obtain out blanks where o: "log_out (echoes [] keys) = Done out" "terminal out = (line, blanks)" "set blanks \<subseteq> {CHR '' ''}"
    using echoes_shown [of "[]" "[]" keys] by (auto simp: line_def terminal_def)
  let ?s = "s\<lparr>console_in := e # rest, klog := klog s @ echoes [] keys\<rparr>"
  have "read_line [] s = read_line line ?s"
    unfolding line_def by (rule read_line_keys [OF assms(1,2)])
  also have "\<dots> = (Some line, ?s\<lparr>console_in := rest, klog := klog ?s @ [LPrintf ''\<newline>'' []]\<rparr>)"
    by (rule read_line_end [OF _ assms(3)]) simp
  finally show ?thesis
    using o edit_bounds [of "[]" keys] edit_plain [of keys "[]"]
    by (intro exI [of _ "echoes [] keys"] exI [of _ out] exI [of _ blanks] exI) (simp add: line_def)
qed

end
