(* ===== verification/Shell_Service.thy ===== *)
theory Shell_Service
  imports Shell
begin

text \<open>
  What the commands of the shell change, and that the shell serves every input: the tests and the device
  session return, keep the allocators and the device in order and lead back to the prompt.
\<close>

section \<open>What commands may change\<close>

text \<open>The log, the allocators, the files, the test device and the device registers; never the input, the
  processes, the scheduler, the registry or the file system's table.\<close>

definition shell_frame :: "'z kernel_state_scheme \<Rightarrow> 'z kernel_state_scheme \<Rightarrow> bool" where
  "shell_frame s s' \<longleftrightarrow> s' = s\<lparr>klog := klog s', free_pages := free_pages s', num_free_pages := num_free_pages s',
     heap_current := heap_current s', mem := mem s', next_ino := next_ino s', file_at := file_at s', inode_at := inode_at s',
     testdev_buffer := testdev_buffer s', testdev_len := testdev_len s', mmio_out := mmio_out s'\<rparr>"

lemma shell_frame_fields:
  assumes "shell_frame s s'"
  shows "console_in s' = console_in s" "devices s' = devices s" "heap_start_sym s' = heap_start_sym s"
    "heap_end_sym s' = heap_end_sym s" "proc_table s' = proc_table s" "inodes s' = inodes s" "kernel_pagetable s' = kernel_pagetable s"
    "cpu_data s' = cpu_data s" "current_cpu s' = current_cpu s"
  by (subst assms [unfolded shell_frame_def], simp)+

lemma shell_frame_refl [simp]: "shell_frame s s"
  by (simp add: shell_frame_def)

lemma shell_frame_trans:
  assumes "shell_frame s s'" "shell_frame s' s''"
  shows "shell_frame s s''"
proof -
  have "s'' = s'\<lparr>klog := klog s'', free_pages := free_pages s'', num_free_pages := num_free_pages s'',
     heap_current := heap_current s'', mem := mem s'', next_ino := next_ino s'', file_at := file_at s'', inode_at := inode_at s'',
     testdev_buffer := testdev_buffer s'', testdev_len := testdev_len s'', mmio_out := mmio_out s''\<rparr>"
    using assms(2) by (simp add: shell_frame_def)
  also have "\<dots> = s\<lparr>klog := klog s'', free_pages := free_pages s'', num_free_pages := num_free_pages s'',
     heap_current := heap_current s'', mem := mem s'', next_ino := next_ino s'', file_at := file_at s'', inode_at := inode_at s'',
     testdev_buffer := testdev_buffer s'', testdev_len := testdev_len s'', mmio_out := mmio_out s''\<rparr>"
    by (subst assms(1) [unfolded shell_frame_def]) simp
  finally show ?thesis by (simp add: shell_frame_def)
qed

lemma shell_frame_ops:
  "shell_frame s (kprintf f as s)" "shell_frame s (snd (alloc_page s))" "shell_frame s (free_page p s)"
  "shell_frame s (snd (kmalloc n s))" "shell_frame s (upd_file g a s)" "shell_frame s (upd_inode h a s)"
  by (simp_all add: shell_frame_def kprintf_def alloc_page_def free_page_def kmalloc_def upd_file_def upd_inode_def Let_def)

text \<open>A command that only prints.\<close>

definition log_only :: "'z machine_scheme \<Rightarrow> 'z machine_scheme \<Rightarrow> bool" where
  "log_only s s' \<longleftrightarrow> (\<exists>l. s' = s\<lparr>klog := l\<rparr>)"

lemma log_only_kprintf [simp]: "log_only s (kprintf f as t) = log_only s t"
proof
  assume "log_only s (kprintf f as t)"
  then obtain l where "t\<lparr>klog := klog t @ [LPrintf f as]\<rparr> = s\<lparr>klog := l\<rparr>" by (auto simp: log_only_def kprintf_def)
  then have "t\<lparr>klog := klog t @ [LPrintf f as], klog := klog t\<rparr> = s\<lparr>klog := klog t\<rparr>" by simp
  then have "t = s\<lparr>klog := klog t\<rparr>" by simp
  then show "log_only s t" unfolding log_only_def by (rule exI)
qed (auto simp: log_only_def kprintf_def)

lemma log_only_refl [simp]: "log_only s s"
  unfolding log_only_def by (rule exI [of _ "klog s"]) simp

lemma log_only_fold: "(\<And>x t. log_only s t \<Longrightarrow> log_only s (f x t)) \<Longrightarrow> log_only s t \<Longrightarrow> log_only s (fold f xs t)"
  by (induction xs arbitrary: t) auto

lemma log_only_print:
  "log_only s t \<Longrightarrow> log_only s (print_cpu_stats i t)" "log_only s t \<Longrightarrow> log_only s (print_queue_stats i t)"
  by (simp_all add: print_cpu_stats_def print_queue_stats_def Let_def split: option.split)

lemma log_only_sched: "log_only s t \<Longrightarrow> log_only s (sched_print_stats t)"
  by (simp add: sched_print_stats_def Let_def log_only_print log_only_fold)

lemma log_only_process: "log_only s t \<Longrightarrow> log_only s (process_print_stats p t)"
  by (simp add: process_print_stats_def Let_def split: option.split)

lemma log_only_info: "log_only s t \<Longrightarrow> log_only s (show_system_info t)"
  by (simp add: show_system_info_def Let_def)

section \<open>The page allocator seen from a test\<close>

text \<open>One page taken out of the pool, or none.\<close>

definition page_mset :: "addr \<Rightarrow> addr multiset" where
  "page_mset p = (if p = NULL then {#} else {#p#})"

lemma alloc_page_mset:
  assumes "mm_wf s" "alloc_page s = (p, s')"
  shows "mm_wf s'" "managed s' = managed s" "mset (free_list s) = mset (free_list s') + page_mset p"
    "p = NULL \<or> managed s p \<and> p \<notin> set (free_list s')"
proof -
  show "mm_wf s'" using mm_wf_alloc [OF assms(1)] assms(2) by simp
  show "managed s' = managed s" using pp.alloc_owned [of s] assms(2) by simp
  show "mset (free_list s) = mset (free_list s') + page_mset p" "p = NULL \<or> managed s p \<and> p \<notin> set (free_list s')"
  proof (atomize (full), cases "free_list s")
    case Nil
    then show "mset (free_list s) = mset (free_list s') + page_mset p \<and> (p = NULL \<or> managed s p \<and> p \<notin> set (free_list s'))"
      using pp.alloc_fails [OF assms(1)] assms(2) by (simp add: page_mset_def)
  next
    case (Cons q qs)
    then show "mset (free_list s) = mset (free_list s') + page_mset p \<and> (p = NULL \<or> managed s p \<and> p \<notin> set (free_list s'))"
      using pp.alloc_pops [OF assms(1) Cons] pp.alloc_fresh [OF assms(1) Cons] assms(2) pp.owned_page [of s p]
      by (auto simp: page_mset_def)
  qed
qed

lemma free_page_mset:
  assumes "mm_wf s" "p = NULL \<or> managed s p \<and> p \<notin> set (free_list s)"
  shows "mm_wf (free_page p s)" "mset (free_list (free_page p s)) = mset (free_list s) + page_mset p"
proof -
  have "mm_wf (free_page p s) \<and> mset (free_list (free_page p s)) = mset (free_list s) + page_mset p"
  proof (cases "p = NULL")
    case True
    then show ?thesis using assms(1) by (simp add: free_page_def page_mset_def)
  next
    case False
    with assms(2) have "managed s p" "p \<notin> set (free_list s)" by auto
    from pp.release_pushes [OF assms(1) this] False show ?thesis by (simp add: page_mset_def)
  qed
  then show "mm_wf (free_page p s)" "mset (free_list (free_page p s)) = mset (free_list s) + page_mset p" by simp_all
qed

text \<open>The allocator does not see the log, the heap or the fields of other components.\<close>

lemma pool_frame:
  assumes "mem t = mem s" "free_pages t = free_pages s" "num_free_pages t = num_free_pages s" "heap_end_sym t = heap_end_sym s"
  shows "free_list t = free_list s" "managed t = managed s" "mm_wf t = mm_wf s"
proof -
  show f: "free_list t = free_list s" using assms by (simp add: free_list_def)
  show m: "managed t = managed s" by (rule managed_frame [OF assms(4)])
  show "mm_wf t = mm_wf s" by (simp add: mm_wf_def f m)
qed

text \<open>The heap only grows.\<close>

definition heap_step :: "'z mm_state_scheme \<Rightarrow> 'z mm_state_scheme \<Rightarrow> bool" where
  "heap_step s s' \<longleftrightarrow> heap_wf s' \<and> heap_brk s \<le> heap_brk s' \<and> heap_lim s' = heap_lim s"

lemma heap_step_trans: "heap_step s s' \<Longrightarrow> heap_step s' s'' \<Longrightarrow> heap_step s s''"
  by (simp add: heap_step_def)

lemma heap_step_frame:
  "heap_wf s \<Longrightarrow> heap_current s' = heap_current s \<Longrightarrow> heap_start_sym s' = heap_start_sym s \<Longrightarrow> heap_end_sym s' = heap_end_sym s \<Longrightarrow>
   heap_step s s'"
  by (simp add: heap_step_def heap_wf_def heap_brk_def heap_lim_def)

lemma heap_step_kmalloc: "heap_wf s \<Longrightarrow> n \<noteq> 0 \<Longrightarrow> unat n < 2 ^ 31 \<Longrightarrow> heap_step s (snd (kmalloc n s))"
  using bh.alloc_fits [of s n] bh.alloc_exhausted [of s n]
  by (cases "heap_brk s + round8 (unat n) \<le> heap_lim s") (auto simp: heap_step_def)

text \<open>Two pages taken and given back, with anything in between that leaves the pool alone.\<close>

lemma two_pages_owned:
  assumes "mm_wf s" "alloc_page s = (p1, s1)" "alloc_page s1 = (p2, s2)"
    and "free_list t = free_list s2" "managed t = managed s2" "mm_wf t = mm_wf s2"
  shows "mm_wf t" "mset (free_list s) = mset (free_list t) + page_mset p1 + page_mset p2"
    "p1 = NULL \<or> managed t p1 \<and> p1 \<notin> set (free_list t)" "mm_wf (free_page p1 t)"
    "p2 = NULL \<or> managed (free_page p1 t) p2 \<and> p2 \<notin> set (free_list (free_page p1 t))"
proof -
  note A1 = alloc_page_mset [OF assms(1,2)] and A2 = alloc_page_mset [OF alloc_page_mset(1) [OF assms(1,2)] assms(3)]
  show "mm_wf t" using A2(1) assms(6) by simp
  show "mset (free_list s) = mset (free_list t) + page_mset p1 + page_mset p2" using A1(3) A2(3) assms(4) by simp
  show o1: "p1 = NULL \<or> managed t p1 \<and> p1 \<notin> set (free_list t)"
    using A1(2,4) A2(2,3) assms(4,5) by (metis mset_subset_eq_add_left set_mset_mset set_mset_mono subsetD)
  note F1 = free_page_mset [OF assms(6) [THEN iffD2, OF A2(1)] o1]
  show "mm_wf (free_page p1 t)" by (rule F1(1))
  have ne: "p2 \<noteq> p1" if "p1 \<noteq> NULL" "p2 \<noteq> NULL"
  proof
    assume "p2 = p1"
    then have "p1 \<in># mset (free_list s1)" using A2(3) that by (simp add: page_mset_def)
    with A1(4) that show False by simp
  qed
  have "p2 \<notin> set (free_list (free_page p1 t))" if "p2 \<noteq> NULL"
  proof -
    have "p2 \<notin># mset (free_list t) + page_mset p1" using that ne A2(4) assms(4) by (auto simp: page_mset_def)
    then show ?thesis by (simp add: F1(2) flip: set_mset_mset)
  qed
  moreover have "managed (free_page p1 t) = managed t" by (rule managed_frame) (simp add: free_page_def)
  ultimately show "p2 = NULL \<or> managed (free_page p1 t) p2 \<and> p2 \<notin> set (free_list (free_page p1 t))"
    using A2(2,4) assms(5) by auto
qed

lemma two_pages_back:
  assumes "mm_wf s" "alloc_page s = (p1, s1)" "alloc_page s1 = (p2, s2)"
    and "free_list t = free_list s2" "managed t = managed s2" "mm_wf t = mm_wf s2"
  shows "mm_wf (free_page p2 (free_page p1 t))" "mset (free_list (free_page p2 (free_page p1 t))) = mset (free_list s)"
proof -
  note o = two_pages_owned [OF assms]
  note F = free_page_mset [OF o(1,3)] free_page_mset [OF o(4,5)]
  show "mm_wf (free_page p2 (free_page p1 t))" "mset (free_list (free_page p2 (free_page p1 t))) = mset (free_list s)"
    using F o(2) by simp_all
qed

text \<open>Page tables keep their pages and entries.\<close>

definition keeps_tables :: "'z mm_state_scheme \<Rightarrow> 'z mm_state_scheme \<Rightarrow> bool" where
  "keeps_tables s s' \<longleftrightarrow> (\<forall>r. pt_wf s r \<longrightarrow> pt_wf s' r \<and> translate (mem s') r = translate (mem s) r \<and>
     tables_under (mem s') r [] = tables_under (mem s) r [])"

lemma keeps_tables_trans: "keeps_tables s s' \<Longrightarrow> keeps_tables s' s'' \<Longrightarrow> keeps_tables s s''"
  by (simp add: keeps_tables_def)

lemma keeps_tables_frame:
  assumes "mem t = mem s" "free_list t = free_list s" "managed t = managed s"
  shows "keeps_tables s t"
  using assms by (simp add: keeps_tables_def pt_wf_def)

lemma free_page_tables:
  assumes "mm_wf s" "pt_wf s r" "p = NULL \<or> managed s p \<and> p \<notin> set (free_list s)" "p \<notin> tables_under (mem s) r []"
  shows "pt_wf (free_page p s) r" "translate (mem (free_page p s)) r = translate (mem s) r"
    "tables_under (mem (free_page p s)) r [] = tables_under (mem s) r []"
proof -
  let ?s = "free_page p s"
  note sep = assms(2) [unfolded pt_wf_def]
  have same: "mem ?s (cell t i) = mem s (cell t i)"
    if "q \<in> pt_paths" "table_at (mem s) r q = Some t" "i < 512" for q t i
  proof (cases "p = NULL")
    case False
    have "t \<noteq> p" "page_aligned p" using assms(3,4) that False by (auto simp: tables_under_def managed_page)
    then have "cell t i \<noteq> p" using page_cells_other [of p t i] pt_sepD(1) [OF sep that(1,2)] that(3) cell_in_page [of 0 p] by auto
    then show ?thesis using False by (simp add: free_page_def)
  qed (simp add: free_page_def)
  have tab: "table_at (mem ?s) r q = table_at (mem s) r q" if "q \<in> pt_paths" for q using same that by (rule table_at_cong)
  then show tu: "tables_under (mem ?s) r [] = tables_under (mem s) r []" by (auto simp: tables_under_def)
  show "translate (mem ?s) r = translate (mem s) r" using same by (rule translate_cong)
  have m: "managed ?s = managed s" by (rule managed_frame) (simp add: free_page_def)
  have "t \<notin> set (free_list ?s)" if "t \<in> tables_under (mem s) r []" "t \<notin> set (free_list s)" for t
  proof -
    have "t \<notin># mset (free_list s) + page_mset p" using that assms(4) by (auto simp: page_mset_def)
    then show ?thesis by (simp add: free_page_mset(2) [OF assms(1,3)] flip: set_mset_mset)
  qed
  then have free: "t \<notin> set (free_list ?s)" if "q \<in> pt_paths" "table_at (mem s) r q = Some t" for q t
    using that pt_sepD(2) [OF sep that] by (force simp: tables_under_def)
  have "pt_sep (mem s) r (\<lambda>t. managed s t \<and> t \<notin> set (free_list ?s))"
    by (rule pt_sepI) (use free in \<open>simp add: pt_sepD(1,2) [OF sep]\<close>, (blast dest: pt_sepD(3,4) [OF sep])+)
  then show "pt_wf ?s r" unfolding pt_wf_def m by (rule pt_sep_same) (use tab same in \<open>simp_all add: less_imp_le\<close>)
qed

text \<open>So the two pages of the memory test leave every page table alone.\<close>

lemma two_pages_tables:
  assumes "mm_wf s" "alloc_page s = (p1, s1)" "alloc_page s1 = (p2, s2)"
    and "mem t = mem s2" "free_list t = free_list s2" "managed t = managed s2" "mm_wf t = mm_wf s2"
  shows "keeps_tables s (free_page p2 (free_page p1 t))"
  unfolding keeps_tables_def
proof (intro allI impI)
  fix r
  assume wf: "pt_wf s r"
  have T: "pt_wf t r" "translate (mem t) r = translate (mem s) r" "tables_under (mem t) r [] = tables_under (mem s) r []"
    using pt_wf_alloc [OF assms(1) wf] pt_wf_alloc [OF alloc_page_mset(1) [OF assms(1,2)], of r] assms(2-6)
    by (simp_all add: pt_wf_def)
  note o = two_pages_owned [OF assms(1-3,5-7)]
  have out: "p \<notin> tables_under (mem s) r []" if "page_mset p \<subseteq># mset (free_list s)" for p
    using that pt_sepD(2) [OF wf [unfolded pt_wf_def]] managed_page(2) [of s p]
    by (auto simp: tables_under_def page_mset_def split: if_splits)
  have "p1 \<notin> tables_under (mem t) r []" using o(2) T(3) out [of p1] by simp
  note F = free_page_tables [OF o(1) T(1) o(3) this]
  have "p2 \<notin> tables_under (mem (free_page p1 t)) r []" using o(2) T(3) F(3) out [of p2] by simp
  from free_page_tables [OF o(4) F(1) o(5) this] F T
  show "pt_wf (free_page p2 (free_page p1 t)) r \<and> translate (mem (free_page p2 (free_page p1 t))) r = translate (mem s) r \<and>
     tables_under (mem (free_page p2 (free_page p1 t))) r [] = tables_under (mem s) r []" by simp
qed

lemma mm_keeps_device:
  "testdev_buffer (kprintf f as s) = testdev_buffer s" "testdev_buffer (snd (alloc_page s)) = testdev_buffer s"
  "testdev_buffer (free_page p s) = testdev_buffer s" "testdev_buffer (snd (kmalloc n s)) = testdev_buffer s"
  "testdev_len (kprintf f as s) = testdev_len s" "testdev_len (snd (alloc_page s)) = testdev_len s"
  "testdev_len (free_page p s) = testdev_len s" "testdev_len (snd (kmalloc n s)) = testdev_len s"
  "mmio_out (kprintf f as s) = mmio_out s" "mmio_out (snd (alloc_page s)) = mmio_out s"
  "mmio_out (free_page p s) = mmio_out s" "mmio_out (snd (kmalloc n s)) = mmio_out s"
  by (simp_all add: kprintf_def alloc_page_def free_page_def kmalloc_def Let_def)

text \<open>\<open>test_memory\<close> gives both pages back; what it takes from the heap is not.\<close>

lemma test_memory_keeps:
  assumes "mm_wf s" "heap_wf s"
  defines "s' \<equiv> test_memory s"
  shows "shell_frame s s' \<and> mm_wf s' \<and> mset (free_list s') = mset (free_list s) \<and> heap_step s s' \<and>
    testdev_buffer s' = testdev_buffer s \<and> testdev_len s' = testdev_len s \<and> mmio_out s' = mmio_out s \<and> keeps_tables s s'"
proof -
  let ?s0 = "kprintf ''[TEST] Testing memory allocation...\<newline>'' [] s"
  obtain p1 s1 where a1: "alloc_page ?s0 = (p1, s1)" by (cases "alloc_page ?s0")
  obtain p2 s2 where a2: "alloc_page s1 = (p2, s2)" by (cases "alloc_page s1")
  define s3 where "s3 = kprintf ''[TEST] Allocated pages: %p, %p\<newline>'' [Num p1, Num p2] s2"
  obtain q1 s4 where k1: "kmalloc 256 s3 = (q1, s4)" by (cases "kmalloc 256 s3")
  obtain q2 s5 where k2: "kmalloc 512 s4 = (q2, s5)" by (cases "kmalloc 512 s4")
  define s6 where "s6 = kprintf ''[TEST] Allocated heap: %p, %p\<newline>'' [Num q1, Num q2] s5"
  have s': "s' = kprintf ''[TEST] Memory test completed\<newline>'' [] (free_page p2 (free_page p1 s6))"
    by (simp add: s'_def test_memory_def Let_def a1 a2 s3_def [symmetric] k1 k2 s6_def)
  have eqs: "s1 = snd (alloc_page ?s0)" "s2 = snd (alloc_page s1)" "s4 = snd (kmalloc 256 s3)" "s5 = snd (kmalloc 512 s4)"
    using a1 a2 k1 k2 by simp_all
  have 0: "free_list ?s0 = free_list s" "mm_wf ?s0"
    using pool_frame [of ?s0 s] assms(1) by (simp_all add: kprintf_def)
  have "mem s6 = mem s2" "free_list s6 = free_list s2" "managed s6 = managed s2" "mm_wf s6 = mm_wf s2"
    using pool_frame [of s6 s2] unfolding s6_def eqs(4,3) s3_def
    by (simp_all add: kprintf_def kmalloc_def Let_def)
  note pool = two_pages_back [OF 0(2) a1 a2 this(2-4)] and tables = two_pages_tables [OF 0(2) a1 a2 this]
  have l: "mem s' = mem (free_page p2 (free_page p1 s6))" "free_list s' = free_list (free_page p2 (free_page p1 s6))"
    "managed s' = managed (free_page p2 (free_page p1 s6))" "mm_wf s' = mm_wf (free_page p2 (free_page p1 s6))"
    using pool_frame [of s' "free_page p2 (free_page p1 s6)"] by (simp_all add: s' kprintf_def)
  have "keeps_tables s ?s0" using pool_frame [of ?s0 s] by (intro keeps_tables_frame) (simp_all add: kprintf_def)
  then have kt: "keeps_tables s s'"
    using keeps_tables_trans [OF _ keeps_tables_trans [OF tables keeps_tables_frame [OF l(1-3)]]] by blast
  have fr: "shell_frame s s'"
    unfolding s' s6_def eqs(4,3) s3_def eqs(2,1)
    by (intro shell_frame_trans [OF _ shell_frame_ops(1)] shell_frame_trans [OF _ shell_frame_ops(2)]
        shell_frame_trans [OF _ shell_frame_ops(3)] shell_frame_trans [OF _ shell_frame_ops(4)] shell_frame_refl)
  have h3: "heap_step s s3" unfolding s3_def eqs(2,1)
    by (rule heap_step_frame [OF assms(2)]) (simp_all add: kprintf_def alloc_page_def Let_def)
  have h4: "heap_step s3 s4" unfolding eqs(3) by (rule heap_step_kmalloc) (use h3 in \<open>simp_all add: heap_step_def\<close>)
  have h5: "heap_step s4 s5" unfolding eqs(4) by (rule heap_step_kmalloc) (use h4 in \<open>simp_all add: heap_step_def\<close>)
  have h6: "heap_step s5 s'" unfolding s' s6_def
    by (rule heap_step_frame) (use h5 in \<open>simp_all add: heap_step_def kprintf_def free_page_def\<close>)
  have "testdev_buffer s' = testdev_buffer s" "testdev_len s' = testdev_len s" "mmio_out s' = mmio_out s"
    unfolding s' s6_def eqs(4,3) s3_def eqs(2,1)
    by (simp_all only: mm_keeps_device)
  with fr kt l(2,4) pool 0(1) show ?thesis using heap_step_trans [OF heap_step_trans [OF heap_step_trans [OF h3 h4] h5] h6] by simp
qed

section \<open>Commands keep the shell going\<close>

text \<open>The allocators and the device are in order, and the device's table of operations is where the registry says.\<close>

definition shell_inv :: "(addr \<Rightarrow> 'z kernel_state_scheme file_ops_t) \<Rightarrow> 'z kernel_state_scheme \<Rightarrow> bool" where
  "shell_inv ops_at s \<longleftrightarrow> mm_wf s \<and> heap_wf s \<and> testdev_wf s \<and>
     (\<forall>i. find_device ''testdev'' s = Some i \<longrightarrow>
        dev_ops (devices s ! i) \<noteq> NULL \<and> ops_at (dev_ops (devices s ! i)) = testdev_ops)"

definition served :: "(addr \<Rightarrow> 'z kernel_state_scheme file_ops_t) \<Rightarrow> 'z kernel_state_scheme \<Rightarrow> 'z kernel_state_scheme \<Rightarrow> bool" where
  "served ops_at s s' \<longleftrightarrow> shell_frame s s' \<and> shell_inv ops_at s' \<and> mset (free_list s') = mset (free_list s) \<and> heap_step s s' \<and>
     keeps_tables s s'"

lemma served_trans: "served ops_at s s' \<Longrightarrow> served ops_at s' s'' \<Longrightarrow> served ops_at s s''"
  using shell_frame_trans heap_step_trans keeps_tables_trans unfolding served_def by metis

lemma find_device_devices: "devices t = devices s \<Longrightarrow> find_device n t = find_device n s"
  by (simp only: find_device_def find_loop_first)

lemma servedI:
  assumes "shell_inv ops_at s" "shell_frame s s'" "mm_wf s'" "mset (free_list s') = mset (free_list s)" "heap_step s s'" "testdev_wf s'"
    "keeps_tables s s'"
  shows "served ops_at s s'"
proof -
  have d: "devices s' = devices s" by (rule shell_frame_fields(2) [OF assms(2)])
  show ?thesis
    using assms by (simp add: served_def shell_inv_def d find_device_devices [OF d] heap_step_def)
qed

text \<open>A command that leaves both allocators' memory and the device alone.\<close>

lemma served_quiet:
  assumes "shell_inv ops_at s" "shell_frame s s'" "heap_step s s'" "mem s' = mem s" "free_pages s' = free_pages s"
    "num_free_pages s' = num_free_pages s" "testdev_wf s'"
  shows "served ops_at s s'"
proof -
  note p = pool_frame [OF assms(4-6) shell_frame_fields(4) [OF assms(2)]]
  show ?thesis using assms p keeps_tables_frame [OF assms(4) p(1,2)] by (intro servedI) (simp_all add: shell_inv_def)
qed

lemma served_log:
  assumes "shell_inv ops_at s" "log_only s t"
  shows "served ops_at s t" "mmio_out t = mmio_out s"
proof -
  obtain l where t: "t = s\<lparr>klog := l\<rparr>" using assms(2) by (auto simp: log_only_def)
  show "mmio_out t = mmio_out s" by (simp add: t)
  have "heap_step s t" by (rule heap_step_frame) (use assms(1) in \<open>simp_all add: t shell_inv_def\<close>)
  then show "served ops_at s t"
    by (rule served_quiet [OF assms(1), rotated]) (use assms(1) in \<open>simp_all add: t shell_frame_def shell_inv_def testdev_wf_def\<close>)
qed

lemma served_kprintf:
  "shell_inv ops_at s \<Longrightarrow> served ops_at s (kprintf f as s)" "mmio_out (kprintf f as s) = mmio_out s"
  by (simp_all add: served_log mm_keeps_device)

lemma served_inv: "served ops_at s s' \<Longrightarrow> shell_inv ops_at s'"
  by (simp add: served_def)

lemma vfs_open_fails:
  assumes "heap_wf s" "find_device (skip_slash path) s = None \<or> \<not> file_room s"
  shows "\<exists>s'. vfs_open ops_at path flags s = (NULL, s') \<and> heap_step s s' \<and>
    s' = s\<lparr>klog := klog s', heap_current := heap_current s', file_at := file_at s'\<rparr>"
proof (cases "find_device (skip_slash path) s")
  case None
  then show ?thesis using assms(1) by (simp add: vfs_open_def kprintf_def heap_step_frame)
next
  case (Some i)
  then have room: "heap_lim s < heap_brk s + 48" using assms by (simp add: file_room_def)
  have r: "round8 16 = 16" "round8 32 = 32" by (simp_all add: round8_def)
  show ?thesis
  proof (cases "heap_brk s + 16 \<le> heap_lim s")
    case False
    have "kmalloc 16 s = (NULL, kprintf ''[MM] Heap exhausted!\<newline>'' [] s)"
      using kmalloc_exhausted [OF assms(1), of 16] False r by simp
    then show ?thesis using Some assms(1) by (simp add: vfs_open_def kprintf_def heap_step_frame)
  next
    case True
    let ?t = "s\<lparr>heap_current := heap_current s + 16\<rparr>"
    have k: "kmalloc 16 s = (heap_current s, ?t)"
      using kmalloc_fits [OF assms(1), of 16] True r by simp
    have t: "heap_wf ?t" "heap_brk ?t = heap_brk s + 16" "heap_lim ?t = heap_lim s"
      using bh.alloc_fits [OF assms(1), of 16] True r k by simp_all
    have "kmalloc 32 ?t = (NULL, kprintf ''[MM] Heap exhausted!\<newline>'' [] ?t)"
      using kmalloc_exhausted [OF t(1), of 32] t room r by simp
    then have c: "vfs_create_inode VFS_DEV ?t = (NULL, kprintf ''[MM] Heap exhausted!\<newline>'' [] ?t)"
      by (simp add: vfs_create_inode_def)
    have nz: "heap_current s \<noteq> NULL" using bh.brk_le_lim [OF assms(1)] by (auto simp: heap_brk_def)
    let ?u = "upd_file (\<lambda>f. f\<lparr>f_inode := NULL\<rparr>) (heap_current s) (kprintf ''[MM] Heap exhausted!\<newline>'' [] ?t)"
    have "vfs_open ops_at path flags s = (NULL, ?u)"
      using Some nz by (simp add: vfs_open_def k c [simplified] kfree_def Let_def)
    moreover have "heap_step s ?t" using t by (simp add: heap_step_def)
    moreover have "heap_step ?t ?u" by (rule heap_step_frame [OF t(1)]) (simp_all add: upd_file_def kprintf_def)
    ultimately show ?thesis using heap_step_trans by (auto simp: upd_file_def kprintf_def)
  qed
qed

text \<open>What the operations of an open test device file change.\<close>

definition device_frame :: "'z testdev_state_scheme \<Rightarrow> 'z testdev_state_scheme \<Rightarrow> bool" where
  "device_frame s s' \<longleftrightarrow> s' = s\<lparr>klog := klog s', file_at := file_at s', testdev_buffer := testdev_buffer s', testdev_len := testdev_len s'\<rparr>"

lemma device_frame_trans:
  assumes "device_frame s s'" "device_frame s' s''"
  shows "device_frame s s''"
proof -
  have "s'' = s'\<lparr>klog := klog s'', file_at := file_at s'', testdev_buffer := testdev_buffer s'', testdev_len := testdev_len s''\<rparr>"
    using assms(2) by (simp add: device_frame_def)
  also have "\<dots> = s\<lparr>klog := klog s'', file_at := file_at s'', testdev_buffer := testdev_buffer s'', testdev_len := testdev_len s''\<rparr>"
    by (subst assms(1) [unfolded device_frame_def]) simp
  finally show ?thesis by (simp add: device_frame_def)
qed

lemma device_frame_ops:
  "testdev_write f buf n s = Some (r, s') \<Longrightarrow> device_frame s s'"
  "testdev_seek f p s = (r, s') \<Longrightarrow> device_frame s s'"
  "testdev_read f n s = Some (d, s') \<Longrightarrow> device_frame s s'"
  "device_frame s (kprintf fm as s)"
  by (auto simp: testdev_write_def testdev_seek_def testdev_read_def Let_def device_frame_def upd_file_def kprintf_def
      split: if_splits)

lemma testdev_file_kprintf [simp]:
  "testdev_file f (kprintf fm as s) = testdev_file f s" "file_pos f (kprintf fm as s) = file_pos f s"
  "testdev_content (kprintf fm as s) = testdev_content s" "same_ops f s (kprintf fm as t) = same_ops f s t"
  by (simp_all add: testdev_file_def testdev_wf_def file_pos_def testdev_content_def same_ops_def kprintf_def)

text \<open>The calls the command makes on the open file.\<close>

lemma testdev_exchange:
  assumes "testdev_file f s" "file_pos f s = 0" "f \<noteq> NULL" "file_ops ops_at f s = Some testdev_ops" "unat n \<le> TESTDEV_SIZE"
  obtains s1 s2 d s3 where "vfs_write ops_at f buf n s = Some (int (unat n), s1)"
    "file_ops ops_at f (kprintf fm as s1) = Some testdev_ops" "testdev_seek f 0 (kprintf fm as s1) = (0, s2)"
    "vfs_read ops_at f m s2 = Some ((int (length d), d), s3)" "testdev_wf s3" "device_frame s s3"
    "file_ops ops_at f s3 = Some testdev_ops"
proof -
  have "unat n = min (unat n) (TESTDEV_SIZE - file_pos f s)" "file_pos f s \<le> length (testdev_content s)" "file_pos f s < TESTDEV_SIZE"
    using assms(2,5) by simp_all
  then obtain s1 where w: "testdev_write f buf n s = Some (int (unat n), s1)" "testdev_file f s1"
    using td.write_ok [OF assms(1), of "unat n" n buf] by blast
  let ?s1 = "kprintf fm as s1"
  obtain r s2 where sk: "testdev_seek f 0 ?s1 = (r, s2)" by (cases "testdev_seek f 0 ?s1")
  have k: "r = 0" "testdev_file f s2" "file_pos f s2 = 0"
    using td.seek_ok [OF _ _ sk] w(2) by simp_all
  define d where "d = take (unat m) (drop (file_pos f s2) (testdev_content s2))"
  obtain s3 where rd: "testdev_read f m s2 = Some ((int (length d), d), s3)" "testdev_file f s3"
    using td.read_ok [OF k(2) _ d_def] k(3) by auto
  have so: "same_ops f s ?s1" "same_ops f s s2" "same_ops f s s3"
    using testdev_same_ops(1) [OF w(1)] testdev_same_ops(2) [OF sk] testdev_same_ops(3) [OF rd(1)]
    by (simp_all add: same_ops_def kprintf_def)
  note ops = file_ops_same [OF so(1), of ops_at, unfolded assms(4)] file_ops_same [OF so(2), of ops_at, unfolded assms(4)]
    file_ops_same [OF so(3), of ops_at, unfolded assms(4)]
  show thesis
  proof (rule that)
    show "vfs_write ops_at f buf n s = Some (int (unat n), s1)"
      using w(1) assms(3,4) by (simp add: vfs_write_def testdev_ops_def)
    show "vfs_read ops_at f m s2 = Some ((int (length d), d), s3)"
      using rd(1) assms(3) ops(2) by (simp add: vfs_read_def testdev_ops_def)
    show "device_frame s s3"
      using device_frame_ops(1) [OF w(1)] device_frame_ops(2) [OF sk] device_frame_ops(3) [OF rd(1)]
        device_frame_ops(4) [of s1 fm as] by (meson device_frame_trans)
  qed (use ops sk k(1) rd(2) in \<open>simp_all add: testdev_file_def\<close>)
qed

lemma file_ops_kprintf [simp]: "file_ops ops_at f (kprintf fm as s) = file_ops ops_at f s"
  by (simp add: file_ops_def kprintf_def)

lemma vfs_close_testdev:
  assumes "f \<noteq> NULL" "file_ops ops_at f s = Some testdev_ops"
  shows "\<exists>ia. vfs_close ops_at f s = (0, s\<lparr>inode_at := ia\<rparr>)"
proof -
  have "vfs_destroy_inode p s = s\<lparr>inode_at := inode_at (vfs_destroy_inode p s)\<rparr>" for p
    by (simp add: vfs_destroy_inode_def upd_inode_def kfree_def Let_def)
  then show ?thesis
    using assms by (auto simp: vfs_close_def testdev_ops_def testdev_close_def kfree_def Let_def)
qed

lemma shell_frame_device:
  assumes "device_frame s s'"
  shows "shell_frame s s'" "mem s' = mem s" "free_pages s' = free_pages s" "num_free_pages s' = num_free_pages s"
    "heap_current s' = heap_current s" "heap_start_sym s' = heap_start_sym s" "heap_end_sym s' = heap_end_sym s" "mmio_out s' = mmio_out s"
proof -
  note e = assms [unfolded device_frame_def]
  show m: "mem s' = mem s" "free_pages s' = free_pages s" "num_free_pages s' = num_free_pages s"
    "heap_current s' = heap_current s" "heap_start_sym s' = heap_start_sym s" "heap_end_sym s' = heap_end_sym s" "mmio_out s' = mmio_out s"
    by (subst e, simp)+
  have n: "next_ino s' = next_ino s" "inode_at s' = inode_at s" by (subst e, simp)+
  show "shell_frame s s'" unfolding shell_frame_def by (simp add: m n e [symmetric])
qed

text \<open>Opening, when it succeeds.\<close>

lemma opened_served:
  fixes flags :: u32
  assumes "shell_inv ops_at s" "file_room s" "p \<noteq> NULL" "ops_at p = testdev_ops"
  defines "s' \<equiv> opened p flags s" and "f \<equiv> heap_current s"
  shows "served ops_at s s'" "mmio_out s' = mmio_out s" "testdev_file f s'" "file_pos f s' = 0" "f \<noteq> NULL"
    "file_ops ops_at f s' = Some testdev_ops"
proof -
  have wf: "testdev_wf s" using assms(1) by (simp add: shell_inv_def)
  note o = opened_testdev [OF wf refl, where p = p and flags = flags]
  show "testdev_file f s'" "file_pos f s' = 0" "file_ops ops_at f s' = Some testdev_ops"
    using o(1,2) o(4) [OF assms(3), of ops_at] assms(4) by (simp_all add: s'_def f_def)
  show "f \<noteq> NULL" using kmalloc_16_32(3) [OF assms(2)] by (simp add: f_def)
  show m: "mmio_out s' = mmio_out s" by (simp add: s'_def opened_def Let_def)
  let ?t = "snd (kmalloc 32 (snd (kmalloc 16 s)))"
  have t: "heap_current s' = heap_current ?t" "heap_start_sym s' = heap_start_sym ?t" "heap_end_sym s' = heap_end_sym ?t"
    using kmalloc_16_32(1,2) [OF assms(2)] by (simp_all add: s'_def opened_def Let_def)
  have h1: "heap_step s (snd (kmalloc 16 s))" using assms(2) by (intro heap_step_kmalloc) (simp_all add: file_room_def)
  then have h2: "heap_step (snd (kmalloc 16 s)) ?t" by (intro heap_step_kmalloc) (simp_all add: heap_step_def)
  then have "heap_step ?t s'" using t by (intro heap_step_frame) (simp_all add: heap_step_def)
  then have "heap_step s s'" using h1 h2 heap_step_trans by blast
  then show "served ops_at s s'"
    by (intro served_quiet [OF assms(1)]) (use wf in \<open>simp_all add: s'_def opened_def Let_def shell_frame_def testdev_wf_def\<close>)
qed

lemma device_served:
  assumes "shell_inv ops_at s" "device_frame s s'" "testdev_wf s'"
  shows "served ops_at s s'" "mmio_out s' = mmio_out s"
proof -
  note d = shell_frame_device [OF assms(2)]
  have "heap_step s s'" using assms(1) d(5-7) by (intro heap_step_frame) (simp_all add: shell_inv_def)
  then show "served ops_at s s'" using d assms by (intro served_quiet) simp_all
  show "mmio_out s' = mmio_out s" by (rule d(8))
qed

lemma close_served:
  assumes "shell_inv ops_at s" "f \<noteq> NULL" "file_ops ops_at f s = Some testdev_ops"
  shows "served ops_at s (snd (vfs_close ops_at f s))" "mmio_out (snd (vfs_close ops_at f s)) = mmio_out s"
proof -
  obtain ia where c: "vfs_close ops_at f s = (0, s\<lparr>inode_at := ia\<rparr>)" using vfs_close_testdev [OF assms(2,3)] by blast
  have "heap_step s (s\<lparr>inode_at := ia\<rparr>)" using assms(1) by (intro heap_step_frame) (simp_all add: shell_inv_def)
  then show "served ops_at s (snd (vfs_close ops_at f s))" unfolding c snd_conv
    by (intro served_quiet [OF assms(1)]) (use assms(1) in \<open>simp_all add: shell_frame_def shell_inv_def testdev_wf_def\<close>)
qed (use vfs_close_testdev [OF assms(2,3)] in auto)

lemma open_fails_served:
  assumes "shell_inv ops_at s" "find_device (skip_slash path) s = None \<or> \<not> file_room s"
  shows "\<exists>s'. vfs_open ops_at path flags s = (NULL, s') \<and> served ops_at s s' \<and> mmio_out s' = mmio_out s"
proof -
  obtain s' where s': "vfs_open ops_at path flags s = (NULL, s')" "heap_step s s'"
    "s' = s\<lparr>klog := klog s', heap_current := heap_current s', file_at := file_at s'\<rparr>"
    using vfs_open_fails [OF _ assms(2), of ops_at flags] assms(1) by (auto simp: shell_inv_def)
  have "shell_frame s s'" "mem s' = mem s" "free_pages s' = free_pages s" "num_free_pages s' = num_free_pages s"
    "testdev_wf s'" "mmio_out s' = mmio_out s"
    by (subst s'(3), use assms(1) in \<open>simp add: shell_frame_def shell_inv_def testdev_wf_def\<close>)+
  then show ?thesis using s'(1) served_quiet [OF assms(1) _ s'(2)] by auto
qed

lemma shell_testdev_served:
  assumes "shell_inv ops_at s"
  shows "\<exists>s'. shell_testdev ops_at s = Some s' \<and> served ops_at s s' \<and> mmio_out s' = mmio_out s"
proof -
  define t where "t = kprintf ''[TEST] Testing /testdev device\<newline>'' [] s"
  note s0 = served_kprintf(1) [OF assms, where f = "''[TEST] Testing /testdev device\<newline>''" and as = "[]", folded t_def]
  have inv: "shell_inv ops_at t" using served_inv [OF s0] .
  have path: "skip_slash ''/testdev'' = ''testdev''" by (simp add: skip_slash_def front_def)
  show ?thesis
  proof (cases "find_device ''testdev'' t = None \<or> \<not> file_room t")
    case True
    obtain s1 where s1: "vfs_open ops_at ''/testdev'' 0 t = (NULL, s1)" and v: "served ops_at t s1" "mmio_out s1 = mmio_out t"
      using open_fails_served [OF inv, of "''/testdev''" 0] True by (auto simp: path)
    let ?s2 = "kprintf ''[TEST] Failed to open /testdev\<newline>'' [] s1"
    note s2 = served_kprintf(1) [OF served_inv [OF v(1)], where f = "''[TEST] Failed to open /testdev\<newline>''" and as = "[]"]
    have "shell_testdev ops_at s = Some ?s2" by (simp add: shell_testdev_def Let_def t_def [symmetric] s1)
    then show ?thesis using served_trans [OF s0 served_trans [OF v(1) s2]]  v(2) by (simp add: served_kprintf(2) t_def)
  next
    case False
    then obtain i where i: "find_device ''testdev'' t = Some i" and room: "file_room t" by auto
    let ?p = "dev_ops (devices t ! i)" and ?f = "heap_current t"
    have p: "?p \<noteq> NULL" "ops_at ?p = testdev_ops" using inv i by (simp_all add: shell_inv_def)
    let ?s1 = "opened ?p 0 t"
    note nz = kmalloc_16_32(3) [OF room] and o = opened_served(1-4,6) [OF inv room p, where flags = 0]
    have op: "vfs_open ops_at ''/testdev'' 0 t = (?f, ?s1)"
      by (rule vfs_open_opened [OF room]) (use i p in \<open>simp_all add: path testdev_ops_def testdev_open_def [abs_def]\<close>)
    have len: "strlen ''Hello from VFS test!'' = 20" by simp
    obtain s2 s3 d s4 where x: "vfs_write ops_at ?f (nth ''Hello from VFS test!'') 20 ?s1 = Some (20, s2)"
      "file_ops ops_at ?f (kprintf ''[TEST] Wrote %d bytes\<newline>'' [Num 20] s2) = Some testdev_ops"
      "testdev_seek ?f 0 (kprintf ''[TEST] Wrote %d bytes\<newline>'' [Num 20] s2) = (0, s3)"
      "vfs_read ops_at ?f 64 s3 = Some ((int (length d), d), s4)" "testdev_wf s4" "device_frame ?s1 s4"
      "file_ops ops_at ?f s4 = Some testdev_ops"
      by (rule testdev_exchange [OF o(3,4) nz o(5), where n = 20 and m = 64 and buf = "nth ''Hello from VFS test!''" and
            fm = "''[TEST] Wrote %d bytes\<newline>''" and as = "[Num 20]"]) (simp_all)
    define s5 where "s5 = (if 0 < length d \<and> length d < 65 then kprintf ''[TEST] Read %d bytes: %s\<newline>''
      [Num (word_of_int (int (length d))), Str (takeWhile (\<lambda>c. c \<noteq> CHR 0x00) (take (length d) d))] s4 else s4)"
    have "device_frame ?s1 s5" "testdev_wf s5" "file_ops ops_at ?f s5 = Some testdev_ops"
      using x(5-7) device_frame_trans [OF x(6) device_frame_ops(4)] by (simp_all add: s5_def testdev_wf_def) (simp_all add: kprintf_def)
    note s5 = device_served [OF served_inv [OF o(1)] this(1,2)] and c = close_served [OF served_inv nz this(3)]
    let ?s6 = "snd (vfs_close ops_at ?f s5)"
    let ?s7 = "kprintf ''[TEST] Test completed\<newline>'' [] ?s6"
    note c' = c [OF s5(1)]
    note s7 = served_kprintf(1) [OF served_inv [OF c'(1)], where f = "''[TEST] Test completed\<newline>''" and as = "[]"]
    have "shell_testdev ops_at s = Some ?s7"
      using x nz unfolding shell_testdev_def Let_def t_def [symmetric] op len by (simp add: testdev_ops_def s5_def)
    then show ?thesis
      using served_trans [OF s0 served_trans [OF o(1) served_trans [OF s5(1) served_trans [OF c'(1) s7]]]]
         o(2) s5(2) c'(2) by (simp add: served_kprintf(2) t_def)
  qed
qed

section \<open>The shell serves its input\<close>

text \<open>The complete lines of an input, edited, and how often the machine is asked to reboot.\<close>

fun shell_lines :: "string \<Rightarrow> string \<Rightarrow> string list" where
  "shell_lines l [] = []"
| "shell_lines l (c # cs) = (if line_end c then l # shell_lines [] cs else shell_lines (edit_key l c) cs)"

definition reboots :: "string list \<Rightarrow> (addr \<times> u32) list" where
  "reboots ls = replicate (count_list ls ''reboot'') (QEMU_VIRT_TEST, 0x5555)"

lemma shell_lines_keys:
  "list_all (\<lambda>c. \<not> line_end c) keys \<Longrightarrow>
   shell_lines l (keys @ rest) = (case rest of [] \<Rightarrow> [] | e # cs \<Rightarrow> shell_lines (foldl edit_key l keys) rest)"
  by (induction keys arbitrary: l) (auto split: list.split)

lemma served_mmio: "shell_inv ops_at s \<Longrightarrow> served ops_at s (s\<lparr>mmio_out := w\<rparr>)"
  by (rule served_quiet) (simp_all add: shell_inv_def shell_frame_def testdev_wf_def heap_step_frame)

text \<open>Whether the reboot register is mapped does not change while commands are served.\<close>

definition paging_ok :: "'z mm_state_scheme \<Rightarrow> bool" where
  "paging_ok s \<longleftrightarrow> drop_bit 60 (csr_satp s) = 0 \<or> pt_wf s (satp_root s)"

lemma paging_kept:
  assumes "paging_ok s" "keeps_tables s s'" "csr_satp s' = csr_satp s"
  shows "paging_ok s'" "store_maps a s' = store_maps a s"
  using assms by (auto simp: paging_ok_def keeps_tables_def store_maps_def satp_root_def)

lemma served_paging:
  assumes "paging_ok s" "served ops_at s s'"
  shows "paging_ok s'" "store_maps a s' = store_maps a s"
proof -
  have f: "shell_frame s s'" and k: "keeps_tables s s'" using assms(2) by (simp_all add: served_def)
  have "csr_satp s' = csr_satp s" by (subst f [unfolded shell_frame_def], simp)
  then show "paging_ok s'" "store_maps a s' = store_maps a s" using paging_kept assms(1) k by blast+
qed

lemma store_maps_kprintf [simp]: "store_maps a (kprintf f as s) = store_maps a s"
  by (simp add: store_maps_def satp_root_def kprintf_def)

lemma shell_command_served:
  assumes "shell_inv ops_at s" "line = ''reboot'' \<Longrightarrow> store_maps QEMU_VIRT_TEST s"
  shows "\<exists>s'. shell_command pc ops_at line s = Some (Ret () s') \<and> served ops_at s s' \<and> mmio_out s' = mmio_out s @ reboots [line]"
proof -
  have quiet: ?thesis if "line \<noteq> ''reboot''" "shell_command pc ops_at line s = Some (Ret () s')" "log_only s s'" for s'
    using that served_log [OF assms(1), of s'] by (simp add: reboots_def)
  consider "line = ''testdev''" | "line = ''test''" | "line = ''reboot''"
    | "line \<noteq> ''testdev''" "line \<noteq> ''test''" "line \<noteq> ''reboot''" by blast
  then show ?thesis
  proof cases
    case 1
    then show ?thesis using shell_testdev_served [OF assms(1)] by (auto simp: shell_command_def reboots_def)
  next
    case 2
    have i: "mm_wf s" "heap_wf s" "testdev_wf s" using assms by (simp_all add: shell_inv_def)
    note m = test_memory_keeps [OF i(1,2)]
    then have "served ops_at s (test_memory s)" using i(3) by (intro servedI [OF assms(1)]) (simp_all add: testdev_wf_def)
    with m 2 show ?thesis by (simp add: shell_command_def reboots_def)
  next
    case 3
    let ?t = "kprintf ''Rebooting...\<newline>'' [] s"
    have t: "served ops_at s ?t" "mmio_out ?t = mmio_out s" using served_kprintf(1) [OF assms(1)] served_kprintf(2) by blast+
    have "served ops_at ?t (?t\<lparr>mmio_out := mmio_out ?t @ [(QEMU_VIRT_TEST, 0x5555)]\<rparr>)"
      by (rule served_mmio [OF served_inv [OF t(1)]])
    from served_trans [OF t(1) this] t(2) 3 assms(2) show ?thesis
      by (simp add: shell_command_def store_device_def reboots_def del: QEMU_VIRT_TEST_def)
  next
    case 4
    then have "\<exists>s'. shell_command pc ops_at line s = Some (Ret () s') \<and> log_only s s'"
      by (simp add: shell_command_def Let_def log_only_sched log_only_info log_only_process split: option.split)
    then show ?thesis using quiet 4(3) by blast
  qed
qed

text \<open>The store of \<open>reboot\<close> where the register is not mapped: a store page fault, and the handler panics.\<close>

definition store_fault :: "addr \<Rightarrow> 'z kernel_state_scheme \<Rightarrow> 'z kernel_state_scheme \<Rightarrow> bool" where
  "store_fault pc s s' \<longleftrightarrow> csr_scause s' = 15 \<and> csr_sepc s' = pc \<and> csr_stval s' = QEMU_VIRT_TEST \<and>
     console_in s' = console_in s \<and> mmio_out s' = mmio_out s"

lemma shell_reboot_faults:
  assumes "\<not> store_maps QEMU_VIRT_TEST s"
  shows "\<exists>s'. shell_command pc ops_at ''reboot'' s = Some (Panic ''Unhandled exception'' s') \<and> store_fault pc s s'"
proof -
  have "(15 :: u64) AND INTERRUPT_BIT = 0" by simp
  moreover have "\<not> store_maps QEMU_VIRT_TEST (s\<lparr>klog := l\<rparr>)" for l using assms by (simp add: store_maps_def satp_root_def)
  ultimately show ?thesis
    by (simp add: shell_command_def store_device_def trap_handler_def Let_def r_scause_def r_sepc_def r_stval_def panic_def
        exception_message_def store_fault_def kprintf_def del: QEMU_VIRT_TEST_def INTERRUPT_BIT_def)
qed

lemma served_typing:
  assumes "shell_inv ops_at s"
  defines "t i l \<equiv> s\<lparr>console_in := i, klog := l\<rparr>"
  shows "shell_inv ops_at (t i l)" "mset (free_list (t i l)) = mset (free_list s)" "heap_step s (t i l)"
    "paging_ok (t i l) = paging_ok s" "store_maps a (t i l) = store_maps a s"
proof -
  have p: "free_list (t i l) = free_list s" "managed (t i l) = managed s" "mm_wf (t i l) = mm_wf s"
    using pool_frame [of "t i l" s] by (simp_all add: t_def)
  have d: "devices (t i l) = devices s" by (simp add: t_def)
  show h: "heap_step s (t i l)" using assms(1) by (intro heap_step_frame) (simp_all add: t_def shell_inv_def)
  show "mset (free_list (t i l)) = mset (free_list s)" by (simp add: p)
  show "shell_inv ops_at (t i l)" using assms(1) h
    by (simp add: shell_inv_def heap_step_def p d find_device_devices [OF d]) (simp add: t_def testdev_wf_def)
  show "store_maps a (t i l) = store_maps a s" by (simp add: store_maps_def satp_root_def t_def)
  have "mem (t i l) = mem s" "satp_root (t i l) = satp_root s" "csr_satp (t i l) = csr_satp s" by (simp_all add: satp_root_def t_def)
  then show "paging_ok (t i l) = paging_ok s" by (simp add: paging_ok_def pt_wf_def p)
qed

lemma read_line_cases:
  obtains (waits) l where "read_line [] s = (None, s\<lparr>console_in := [], klog := l\<rparr>)" "shell_lines [] (console_in s) = []"
  | (gets) line rest l where "read_line [] s = (Some line, s\<lparr>console_in := rest, klog := l\<rparr>)"
      "shell_lines [] (console_in s) = line # shell_lines [] rest" "length rest < length (console_in s)"
proof -
  obtain k r where c: "console_in s = k @ r" and k: "list_all (\<lambda>c. \<not> line_end c) k" and r: "r \<noteq> [] \<Longrightarrow> line_end (hd r)"
  proof
    show "console_in s = takeWhile (\<lambda>c. \<not> line_end c) (console_in s) @ dropWhile (\<lambda>c. \<not> line_end c) (console_in s)" by simp
    show "list_all (\<lambda>c. \<not> line_end c) (takeWhile (\<lambda>c. \<not> line_end c) (console_in s))"
      by (auto simp: list_all_iff dest: set_takeWhileD)
    show "dropWhile (\<lambda>c. \<not> line_end c) (console_in s) \<noteq> [] \<Longrightarrow> line_end (hd (dropWhile (\<lambda>c. \<not> line_end c) (console_in s)))"
      by (drule hd_dropWhile) simp
  qed
  note rl = read_line_keys [OF c k, of "[]"] and sl = shell_lines_keys [OF k, of "[]" r, folded c]
  show thesis
  proof (cases r)
    case Nil
    then show thesis using waits rl sl by (simp add: read_line_none)
  next
    case (Cons e rest)
    then have e: "line_end e" using r by simp
    then show thesis using gets rl sl c by (simp add: Cons read_line_end [OF _ e])
  qed
qed

lemma shell_frame_input:
  "shell_frame (s\<lparr>console_in := i, klog := l\<rparr>) u \<Longrightarrow> shell_frame (s\<lparr>console_in := j\<rparr>) (u\<lparr>console_in := j\<rparr>)"
  unfolding shell_frame_def by (erule ssubst) simp

text \<open>One round of the loop: the input ends, or a line is read and the loop goes on behind its command.\<close>

lemma shell_loop_round:
  obtains (waits) l where "shell_loop pc ops_at s = Some (Ret () (s\<lparr>console_in := [], klog := l\<rparr>))" "shell_lines [] (console_in s) = []"
  | (gets) line rest l where "shell_lines [] (console_in s) = line # shell_lines [] rest" "length rest < length (console_in s)"
      "shell_loop pc ops_at s =
         Option.bind (if line = [] then Some (Ret () (s\<lparr>console_in := rest, klog := l\<rparr>))
                      else shell_command pc ops_at line (s\<lparr>console_in := rest, klog := l\<rparr>))
           (\<lambda>r. case r of Ret _ s \<Rightarrow> shell_loop pc ops_at s | Panic m s \<Rightarrow> Some (Panic m s))"
proof -
  let ?s = "kprintf ''> '' [] s"
  have upd: "?s\<lparr>console_in := i, klog := l\<rparr> = s\<lparr>console_in := i, klog := l\<rparr>" for i l by (simp add: kprintf_def)
  have ci: "console_in ?s = console_in s" by (simp add: kprintf_def)
  show thesis
  proof (cases rule: read_line_cases [of ?s])
    case (waits l)
    then have "shell_loop pc ops_at s = Some (Ret () (s\<lparr>console_in := [], klog := l\<rparr>))" by (subst shell_loop.simps) (simp add: upd)
    then show thesis using that(1) waits(2) ci by simp
  next
    case (gets line rest l)
    note sl = shell_loop.simps [of pc ops_at s, unfolded gets(1) upd prod.case option.case]
    show thesis by (rule that(2) [OF _ _ sl]) (use gets(2,3) ci in simp_all)
  qed
qed

text \<open>A line that the shell survives.\<close>

lemma shell_line_served:
  assumes "shell_inv ops_at s" "line = ''reboot'' \<Longrightarrow> paging_ok s \<and> store_maps QEMU_VIRT_TEST s"
  obtains u where "(if line = [] then Some (Ret () s) else shell_command pc ops_at line s) = Some (Ret () u)" "served ops_at s u"
    "mmio_out u = mmio_out s @ reboots [line]"
proof (cases "line = []")
  case True
  have "served ops_at s s" using served_quiet [OF assms(1)] assms(1) by (simp add: heap_step_frame shell_inv_def)
  with True show thesis using that [of s] by (simp add: reboots_def)
next
  case False
  then show thesis using that shell_command_served [OF assms(1), of line pc] assms(2) by auto
qed

lemma shell_loop_serves:
  assumes "shell_inv ops_at s" "''reboot'' \<notin> set (shell_lines [] (console_in s)) \<or> paging_ok s \<and> store_maps QEMU_VIRT_TEST s"
  shows "\<exists>s'. shell_loop pc ops_at s = Some (Ret () s') \<and> shell_inv ops_at s' \<and> shell_frame (s\<lparr>console_in := []\<rparr>) s' \<and>
    mset (free_list s') = mset (free_list s) \<and> heap_step s s' \<and>
    mmio_out s' = mmio_out s @ reboots (shell_lines [] (console_in s))"
  using assms
proof (induction "length (console_in s)" arbitrary: s rule: less_induct)
  case less
  show ?case
  proof (cases rule: shell_loop_round [of pc ops_at s])
    case (waits l)
    then show ?thesis
      using served_typing [OF less.prems(1), where i = "[]" and l = l] by (simp add: reboots_def shell_frame_def)
  next
    case (gets line rest l)
    let ?t = "s\<lparr>console_in := rest, klog := l\<rparr>"
    note ty = served_typing [OF less.prems(1), where i = rest and l = l]
    have ok: "''reboot'' \<notin> set (line # shell_lines [] rest) \<or> paging_ok ?t \<and> store_maps QEMU_VIRT_TEST ?t"
      using less.prems(2) gets(1) ty(4) ty(5) [of QEMU_VIRT_TEST] by simp
    then have "line = ''reboot'' \<Longrightarrow> paging_ok ?t \<and> store_maps QEMU_VIRT_TEST ?t" by auto
    from shell_line_served [OF ty(1) this] obtain u where
      u: "(if line = [] then Some (Ret () ?t) else shell_command pc ops_at line ?t) = Some (Ret () u)" "served ops_at ?t u"
      "mmio_out u = mmio_out ?t @ reboots [line]" .
    have fr: "console_in u = rest" "shell_frame (s\<lparr>console_in := []\<rparr>) (u\<lparr>console_in := []\<rparr>)"
      using u(2) shell_frame_fields(1) [of ?t u] shell_frame_input by (auto simp: served_def)
    have "length (console_in u) < length (console_in s)" using gets(2) fr(1) by simp
    moreover have "''reboot'' \<notin> set (shell_lines [] (console_in u)) \<or> paging_ok u \<and> store_maps QEMU_VIRT_TEST u"
      using ok served_paging [OF _ u(2)] fr(1) by auto
    ultimately obtain s' where s': "shell_loop pc ops_at u = Some (Ret () s')" "shell_inv ops_at s'"
      "shell_frame (u\<lparr>console_in := []\<rparr>) s'" "mset (free_list s') = mset (free_list u)" "heap_step u s'"
      "mmio_out s' = mmio_out u @ reboots (shell_lines [] (console_in u))"
      using less.hyps [OF _ served_inv [OF u(2)]] by blast
    have "shell_loop pc ops_at s = Some (Ret () s')" using s'(1) by (simp only: gets(3) u(1) Option.bind.simps outcome.case)
    moreover have "heap_step s s'" using ty(3) u(2) s'(5) heap_step_trans by (metis served_def)
    moreover have "mmio_out s' = mmio_out s @ reboots (shell_lines [] (console_in s))"
      using s'(6) u(3) gets(1) fr(1) by (simp add: reboots_def replicate_add [symmetric] ac_simps)
    moreover have "shell_frame (s\<lparr>console_in := []\<rparr>) s'" using fr(2) s'(3) by (rule shell_frame_trans)
    ultimately show ?thesis using s' ty(2) u(2) by (simp add: served_def)
  qed
qed

text \<open>Where the register is not mapped, the loop ends in the first line \<open>reboot\<close>.\<close>

lemma shell_loop_faults:
  assumes "shell_inv ops_at s" "''reboot'' \<in> set (shell_lines [] (console_in s))" "paging_ok s" "\<not> store_maps QEMU_VIRT_TEST s"
  shows "\<exists>ls s'. shell_loop pc ops_at s = Some (Panic ''Unhandled exception'' s') \<and> store_fault pc (s\<lparr>console_in := console_in s'\<rparr>) s' \<and>
    shell_lines [] (console_in s) = ls @ ''reboot'' # shell_lines [] (console_in s') \<and> ''reboot'' \<notin> set ls"
  using assms
proof (induction "length (console_in s)" arbitrary: s rule: less_induct)
  case less
  show ?case
  proof (cases rule: shell_loop_round [of pc ops_at s])
    case (waits l)
    then show ?thesis using less.prems(2) by simp
  next
    case (gets line rest l)
    let ?t = "s\<lparr>console_in := rest, klog := l\<rparr>"
    note ty = served_typing [OF less.prems(1), where i = rest and l = l]
    have nm: "\<not> store_maps QEMU_VIRT_TEST ?t" using less.prems(4) ty(5) [of QEMU_VIRT_TEST] by simp
    show ?thesis
    proof (cases "line = ''reboot''")
      case True
      obtain s' where s': "shell_command pc ops_at ''reboot'' ?t = Some (Panic ''Unhandled exception'' s')" "store_fault pc ?t s'"
        using shell_reboot_faults [OF nm] by blast
      have "shell_loop pc ops_at s = Some (Panic ''Unhandled exception'' s')" by (simp add: gets(3) True s'(1))
      with s'(2) gets(1) True show ?thesis by (intro exI [of _ "[]"] exI [of _ s']) (simp add: store_fault_def)
    next
      case False
      then have "line = ''reboot'' \<Longrightarrow> paging_ok ?t \<and> store_maps QEMU_VIRT_TEST ?t" by simp
      from shell_line_served [OF ty(1) this] obtain u where
        u: "(if line = [] then Some (Ret () ?t) else shell_command pc ops_at line ?t) = Some (Ret () u)" "served ops_at ?t u"
        "mmio_out u = mmio_out ?t @ reboots [line]" .
      have ci: "console_in u = rest" using u(2) shell_frame_fields(1) [of ?t u] by (simp add: served_def)
      have "paging_ok ?t" using less.prems(3) ty(4) by simp
      note pg = served_paging [OF this u(2)]
      have "\<not> store_maps QEMU_VIRT_TEST u" using pg(2) [of QEMU_VIRT_TEST] nm by simp
      moreover have "''reboot'' \<in> set (shell_lines [] (console_in u))" using less.prems(2) gets(1) False ci by simp
      moreover have "length (console_in u) < length (console_in s)" using gets(2) ci by simp
      ultimately obtain ls s' where s': "shell_loop pc ops_at u = Some (Panic ''Unhandled exception'' s')"
        "store_fault pc (u\<lparr>console_in := console_in s'\<rparr>) s'"
        "shell_lines [] (console_in u) = ls @ ''reboot'' # shell_lines [] (console_in s')" "''reboot'' \<notin> set ls"
        using less.hyps [OF _ served_inv [OF u(2)] _ pg(1)] by blast
      have "shell_loop pc ops_at s = Some (Panic ''Unhandled exception'' s')"
        using s'(1) by (simp only: gets(3) u(1) Option.bind.simps outcome.case)
      then show ?thesis using s' gets(1) ci False u(3)
        by (intro exI [of _ "line # ls"] exI [of _ s']) (auto simp: store_fault_def reboots_def)
    qed
  qed
qed

text \<open>The greeting changes the log only.\<close>

lemma run_shell_greets: "\<exists>l. run_shell pc ops_at s = shell_loop pc ops_at (s\<lparr>klog := l\<rparr>)"
proof -
  let ?t = "kprintf ''Type 'help' for available commands\<newline>'' [] (kprintf ''[SHELL] Starting simple shell\<newline>'' [] s)"
  have "log_only s ?t" by simp
  then obtain l where l: "?t = s\<lparr>klog := l\<rparr>" by (auto simp: log_only_def)
  show ?thesis by (rule exI [of _ l]) (simp only: run_shell_def Let_def l)
qed

lemma run_shell_serves:
  assumes "shell_inv ops_at s" "''reboot'' \<notin> set (shell_lines [] (console_in s)) \<or> paging_ok s \<and> store_maps QEMU_VIRT_TEST s"
  shows "\<exists>s'. run_shell pc ops_at s = Some (Ret () s') \<and> shell_inv ops_at s' \<and> shell_frame (s\<lparr>console_in := []\<rparr>) s' \<and>
    mset (free_list s') = mset (free_list s) \<and> heap_step s s' \<and>
    mmio_out s' = mmio_out s @ reboots (shell_lines [] (console_in s))"
proof -
  obtain l where l: "run_shell pc ops_at s = shell_loop pc ops_at (s\<lparr>klog := l\<rparr>)" using run_shell_greets by blast
  let ?u = "s\<lparr>klog := l\<rparr>"
  note ty = served_typing [OF assms(1), where i = "console_in s" and l = l, simplified]
  obtain s' where s': "shell_loop pc ops_at ?u = Some (Ret () s')" "shell_inv ops_at s'" "shell_frame (?u\<lparr>console_in := []\<rparr>) s'"
    "mset (free_list s') = mset (free_list ?u)" "heap_step ?u s'" "mmio_out s' = mmio_out ?u @ reboots (shell_lines [] (console_in ?u))"
    using shell_loop_serves [OF ty(1), of pc] assms(2) ty(4,5) by auto
  have "shell_frame (s\<lparr>console_in := []\<rparr>) s'"
    by (rule shell_frame_trans [OF _ s'(3)]) (simp add: shell_frame_def)
  moreover have "heap_step s s'" using ty(3) s'(5) heap_step_trans by blast
  ultimately show ?thesis using s' ty(2) l by simp
qed

lemma run_shell_faults:
  assumes "shell_inv ops_at s" "''reboot'' \<in> set (shell_lines [] (console_in s))" "paging_ok s" "\<not> store_maps QEMU_VIRT_TEST s"
  shows "\<exists>ls s'. run_shell pc ops_at s = Some (Panic ''Unhandled exception'' s') \<and> store_fault pc (s\<lparr>console_in := console_in s'\<rparr>) s' \<and>
    shell_lines [] (console_in s) = ls @ ''reboot'' # shell_lines [] (console_in s') \<and> ''reboot'' \<notin> set ls"
proof -
  obtain l where l: "run_shell pc ops_at s = shell_loop pc ops_at (s\<lparr>klog := l\<rparr>)" using run_shell_greets by blast
  note ty = served_typing [OF assms(1), where i = "console_in s" and l = l, simplified]
  show ?thesis
    using shell_loop_faults [OF ty(1), of pc] assms(2-4) ty(4,5) unfolding l by (simp add: store_fault_def)
qed

text \<open>
  C24: what the shell does with its input, while the allocators and the test device are in order, no
  process is current (else \<open>ps\<close> prints through a format that takes the process identifier for a string) and
  paging is off or the installed page table is well formed. If no line reads \<open>reboot\<close> after editing, or the
  register that the command \<open>reboot\<close> stores to is mapped for writing, the input is processed to the end,
  whatever its lines are, and the shell comes back to wait for more with the allocators and the device in
  order: all pages of the pool are free again, the heap has at most grown, processes and files are
  untouched, and the reboot store has been issued exactly once for every line \<open>reboot\<close>; the shell goes on
  if the machine does. Otherwise the shell gets as far as the first line \<open>reboot\<close>: its store is never made,
  the kernel panics on the store page fault, and the lines behind it stay unread. (The table that \<open>kvminit\<close>
  installs does not map the register; see the theorem on start-up.)
\<close>

theorem shell_serves_input:
  assumes "shell_inv ops_at s" "current_proc s = None" "drop_bit 60 (csr_satp s) = 0 \<or> pt_wf s (satp_root s)"
  defines "lines \<equiv> shell_lines [] (console_in s)"
  shows "if ''reboot'' \<notin> set lines \<or> store_maps QEMU_VIRT_TEST s
    then \<exists>s'. run_shell pc ops_at s = Some (Ret () s') \<and> shell_inv ops_at s' \<and> console_in s' = [] \<and> current_proc s' = None \<and>
      mset (free_list s') = mset (free_list s) \<and> heap_brk s \<le> heap_brk s' \<and> heap_brk s' \<le> heap_lim s \<and>
      proc_table s' = proc_table s \<and> inodes s' = inodes s \<and> mmio_out s' = mmio_out s @ reboots lines
    else \<exists>ls s'. run_shell pc ops_at s = Some (Panic ''Unhandled exception'' s') \<and>
      csr_scause s' = 15 \<and> csr_sepc s' = pc \<and> csr_stval s' = QEMU_VIRT_TEST \<and> mmio_out s' = mmio_out s \<and>
      lines = ls @ ''reboot'' # shell_lines [] (console_in s') \<and> ''reboot'' \<notin> set ls"
proof (cases "''reboot'' \<notin> set lines \<or> store_maps QEMU_VIRT_TEST s")
  case True
  with assms(3) have "''reboot'' \<notin> set (shell_lines [] (console_in s)) \<or> paging_ok s \<and> store_maps QEMU_VIRT_TEST s"
    by (simp only: lines_def paging_ok_def) blast
  from run_shell_serves [OF assms(1) this, of pc] obtain s' where
    s': "run_shell pc ops_at s = Some (Ret () s')" "shell_inv ops_at s'" "shell_frame (s\<lparr>console_in := []\<rparr>) s'"
    "mset (free_list s') = mset (free_list s)" "heap_step s s'" "mmio_out s' = mmio_out s @ reboots lines"
    unfolding lines_def by blast
  have "current_proc s' = current_proc s"
    using shell_frame_fields(8,9) [OF s'(3)] by (simp add: current_proc_def)
  moreover have "heap_brk s \<le> heap_brk s'" "heap_brk s' \<le> heap_lim s"
    using s'(5) bh.brk_le_lim [of s'] by (simp_all add: heap_step_def)
  ultimately show ?thesis unfolding if_P [OF True]
    using s' shell_frame_fields [OF s'(3)] assms(2) by (intro exI [of _ s']) simp
next
  case False
  then have "''reboot'' \<in> set (shell_lines [] (console_in s))" "paging_ok s" "\<not> store_maps QEMU_VIRT_TEST s"
    using assms(3) by (simp_all add: lines_def paging_ok_def)
  from run_shell_faults [OF assms(1) this, of pc] obtain ls s' where
    "run_shell pc ops_at s = Some (Panic ''Unhandled exception'' s')" "store_fault pc (s\<lparr>console_in := console_in s'\<rparr>) s'"
    "lines = ls @ ''reboot'' # shell_lines [] (console_in s')" "''reboot'' \<notin> set ls"
    unfolding lines_def by blast
  then show ?thesis unfolding if_not_P [OF False]
    by (intro exI [of _ ls] exI [of _ s']) (simp add: store_fault_def)
qed

section \<open>Witnesses\<close>

text \<open>The kernel with its device registered and an input.\<close>

definition sample_kernel :: "string \<Rightarrow> kernel_state" where
  "sample_kernel i = sys_state.extend (sfs_state.extend sample_sfs (sys_state.fields i (\<lambda>_. CHR 0x00))) (kernel_state.fields [])"

lemma sample_kernel_fields:
  "console_in (sample_kernel i) = i" "mmio_out (sample_kernel i) = []" "devices (sample_kernel i) = devices sample_testdev"
  "testdev_buffer (sample_kernel i) = testdev_buffer sample_testdev" "testdev_len (sample_kernel i) = testdev_len sample_testdev"
  "heap_start_sym (sample_kernel i) = heap_start_sym sample_testdev" "heap_end_sym (sample_kernel i) = heap_end_sym sample_testdev"
  "heap_current (sample_kernel i) = heap_current sample_testdev" "mem (sample_kernel i) = mem sample_testdev"
  "free_pages (sample_kernel i) = free_pages sample_testdev" "num_free_pages (sample_kernel i) = num_free_pages sample_testdev"
  by (simp_all add: sample_kernel_def sample_sfs_def testdev_state.defs sfs_state.defs sys_state.defs kernel_state.defs)

lemma sample_testdev_pool:
  "mem sample_testdev = mem (mm_init sample_mm)" "free_pages sample_testdev = free_pages (mm_init sample_mm)"
  "num_free_pages sample_testdev = num_free_pages (mm_init sample_mm)" "heap_end_sym sample_testdev = heap_end_sym (mm_init sample_mm)"
proof -
  let ?s = "vfs_state.extend sample_vfs (testdev_state.fields (replicate 1024 (CHR 0x00)) 0)"
  have "\<not> dev_used (devices ?s ! 0)" by (simp add: sample_vfs_devices vfs_state.defs)
  note r = register_first [OF this, of "''testdev''" "0x80201000"]
  have e: "mem sample_testdev = mem ?s" "free_pages sample_testdev = free_pages ?s"
    "num_free_pages sample_testdev = num_free_pages ?s" "heap_end_sym sample_testdev = heap_end_sym ?s"
    by (simp_all add: sample_testdev_def testdev_register_def r kprintf_def)
  show "mem sample_testdev = mem (mm_init sample_mm)" "free_pages sample_testdev = free_pages (mm_init sample_mm)"
    "num_free_pages sample_testdev = num_free_pages (mm_init sample_mm)" "heap_end_sym sample_testdev = heap_end_sym (mm_init sample_mm)"
    by (simp_all add: e sample_vfs_def sample_sched_def sample_proc_def
        mm_state.defs vm_state.defs proc_state.defs sched_state.defs vfs_state.defs)
qed

lemma sample_shell_inv: "shell_inv (\<lambda>_. testdev_ops) (sample_kernel i)"
proof -
  let ?k = "sample_kernel i"
  have d: "find_device n ?k = find_device n sample_testdev" for n by (rule find_device_devices) (simp add: sample_kernel_fields)
  have "mm_wf ?k = mm_wf (mm_init sample_mm)" by (rule pool_frame) (simp_all add: sample_kernel_fields sample_testdev_pool)
  moreover have "heap_wf ?k" using sample_testdev_facts(2) by (simp add: file_room_def heap_wf_def sample_kernel_fields)
  ultimately show ?thesis
    using sample_testdev_facts(1,3,4) sample_pool(1) by (simp add: shell_inv_def d testdev_wf_def sample_kernel_fields)
qed

theorem read_line_edits_witness:
  "fst (read_line [] (sample_kernel (''hi'' @ [CHR 0x7F, CHR ''o'', CHR 0x0D] @ ''ps''))) = Some ''ho''"
proof -
  let ?s = "sample_kernel (''hi'' @ [CHR 0x7F, CHR ''o'', CHR 0x0D] @ ''ps'')"
  have "console_in ?s = (''hi'' @ [CHR 0x7F, CHR ''o'']) @ CHR 0x0D # ''ps''" by (simp add: sample_kernel_fields)
  moreover have "foldl edit_key [] (''hi'' @ [CHR 0x7F, CHR ''o'']) = ''ho''" by (simp add: edit_key_def printable_def)
  ultimately show ?thesis using read_line_edits [of ?s "''hi'' @ [CHR 0x7F, CHR ''o'']" "CHR 0x0D" "''ps''"]
    by (auto simp: line_end_def)
qed

lemma sample_kernel_idle: "csr_satp (sample_kernel i) = 0" "current_proc (sample_kernel i) = None"
proof -
  let ?s = "vfs_state.extend sample_vfs (testdev_state.fields (replicate 1024 (CHR 0x00)) 0)"
  have "\<not> dev_used (devices ?s ! 0)" by (simp add: sample_vfs_devices vfs_state.defs)
  note r = register_first [OF this, of "''testdev''" "0x80201000"]
  have "csr_satp sample_testdev = csr_satp ?s" by (simp add: sample_testdev_def testdev_register_def r kprintf_def)
  moreover have "csr_satp (sample_kernel i) = csr_satp sample_testdev"
    by (simp add: sample_kernel_def sample_sfs_def testdev_state.defs sfs_state.defs sys_state.defs kernel_state.defs)
  moreover have "csr_satp (mm_init sample_mm) = 0" by (simp add: mm_init_def Let_def kprintf_def sample_mm_def)
  ultimately show "csr_satp (sample_kernel i) = 0"
    by (simp add: sample_vfs_def sample_sched_def sample_proc_def mm_state.defs vm_state.defs proc_state.defs sched_state.defs vfs_state.defs)
  have "cpu_data sample_testdev = cpu_data ?s" "current_cpu sample_testdev = current_cpu ?s"
    by (simp_all add: sample_testdev_def testdev_register_def r kprintf_def)
  moreover have "cpu_data (sample_kernel i) = cpu_data sample_testdev" "current_cpu (sample_kernel i) = current_cpu sample_testdev"
    by (simp_all add: sample_kernel_def sample_sfs_def testdev_state.defs sfs_state.defs sys_state.defs kernel_state.defs)
  ultimately show "current_proc (sample_kernel i) = None"
    using sample_sched_fields by (simp add: current_proc_def sample_vfs_def sched_state.defs vfs_state.defs blank_cpu_def)
qed

theorem shell_serves_input_witness:
  "\<exists>s'. run_shell 0x80202000 (\<lambda>_. testdev_ops) (sample_kernel (''testdev'' @ [CHR 0x0A] @ ''reboot'' @ [CHR 0x0A])) = Some (Ret () s') \<and>
     console_in s' = [] \<and> mmio_out s' = [(0x100000, 0x5555)]"
proof -
  let ?i = "''testdev'' @ [CHR 0x0A] @ ''reboot'' @ [CHR 0x0A]"
  have "shell_lines [] ?i = [''testdev'', ''reboot'']" by (simp add: line_end_def edit_key_def printable_def)
  then show ?thesis using shell_serves_input [OF sample_shell_inv [of ?i] sample_kernel_idle(2) [of ?i], of "0x80202000"]
    by (auto simp: sample_kernel_fields sample_kernel_idle(1) reboots_def store_maps_def)
qed

end
