(* ===== verification/Boot.thy ===== *)
theory Boot
  imports Shell_Service
begin

text \<open>
  Start-up (\<open>kernel_main\<close> of \<open>kernel/main.c\<close>): what each initialisation leaves alone, and that on a loaded
  image the whole sequence returns with the invariants of all components in place.
\<close>

section \<open>Frames of the initialisation\<close>

text \<open>What \<open>mappages\<close> and \<open>kvminit\<close> leave alone, whether they succeed or not.\<close>

lemma walk_loop_mm_only: "mm_only s (snd (walk_loop l pt va al s))"
proof (induction l arbitrary: pt s)
  case 0
  show ?case by (simp add: mm_only_refl)
next
  case (Suc l)
  let ?t = "\<lambda>a v. store_word a v (snd (alloc_page s))"
  have "mm_only s (?t a v)" for a v by (rule mm_only_trans [OF mm_only_ops(2,3)])
  then have "mm_only s (snd (walk_loop l p va al (?t a v)))" for p a v
    using mm_only_trans Suc by blast
  then show ?case using Suc mm_only_ops(2) [of s]
    by (cases al) (simp_all add: Let_def case_prod_beta mm_only_refl)
qed

lemma walk_mm_only: "walk pt va al s = (pte, s') \<Longrightarrow> mm_only s s'"
  using walk_loop_mm_only [of s 2 pt va al] by (auto simp: walk_def mm_only_refl split: if_splits)

lemma panic_mm_only: "mm_only s (end_state (panic m s))"
  using mm_only_trans [OF mm_only_trans [OF mm_only_ops(1) mm_only_ops(1)] mm_only_ops(1)] by (simp add: panic_def)

lemma mappages_loop_mm_only:
  fixes s :: "'z mm_state_scheme"
  shows "mm_only s (end_state (mappages_loop pt a last_va pa perm s))"
proof (induction pt a last_va pa perm s rule: mappages_loop.induct)
  case (1 pt a last_va pa perm s)
  obtain pte s1 where w: "walk pt a True s = (pte, s1)" by (cases "walk pt a True s")
  note s1 = walk_mm_only [OF w]
  let ?s2 = "store_word pte (PA2PTE pa OR scast perm OR PTE_V) s1"
  have s2: "mm_only s ?s2" by (rule mm_only_trans [OF s1 mm_only_ops(3)])
  have "mm_only s (end_state (mappages_loop pt (a + PGSIZE) last_va (pa + PGSIZE) perm ?s2))"
    if "pte \<noteq> NULL" "\<not> PTE_VALID (mem s1 pte)" "a \<noteq> last_va"
    using mm_only_trans [OF s2] "1.IH" [OF w [symmetric] refl that(1,2) refl that(3)] by blast
  moreover have "mm_only s (end_state (panic m s1 :: (int, 'z mm_state_scheme) outcome))" for m
    using mm_only_trans [OF s1 panic_mm_only] .
  ultimately show ?case
    using s1 s2 by (subst mappages_loop.simps) (simp add: w Let_def)
qed

lemma kvm_map_mm_only: "mm_only s (end_state (kvm_map va sz perm msg s))"
proof -
  have m: "mm_only s (end_state (mappages pt va sz pa p s))" for pt pa p
    by (simp add: mappages_def Let_def panic_mm_only mappages_loop_mm_only)
  show ?thesis
    using m [of "kernel_pagetable s" va "ucast perm"] mm_only_trans [OF _ panic_mm_only, of s]
    by (cases "mappages (kernel_pagetable s) va sz va (ucast perm) s") (auto simp: kvm_map_def)
qed

definition vm_only :: "'z vm_state_scheme \<Rightarrow> 'z vm_state_scheme \<Rightarrow> bool" where
  "vm_only s s' \<longleftrightarrow> s' = s\<lparr>klog := klog s', free_pages := free_pages s', num_free_pages := num_free_pages s',
     mem := mem s', kernel_pagetable := kernel_pagetable s'\<rparr>"

lemma vm_only_mm:
  assumes "vm_only s s'" "mm_only s' s''"
  shows "vm_only s s''"
proof -
  have k: "kernel_pagetable s'' = kernel_pagetable s'" using assms(2) by (rule mm_only_kernel_pagetable)
  have "s'' = s'\<lparr>klog := klog s'', free_pages := free_pages s'', num_free_pages := num_free_pages s'', mem := mem s''\<rparr>"
    using assms(2) by (simp add: mm_only_def)
  also have "\<dots> = s\<lparr>klog := klog s'', free_pages := free_pages s'', num_free_pages := num_free_pages s'', mem := mem s'',
      kernel_pagetable := kernel_pagetable s''\<rparr>"
    by (subst assms(1) [unfolded vm_only_def]) (simp add: k)
  finally show ?thesis by (simp add: vm_only_def)
qed

lemma vm_only_kvm_map:
  assumes "vm_only s t" "kvm_map va sz perm msg t = Ret () u"
  shows "vm_only s u"
  using vm_only_mm [OF assms(1) kvm_map_mm_only, of va sz perm msg] assms(2) by simp

lemma vm_only_kvminit:
  assumes "kvminit s = Ret () s'"
  shows "vm_only s s'"
proof -
  obtain pt s1 where a: "alloc_page s = (pt, s1)" by (cases "alloc_page s")
  let ?s2 = "kprintf ''[VM] Created kernel page table at %p\<newline>'' [Num pt] (s1\<lparr>kernel_pagetable := pt\<rparr>)"
  have "mm_only s s1" using mm_only_ops(2) [of s] a by simp
  then obtain l f n m where "s1 = s\<lparr>klog := l, free_pages := f, num_free_pages := n, mem := m\<rparr>" by (auto simp: mm_only_def)
  then have "vm_only s (s1\<lparr>kernel_pagetable := pt\<rparr>)" by (simp add: vm_only_def)
  then have s2: "vm_only s ?s2" by (rule vm_only_mm [OF _ mm_only_ops(1)])
  obtain s3 s4 s5 s6 where k: "kvm_map KERNBASE (PHYSTOP - KERNBASE) (PTE_R OR PTE_W OR PTE_X) ''kvminit: mappages failed for kernel'' ?s2 = Ret () s3"
    "kvm_map 0x10000000 PGSIZE (PTE_R OR PTE_W) ''kvminit: mappages failed for UART'' s3 = Ret () s4"
    "kvm_map 0x0C000000 0x4000000 (PTE_R OR PTE_W) ''kvminit: mappages failed for PLIC'' s4 = Ret () s5"
    "kvm_map 0x02000000 0x10000 (PTE_R OR PTE_W) ''kvminit: mappages failed for CLINT'' s5 = Ret () s6"
    "s' = kprintf ''[VM] Kernel page table initialized\<newline>'' [] s6"
    using assms a unfolding kvminit_def Let_def by (auto simp: obind_eq_Ret split: if_splits)
  have "vm_only s s6" by (intro vm_only_kvm_map [OF vm_only_kvm_map [OF vm_only_kvm_map [OF vm_only_kvm_map [OF s2 k(1)] k(2)] k(3)] k(4)])
  then show ?thesis unfolding k(5) by (rule vm_only_mm [OF _ mm_only_ops(1)])
qed

text \<open>What \<open>scheduler_init\<close> leaves alone.\<close>

definition sched_only :: "'z sched_state_scheme \<Rightarrow> 'z sched_state_scheme \<Rightarrow> bool" where
  "sched_only s s' \<longleftrightarrow> (\<exists>l i q rt c. s' = s\<lparr>klog := l, idle_processes := i, ready_queues := q, rt_queue := rt, cpu_data := c\<rparr>)"

lemma sched_onlyI:
  "s' = s\<lparr>klog := klog s', idle_processes := idle_processes s', ready_queues := ready_queues s', rt_queue := rt_queue s',
     cpu_data := cpu_data s'\<rparr> \<Longrightarrow> sched_only s s'"
  unfolding sched_only_def by blast

lemma sched_only_trans: "sched_only s s' \<Longrightarrow> sched_only s' s'' \<Longrightarrow> sched_only s s''"
  unfolding sched_only_def by (elim exE, simp, rule sched_onlyI [unfolded sched_only_def], simp)

lemma sched_only_ops:
  "sched_only s (kprintf f as s)" "sched_only s (upd_queue g i s)" "sched_only s (upd_cpu h i s)" "sched_only s (upd_proc k (Idle i) s)"
  "sched_only s (s\<lparr>rt_queue := r\<rparr>)"
  by (rule sched_onlyI, simp add: state_updates)+

lemmas sched_only_steps = sched_only_trans [OF _ sched_only_ops(1)] sched_only_trans [OF _ sched_only_ops(2)]
  sched_only_trans [OF _ sched_only_ops(3)] sched_only_trans [OF _ sched_only_ops(4)] sched_only_trans [OF _ sched_only_ops(5)]

lemma sched_only_init_queues: "sched_only s t \<Longrightarrow> sched_only s (init_queues k i t)"
  by (induction k i t rule: init_queues.induct) (simp_all add: sched_only_steps)

lemma sched_only_init_cpus: "sched_only s t \<Longrightarrow> sched_only s (init_cpus k i t)"
  by (induction k i t rule: init_cpus.induct) (simp_all add: sched_only_steps init_idle_process_def)

lemma sched_only_scheduler_init: "sched_only s (scheduler_init s)"
proof -
  have "sched_only s s" by (rule sched_onlyI) simp
  then show ?thesis unfolding scheduler_init_def Let_def
    by (intro sched_only_steps sched_only_init_cpus sched_only_init_queues)
qed

section \<open>Start-up\<close>

text \<open>
  The image as it is loaded: the linker's symbols, the static arrays with their sizes, one CPU, and room
  for the 101 pages of the kernel's page tables and the three pages of the tests behind the heap.
\<close>

definition boot_image :: "'z kernel_state_scheme \<Rightarrow> bool" where
  "boot_image s \<longleftrightarrow> linked s \<and> 104 \<le> pool_pages s \<and> sched_boot s \<and> dev_wf s \<and>
     length (inodes s) = SFS_MAX_FILES \<and> length (testdev_buffer s) = TESTDEV_SIZE"

text \<open>Up to the page tables: the pool, the heap, and paging switched on.\<close>

lemma memory_up:
  fixes s :: "'z vm_state_scheme"
  assumes "linked s" "101 \<le> pool_pages s"
  obtains s1 l f n m k where "vm_init (mm_init s) = Ret () s1"
    "s1 = s\<lparr>klog := l, heap_current := heap_start_sym s, free_pages := f, num_free_pages := n, mem := m, kernel_pagetable := k\<rparr>"
    "kvm_maps (pool_pages s) (kernel_pagetable s1) kvm_entry s1" "heap_wf s1"
proof -
  let ?t = "kprintf ''[VM] Initializing SV39 virtual memory\<newline>'' [] (mm_init s)"
  have p: "free_list ?t = free_list (mm_init s)" "mm_wf ?t = mm_wf (mm_init s)"
    using pool_frame [of ?t "mm_init s"] by (simp_all add: kprintf_def)
  have t: "mm_wf ?t" "101 \<le> length (free_list ?t)"
    using mm_wf_mm_init [OF assms(1)] assms(2) by (simp_all add: p free_list_mm_init [OF assms(1)])
  obtain s1 where s1: "kvminit ?t = Ret () s1" "kvm_maps (pool_pages s) (kernel_pagetable s1) kvm_entry s1"
    using kvminit_ok [OF t] by (auto simp: p free_list_mm_init [OF assms(1)])
  have "mm_init s = s\<lparr>klog := klog (mm_init s), heap_current := heap_start_sym s, free_pages := free_pages (mm_init s),
      num_free_pages := num_free_pages (mm_init s), mem := mem (mm_init s)\<rparr>"
    by (simp add: mm_init_def Let_def kprintf_def)
  then obtain l f n m where i: "mm_init s = s\<lparr>klog := l, heap_current := heap_start_sym s, free_pages := f, num_free_pages := n, mem := m\<rparr>"
    by blast
  obtain l' f' n' m' k where e: "s1 = ?t\<lparr>klog := l', free_pages := f', num_free_pages := n', mem := m', kernel_pagetable := k\<rparr>"
    using vm_only_kvminit [OF s1(1)] by (auto simp: vm_only_def)
  then have s1': "s1 = s\<lparr>klog := l', heap_current := heap_start_sym s, free_pages := f', num_free_pages := n', mem := m', kernel_pagetable := k\<rparr>"
    by (simp add: i kprintf_def)
  have "heap_wf s1"
    using assms(1) linked_unat [OF assms(1)]
    by (auto simp: s1' heap_wf_def word_le_nat_alt page_aligned_dvd linked_def unat_mod simp flip: unat_eq_0
        intro: dvd_trans [of 8 4096])
  then show thesis using that s1 s1' by (simp add: vm_init_def)
qed

text \<open>The file systems and the device, on any state with a heap and a registry.\<close>

definition files_state :: "addr \<Rightarrow> 'z kernel_state_scheme \<Rightarrow> 'z kernel_state_scheme" where
  "files_state ops s = s\<lparr>
     heap_current := heap_current s + 0x100000,
     devices := (map (\<lambda>d. d\<lparr>dev_used := False\<rparr>) (devices s))[0 := \<lparr>dev_name = ''testdev'', dev_ops = ops, dev_used = True\<rparr>],
     testdev_len := 0,
     superblock := \<lparr>sb_magic = SFS_MAGIC, sb_block_size = SFS_BLOCK_SIZE, sb_num_blocks = 256, sb_num_inodes = 64,
       sb_num_free_blocks = 256, sb_num_free_inodes = 64\<rparr>,
     inodes := map (\<lambda>n. n\<lparr>n_ino := 0, n_type := 0, n_size := 0\<rparr>) (inodes s),
     data_blocks := heap_current s\<rparr>"

lemma files_up:
  fixes s :: "'z kernel_state_scheme"
  assumes "heap_wf s" "heap_brk s + 1048576 \<le> heap_lim s" "dev_wf s"
  shows "\<exists>l. snd (testdev_register ops (testdev_init (snd (sfs_format 256 (sfs_init (vfs_init s)))))) = (files_state ops s)\<lparr>klog := l\<rparr>"
proof -
  define s1 where "s1 = sfs_init (vfs_init s)"
  have "s1 = s\<lparr>klog := klog s1, devices := map (\<lambda>d. d\<lparr>dev_used := False\<rparr>) (devices s),
      inodes := map (\<lambda>n. n\<lparr>n_ino := 0, n_type := 0, n_size := 0\<rparr>) (inodes s)\<rparr>"
    by (simp add: s1_def vfs_init_def sfs_init_def kprintf_def Let_def)
  then obtain l1 where s1: "s1 = s\<lparr>klog := l1, devices := map (\<lambda>d. d\<lparr>dev_used := False\<rparr>) (devices s),
      inodes := map (\<lambda>n. n\<lparr>n_ino := 0, n_type := 0, n_size := 0\<rparr>) (inodes s)\<rparr>" by blast
  let ?sb = "\<lparr>sb_magic = 0x53465331, sb_block_size = 4096, sb_num_blocks = 256, sb_num_inodes = 64,
       sb_num_free_blocks = 256, sb_num_free_inodes = 64\<rparr>"
  define u where "u = (kprintf ''[SFS] Formatting file system with %u blocks\<newline>'' [u32_arg 256] s1)\<lparr>superblock := ?sb\<rparr>"
  have f: "heap_current u = heap_current s" "heap_start_sym u = heap_start_sym s" "heap_end_sym u = heap_end_sym s"
    by (simp_all add: u_def s1 kprintf_def)
  have h: "heap_wf u" "heap_brk u = heap_brk s" "heap_lim u = heap_lim s"
    using assms(1) by (simp_all add: heap_wf_def heap_brk_def heap_lim_def f)
  have "round8 1048576 = 1048576" by (simp add: round8_def)
  then have k: "kmalloc 0x100000 u = (heap_current u, u\<lparr>heap_current := heap_current u + 0x100000\<rparr>)"
    using kmalloc_fits [OF h(1), of "0x100000"] assms(2) h by simp
  have nz: "heap_current u \<noteq> NULL" using bh.brk_le_lim [OF h(1)] by (auto simp: heap_brk_def)
  let ?v = "u\<lparr>heap_current := heap_current u + 0x100000, data_blocks := heap_current u\<rparr>"
  let ?w = "testdev_init (kprintf ''[SFS] File system formatted successfully\<newline>'' [] ?v)"
  have fm: "snd (sfs_format 256 s1) = kprintf ''[SFS] File system formatted successfully\<newline>'' [] ?v"
    using k nz by (simp add: sfs_format_def Let_def u_def [symmetric])
  have "\<not> dev_used (devices ?w ! 0)"
    using assms(3) by (simp add: testdev_init_def kprintf_def u_def s1 dev_wf_def)
  note r = register_first [OF this, of "''testdev''" ops]
  have nm: "copy_name 31 ''testdev'' = ''testdev''" by (simp add: copy_name_take c_string_def)
  show ?thesis
    unfolding s1_def [symmetric] fm testdev_register_def r snd_conv nm
    by (rule exI [of _ "l1 @ [LPrintf ''[SFS] Formatting file system with %u blocks\<newline>'' [u32_arg 256],
          LPrintf ''[SFS] File system formatted successfully\<newline>'' [], LPrintf ''[VFS] Registered device: %s\<newline>'' [Str ''testdev'']]"])
      (simp add: files_state_def testdev_init_def u_def s1 kprintf_def)
qed

lemma files_state_facts:
  fixes s :: "'z kernel_state_scheme" and l :: "log_entry list" and ops :: addr
  assumes "heap_wf s" "heap_brk s + 1048576 \<le> heap_lim s" "dev_wf s" "length (inodes s) = SFS_MAX_FILES"
    "length (testdev_buffer s) = TESTDEV_SIZE"
  defines "s' \<equiv> (files_state ops s)\<lparr>klog := l\<rparr>"
  shows "dev_wf s'" "find_device ''testdev'' s' = Some 0" "dev_ops (devices s' ! 0) = ops" "sfs_wf s'"
    "free_inodes s' = {..<SFS_MAX_FILES}" "testdev_wf s'" "testdev_content s' = []" "heap_wf s'" "heap_brk s' = heap_brk s + 1048576"
    "heap_lim s' = heap_lim s"
proof -
  let ?d = "\<lparr>dev_name = ''testdev'', dev_ops = ops, dev_used = True\<rparr>"
  have len: "length (devices s) = MAX_DEVICES" using assms(3) by (simp add: dev_wf_def)
  show wf: "dev_wf s'"
    using assms(3) set_update_subset_insert [of "map (\<lambda>d. d\<lparr>dev_used := False\<rparr>) (devices s)" 0 ?d]
    by (auto simp: dev_wf_def s'_def files_state_def list_all_iff c_string_def)
  have nm: "c_string ''testdev''" by (simp add: c_string_def)
  show "find_device ''testdev'' s' = Some 0"
    using len unfolding find_device_iff(2) [OF wf nm] by (simp add: registered_def s'_def files_state_def)
  show "dev_ops (devices s' ! 0) = ops" using len by (simp add: s'_def files_state_def)
  have i: "inodes s' = map (\<lambda>n. n\<lparr>n_ino := 0, n_type := 0, n_size := 0\<rparr>) (inodes s)" by (simp add: s'_def files_state_def)
  show fr: "free_inodes s' = {..<SFS_MAX_FILES}" using assms(4) by (auto simp: free_inodes_def i)
  show "sfs_wf s'" using assms(4) by (simp add: sfs_wf_def fr i) (simp add: s'_def files_state_def)
  show "testdev_wf s'" "testdev_content s' = []"
    using assms(5) by (simp_all add: s'_def files_state_def testdev_wf_def testdev_content_def)
  have "round8 1048576 = 1048576" by (simp add: round8_def)
  then have k: "kmalloc 0x100000 s = (heap_current s, s\<lparr>heap_current := heap_current s + 0x100000\<rparr>)"
    using kmalloc_fits [OF assms(1), of "0x100000"] assms(2) by simp
  show "heap_wf s'" "heap_brk s' = heap_brk s + 1048576" "heap_lim s' = heap_lim s"
    using bh.alloc_fits [OF assms(1), of "0x100000"] assms(2) \<open>round8 1048576 = 1048576\<close>
    by (simp_all add: k heap_wf_def heap_brk_def heap_lim_def s'_def files_state_def)
qed

text \<open>Printing does not change an image.\<close>

lemma boot_image_log: "boot_image s \<Longrightarrow> log_only s t \<Longrightarrow> boot_image t \<and> heap_start_sym t = heap_start_sym s"
  by (auto simp: log_only_def boot_image_def linked_def pool_pages_def sched_boot_def dev_wf_def)

lemma translate_frame: "mem t = mem s \<Longrightarrow> va2pa r x t = va2pa r x s"
proof -
  assume m: "mem t = mem s"
  have "fst (walk_loop l p x False t) = fst (walk_loop l p x False s) \<and> mem (snd (walk_loop l p x False t)) = mem (snd (walk_loop l p x False s))" for l p
    using m by (induction l arbitrary: p) (simp_all add: Let_def)
  then show ?thesis by (simp add: va2pa_def walk_def case_prod_beta Let_def m)
qed

text \<open>Everything between paging and the file systems leaves memory and the file systems alone.\<close>

lemma middle_frame:
  fixes s :: "'z kernel_state_scheme"
  obtains l st sie sv satp sf i q rt c where
    "scheduler_init (trap_init e (kvminithart s)) = s\<lparr>klog := l, csr_sstatus := st, csr_sie := sie, csr_stvec := sv, csr_satp := satp,
       sfences := sf, idle_processes := i, ready_queues := q, rt_queue := rt, cpu_data := c\<rparr>"
    "sv = e" "satp = SATP_SV39 OR drop_bit 12 (kernel_pagetable s)" "sie = csr_sie s OR SIE_SEIE OR SIE_STIE OR SIE_SSIE"
    "st = csr_sstatus s OR SSTATUS_SIE"
proof -
  let ?t = "trap_init e (kvminithart s)"
  have "?t = s\<lparr>klog := klog ?t, csr_sstatus := csr_sstatus s OR SSTATUS_SIE, csr_sie := csr_sie s OR SIE_SEIE OR SIE_STIE OR SIE_SSIE,
      csr_stvec := e, csr_satp := SATP_SV39 OR drop_bit 12 (kernel_pagetable s), sfences := sfences ?t\<rparr>"
    by (simp add: trap_init_def kvminithart_def kprintf_def w_stvec_def w_sie_def w_sstatus_def r_sie_def r_sstatus_def
        r_stvec_def w_satp_def sfence_vma_def Let_def)
  then obtain l sf where t: "?t = s\<lparr>klog := l, csr_sstatus := csr_sstatus s OR SSTATUS_SIE, csr_sie := csr_sie s OR SIE_SEIE OR SIE_STIE OR SIE_SSIE,
      csr_stvec := e, csr_satp := SATP_SV39 OR drop_bit 12 (kernel_pagetable s), sfences := sf\<rparr>" by blast
  obtain l' i q rt c where "scheduler_init ?t = ?t\<lparr>klog := l', idle_processes := i, ready_queues := q, rt_queue := rt, cpu_data := c\<rparr>"
    using sched_only_scheduler_init [of ?t] unfolding sched_only_def by blast
  then show thesis
    by (intro that [where l = l' and st = "csr_sstatus s OR SSTATUS_SIE" and sie = "csr_sie s OR SIE_SEIE OR SIE_STIE OR SIE_SSIE" and
          sv = e and satp = "SATP_SV39 OR drop_bit 12 (kernel_pagetable s)" and sf = sf and i = i and q = q and rt = rt and c = c])
      (simp_all add: t)
qed

text \<open>What start-up establishes.\<close>

definition booted :: "addr \<Rightarrow> addr \<Rightarrow> 'z kernel_state_scheme \<Rightarrow> bool" where
  "booted trap_entry ops s \<longleftrightarrow>
     mm_wf s \<and> heap_wf s \<and> pt_wf s (kernel_pagetable s) \<and>
     csr_satp s = SATP_SV39 OR drop_bit 12 (kernel_pagetable s) \<and> csr_stvec s = trap_entry \<and>
     csr_sie s AND (SIE_SEIE OR SIE_STIE OR SIE_SSIE) = SIE_SEIE OR SIE_STIE OR SIE_SSIE \<and>
     csr_sstatus s AND SSTATUS_SIE = SSTATUS_SIE \<and>
     sched_wf s \<and> queued s = [] \<and> current_proc s = None \<and>
     dev_wf s \<and> find_device ''testdev'' s = Some 0 \<and> dev_ops (devices s ! 0) = ops \<and>
     testdev_wf s \<and> testdev_content s = [] \<and> sfs_wf s \<and> free_inodes s = {..<SFS_MAX_FILES}"

lemma middle_boot: "sched_boot (trap_init e (kvminithart s)) = sched_boot s"
  by (simp add: sched_boot_def trap_init_def kvminithart_def kprintf_def w_stvec_def w_sie_def w_sstatus_def
      w_satp_def sfence_vma_def Let_def)

lemma or_and_absorb: "((x :: u64) OR y) AND y = y"
  by (rule bit_eqI) (auto simp: bit_simps)

lemma kernel_init_boots:
  fixes s :: "'z kernel_state_scheme"
  assumes "boot_image s"
  shows "\<exists>s'. kernel_init trap_entry ops s = Ret () s' \<and> booted trap_entry ops s' \<and>
    heap_brk s' = unat (heap_start_sym s) + 1048576 \<and> data_blocks s' = heap_start_sym s \<and> proc_table s' = proc_table s \<and>
    (\<forall>w < 2 ^ 27. translate (mem s') (kernel_pagetable s') w = kvm_entry w) \<and> console_in s' = console_in s \<and>
    mmio_out s' = mmio_out s \<and> pool_pages s \<le> length (free_list s') + 101"
proof -
  let ?p = "kprintf ''[KERNEL] Kernel loaded at 0x80200000\<newline>'' [] (kprintf ''[KERNEL] Starting RISC-V OS kernel...\<newline>'' [] (print_banner s))"
  have "log_only s ?p" by (simp add: print_banner_def Let_def)
  then obtain l0 where p: "?p = s\<lparr>klog := l0\<rparr>" by (auto simp: log_only_def)
  let ?s = "s\<lparr>klog := l0\<rparr>"
  have im: "boot_image ?s" using boot_image_log [OF assms, of ?s] by (auto simp: log_only_def)
  then have im': "linked ?s" "101 \<le> pool_pages ?s" by (simp_all add: boot_image_def)
  obtain s1 l f n m k where v: "vm_init (mm_init ?s) = Ret () s1"
    and s1: "s1 = ?s\<lparr>klog := l, heap_current := heap_start_sym ?s, free_pages := f, num_free_pages := n, mem := m, kernel_pagetable := k\<rparr>"
    and km: "kvm_maps (pool_pages ?s) (kernel_pagetable s1) kvm_entry s1" and h1: "heap_wf s1"
    using memory_up [OF im'] .
  obtain l2 st sie sv satp sf i q rt c where
    s2: "scheduler_init (trap_init trap_entry (kvminithart s1)) = s1\<lparr>klog := l2, csr_sstatus := st, csr_sie := sie, csr_stvec := sv,
       csr_satp := satp, sfences := sf, idle_processes := i, ready_queues := q, rt_queue := rt, cpu_data := c\<rparr>"
    and cs: "sv = trap_entry" "satp = SATP_SV39 OR drop_bit 12 (kernel_pagetable s1)" "sie = csr_sie s1 OR SIE_SEIE OR SIE_STIE OR SIE_SSIE"
      "st = csr_sstatus s1 OR SSTATUS_SIE"
    using middle_frame [of trap_entry s1] .
  define s2' where "s2' = s1\<lparr>klog := l2, csr_sstatus := st, csr_sie := sie, csr_stvec := sv,
       csr_satp := satp, sfences := sf, idle_processes := i, ready_queues := q, rt_queue := rt, cpu_data := c\<rparr>"
  have "sched_boot s1" using im by (simp add: s1 boot_image_def sched_boot_def)
  note w = scheduler_init_wf [OF middle_boot [THEN iffD2, OF this], of trap_entry, unfolded s2, folded s2'_def]
  have "heap_wf s2'" using h1 by (simp add: s2'_def heap_wf_def)
  moreover have b: "heap_brk s2' = unat (heap_start_sym s)" by (simp add: s2'_def s1 heap_brk_def)
  moreover have "heap_lim s2' = unat (heap_start_sym s) + 0x400000"
    using linked_unat(1) [OF im'(1)] by (simp add: s2'_def s1 heap_lim_def)
  moreover have "dev_wf s2'" "length (inodes s2') = SFS_MAX_FILES" "length (testdev_buffer s2') = TESTDEV_SIZE"
    using im by (simp_all add: s2'_def s1 boot_image_def dev_wf_def)
  ultimately have pre: "heap_wf s2'" "heap_brk s2' + 1048576 \<le> heap_lim s2'" "dev_wf s2'" "length (inodes s2') = SFS_MAX_FILES"
    "length (testdev_buffer s2') = TESTDEV_SIZE" by simp_all
  obtain l3 where s3: "snd (testdev_register ops (testdev_init (snd (sfs_format 256 (sfs_init (vfs_init s2')))))) = (files_state ops s2')\<lparr>klog := l3\<rparr>"
    using files_up [OF pre(1-3)] by blast
  let ?s' = "(files_state ops s2')\<lparr>klog := l3\<rparr>"
  note ff = files_state_facts [OF pre, where ops = ops and l = l3]
  note sf = sched_frame [of ?s' s2']
  have mm: "free_list ?s' = free_list s1" "managed ?s' = managed s1" "mm_wf ?s' = mm_wf s1" "kernel_pagetable ?s' = kernel_pagetable s1" "mem ?s' = mem s1"
    using pool_frame [of ?s' s1] by (simp_all add: files_state_def s2'_def)
  have kv: "mm_wf s1" "pt_wf s1 (kernel_pagetable s1)" "\<forall>w < 2 ^ 27. translate (mem s1) (kernel_pagetable s1) w = kvm_entry w"
    using km by (simp_all add: kvm_maps_def kvm_wf_def)
  have "pt_wf ?s' (kernel_pagetable ?s')" using kv(2) unfolding pt_wf_def mm .
  moreover have "csr_satp ?s' = satp" "csr_stvec ?s' = sv" "csr_sie ?s' = sie" "csr_sstatus ?s' = st" "console_in ?s' = console_in s" "mmio_out ?s' = mmio_out s"
    "data_blocks ?s' = heap_start_sym s" "proc_table ?s' = proc_table s2'"
    by (simp_all add: files_state_def s2'_def s1)
  moreover have "kernel_init trap_entry ops s = Ret () ?s'"
    unfolding kernel_init_def Let_def p v obind.simps s2 s2'_def [symmetric] s3 ..
  moreover have "sched_wf ?s'" "queued ?s' = []" "current_proc ?s' = None" using sf w by (simp_all add: files_state_def)
  moreover have "pool_pages s \<le> length (free_list ?s') + 101"
    using kvm_maps_left [OF km] by (simp add: mm pool_pages_def pool_start_def)
  moreover have "proc_table s2' = proc_table s" by (simp add: s2'_def s1)
  ultimately show ?thesis
    using ff mm kv b by (intro exI [of _ ?s']) (simp add: booted_def cs or.assoc or_and_absorb)
qed

section \<open>The built-in tests\<close>

lemma log_frame:
  fixes s :: "'z mm_state_scheme"
  assumes "log_only s t"
  shows "mem t = mem s" "free_list t = free_list s" "managed t = managed s" "mm_wf t = mm_wf s" "pt_wf t r = pt_wf s r" "mm_only s t"
proof -
  obtain l where t: "t = s\<lparr>klog := l\<rparr>" using assms by (auto simp: log_only_def)
  show m: "mem t = mem s" by (simp add: t)
  show p: "free_list t = free_list s" "managed t = managed s" "mm_wf t = mm_wf s" using pool_frame [of t s] by (simp_all add: t)
  show "pt_wf t r = pt_wf s r" by (simp add: pt_wf_def m p)
  show "mm_only s t" by (simp add: t mm_only_def)
qed

lemma mappages_mm_only: "mappages pt va sz pa perm s = Ret n s' \<Longrightarrow> mm_only s s'"
  using mappages_loop_mm_only [of s] by (auto simp: mappages_def Let_def split: if_splits) (metis outcome.sel(2))

text \<open>With three free pages the test of the virtual memory passes and gives every page back.\<close>

lemma test_vm_passes:
  fixes s :: "'z kernel_state_scheme"
  assumes "mm_wf s" "3 \<le> length (free_list s)"
  shows "\<exists>s'. test_vm s = Some (Ret () (kprintf ''[TEST] Virtual memory test PASSED\<newline>'' [] s')) \<and> mm_only s s' \<and> mm_wf s' \<and>
    mset (free_list s') = mset (free_list s)"
proof -
  define s0 where "s0 = kprintf ''[TEST] Testing virtual memory...\<newline>'' [] s"
  note f0 = log_frame [of s s0, unfolded s0_def log_only_kprintf, OF log_only_refl, folded s0_def]
  have w0: "mm_wf s0" using assms(1) f0(4) by simp
  obtain pt ps where fl: "free_list s0 = pt # ps" "2 \<le> length ps" using assms(2) f0(2) by (cases "free_list s") auto
  obtain s1 where al: "alloc_page s0 = (pt, s1)" using pp.alloc_pops [OF w0 fl(1)] by (cases "alloc_page s0") auto
  have nz: "pt \<noteq> NULL" using mm_wf_Cons(1) [OF w0 fl(1)] by (rule managed_page)
  note r1 = fresh_root [OF w0 fl(1), unfolded al snd_conv]
  have s1: "mm_wf s1" "free_list s1 = ps" "mm_only s0 s1"
    using mm_wf_alloc [OF w0] free_list_alloc [OF w0 fl(1)] mm_only_ops(2) [of s0] by (simp_all add: al)
  define t1 where "t1 = kprintf ''[TEST] Created user page table at %p\<newline>'' [Num pt] s1"
  note f1 = log_frame [of s1 t1, unfolded t1_def log_only_kprintf, OF log_only_refl, folded t1_def]
  have t1: "mm_wf t1" "pt_wf t1 pt" "translate (mem t1) pt = (\<lambda>_. None)" "pt_tables (mem t1) pt = {[]}"
    using s1(1) r1 f1 by simp_all
  have pg: "page_no 0x1000 = 1" "page_count 0x1000 4096 = 1" by (simp_all add: page_no_def page_count_def)
  have "room (range_paths 1 1) pt t1" using range_paths_le [of 1 1] fl(2) s1(2) f1(2) by (intro room_card) simp
  then obtain s2 where s2: "mappages pt 0x1000 4096 0x80100000 22 t1 = Ret 0 s2" "pt_grows pt (range_paths 1 1) t1 s2"
    "\<forall>w < 2 ^ 27. translate (mem s2) pt w = (if 1 \<le> w \<and> w < 1 + 1 then Some (leaf_entry (0x80100000 + of_nat (w - 1) * 4096) 22)
       else translate (mem t1) pt w)"
    using mappages_ok [OF t1(1,2), of 4096 "0x1000" "range_paths 1 1" "0x80100000" 22] range_paths_pt t1(3) by (auto simp: pg)
  define t2 where "t2 = kprintf ''[TEST] Mapped VA 0x1000 -> PA %p\<newline>'' [Num 0x80100000] s2"
  note f2 = log_frame [of s2 t2, unfolded t2_def log_only_kprintf, OF log_only_refl, folded t2_def]
  have "pt_wf t2 pt" using s2(2) f2(5) by (simp add: pt_grows_def)
  moreover have "translate (mem t2) pt 1 = Some (leaf_entry 0x80100000 22)" using s2(3) f2(1) by simp
  ultimately have wa: "walkaddr pt 0x1000 t2 = 0x80100000"
    using walkaddr_translate [of t2 pt "0x1000"] by (simp add: PTE2PA_leaf_entry)
  define t3 where "t3 = kprintf ''[TEST] Address translation verified\<newline>'' [] t2"
  note f3 = log_frame [of s2 t3, unfolded t3_def t2_def log_only_kprintf, OF log_only_refl, folded t2_def, folded t3_def]
  obtain s3 where s3: "vm_free 3 pt t3 = Some s3" "mm_wf s3" "set (free_list s3) = insert pt (set ps)"
    using mapped_then_freed [OF t1 s2(1) _ f3(1-4)] s1(2) f1(2) by auto
  have "mm_only s s3"
    using f0(6) s1(3) f1(6) mappages_mm_only [OF s2(1)] f3(6) vm_free_mm_only(1) [OF s3(1)] by (meson mm_only_trans)
  moreover have "mset (free_list s3) = mset (free_list s)"
    using s3(2,3) w0 fl(1) f0(2) set_eq_iff_mset_eq_distinct [of "free_list s3" "free_list s"] assms(1) by (simp add: mm_wf_def)
  moreover have "test_vm s = Some (Ret () (kprintf ''[TEST] Virtual memory test PASSED\<newline>'' [] s3))"
    unfolding test_vm_def Let_def vm_create_user_pagetable_def
    using al nz s2(1) wa s3(1) by (simp add: s0_def [symmetric] t1_def [symmetric] t2_def [symmetric] t3_def [symmetric])
  ultimately show ?thesis using s3(2) by blast
qed

text \<open>What the test of the scheduler changes.\<close>

definition tasks_only :: "'z sched_state_scheme \<Rightarrow> 'z sched_state_scheme \<Rightarrow> bool" where
  "tasks_only s s' \<longleftrightarrow> (\<exists>l p i n q rt. s' = s\<lparr>klog := l, proc_table := p, next_pid := n, idle_processes := i, ready_queues := q, rt_queue := rt\<rparr>)"

lemma tasks_onlyI:
  "s' = s\<lparr>klog := klog s', proc_table := proc_table s', next_pid := next_pid s', idle_processes := idle_processes s',
     ready_queues := ready_queues s', rt_queue := rt_queue s'\<rparr> \<Longrightarrow> tasks_only s s'"
  unfolding tasks_only_def by blast

lemma tasks_only_trans: "tasks_only s s' \<Longrightarrow> tasks_only s' s'' \<Longrightarrow> tasks_only s s''"
  unfolding tasks_only_def by (elim exE, simp, rule tasks_onlyI [unfolded tasks_only_def], simp)

lemma tasks_only_ops:
  "tasks_only s (kprintf f as s)" "tasks_only s (upd_proc g r s)" "tasks_only s (upd_queue h i s)"
  "tasks_only s (s\<lparr>rt_queue := rt\<rparr>)" "tasks_only s (s\<lparr>next_pid := n\<rparr>)"
proof -
  show "tasks_only s (upd_proc g r s)" by (rule tasks_onlyI) (cases r; simp add: state_updates)
qed (rule tasks_onlyI, simp add: state_updates)+

lemma tasks_only_sched_add: "tasks_only s (sched_add p s)"
proof (cases p)
  case (Some r)
  let ?s = "upd_proc (\<lambda>p. p\<lparr>p_state := PROC_RUNNABLE\<rparr>) r s"
  note t = tasks_only_trans [OF tasks_only_ops(2) [of s "\<lambda>p. p\<lparr>p_state := PROC_RUNNABLE\<rparr>" r]]
  show ?thesis
    unfolding sched_add_def Some option.case Let_def
    by (simp add: t [OF tasks_only_ops(3)] t [OF tasks_only_ops(4)] tasks_only_ops(2) split del: if_split cong: if_cong split: if_split)
qed (simp add: sched_add_def tasks_onlyI)

text \<open>
  The scheduler is set up, nothing waits and nothing runs, and exactly the first \<open>n\<close> slots are in use.
\<close>

definition prepared :: "nat \<Rightarrow> 'z sched_state_scheme \<Rightarrow> bool" where
  "prepared n s \<longleftrightarrow> sched_wf s \<and> queued s = [] \<and> current_proc s = None \<and> n \<le> MAX_PROCESSES \<and>
     (\<forall>i < MAX_PROCESSES. in_use s i \<longleftrightarrow> i < n)"

lemma prepared_log [simp]: "prepared n (kprintf f as s) = prepared n s"
  by (simp add: prepared_def in_use_def)

lemma prepared_upd:
  assumes "prepared n s" "i < n" "\<And>p. p_policy p \<noteq> SCHED_IDLE \<Longrightarrow> p_policy (f p) \<noteq> SCHED_IDLE" "\<And>p. p_state (f p) = p_state p"
  shows "prepared n (upd_proc f (Proc i) s)" "get_proc (upd_proc f (Proc i) s) (Proc i) = f (get_proc s (Proc i))"
    "x \<noteq> Proc i \<Longrightarrow> get_proc (upd_proc f (Proc i) s) x = get_proc s x"
proof -
  have i: "i < MAX_PROCESSES" using assms(1,2) by (simp add: prepared_def)
  have w: "sched_wf s" "queued s = []" "current_proc s = None" using assms(1) by (simp_all add: prepared_def)
  have v: "valid_ref s (Proc i)" using i sched_wfD(1) [OF w(1)] by (simp add: cpu_ok_def)
  have "sched_wf (upd_proc f (Proc i) s)" by (rule sched_wf_upd [OF w(1) i]) (use w assms(3) in simp_all)
  moreover have "in_use (upd_proc f (Proc i) s) j = in_use s j" for j
    using i v assms(4) by (auto simp: in_use_def nth_list_update upd_proc.simps)
  moreover have "current_proc (upd_proc f (Proc i) s) = None" using w(3) by (simp add: current_proc_def)
  ultimately show "prepared n (upd_proc f (Proc i) s)" using assms(1) queued_ok_frame [of "upd_proc f (Proc i) s" s]
    by (simp add: prepared_def)
  show "get_proc (upd_proc f (Proc i) s) (Proc i) = f (get_proc s (Proc i))" by (rule get_upd_same [OF v])
  show "x \<noteq> Proc i \<Longrightarrow> get_proc (upd_proc f (Proc i) s) x = get_proc s x" by auto
qed

lemma prepared_alloc:
  assumes "prepared n s" "n < MAX_PROCESSES"
  obtains s1 where "process_alloc s = (Some (Proc n), s1)" "prepared (Suc n) s1" "tasks_only s s1"
    "p_policy (get_proc s1 (Proc n)) = SCHED_NORMAL" "\<And>x. x \<noteq> Proc n \<Longrightarrow> get_proc s1 x = get_proc s x"
proof -
  obtain r s1 where a: "process_alloc s = (r, s1)" by (cases "process_alloc s")
  have len: "length (proc_table s) = MAX_PROCESSES" and wf: "sched_wf s"
    using assms(1) sched_wfD(1) by (auto simp: prepared_def cpu_ok_def)
  have wf1: "sched_wf s1" using sched_step_keeps [OF sched_step.Alloc wf] a by simp
  show thesis using a
  proof (cases rule: process_alloc_cases)
    case full
    then have "in_use s n" using assms(2) by blast
    then show ?thesis using assms by (simp add: prepared_def)
  next
    case (slot j)
    have "j = n" using slot(2-4) assms by (auto simp: prepared_def) (meson linorder_neqE_nat less_irrefl)
    note slot = slot [unfolded this]
    let ?u = "upd_proc (fresh_slot (next_pid s) (global_ticks s)) (Proc n) s"
    have s1: "s1 = ?u\<lparr>next_pid := next_pid s + 1\<rparr>" using slot(5) by (simp add: alloc_slot_def)
    have v: "valid_ref s (Proc n)" using assms(2) len by simp
    have g: "get_proc s1 = get_proc ?u" unfolding s1 by (rule get_proc_cong(1)) simp_all
    have q: "queued s1 = queued s" "current_proc s1 = current_proc s"
      using queued_ok_frame [of s1 s] by (simp_all add: s1 current_proc_def)
    have "in_use s1 i \<longleftrightarrow> i < Suc n" if "i < MAX_PROCESSES" for i
      using that assms(1) alloc_slot_facts(3) [OF assms(2) len, of i] slot(5) by (auto simp: prepared_def less_Suc_eq)
    then have "prepared (Suc n) s1" using wf1 q assms by (simp add: prepared_def)
    moreover have "tasks_only s s1" unfolding s1 by (rule tasks_only_trans [OF tasks_only_ops(2,5)])
    moreover have "p_policy (get_proc s1 (Proc n)) = SCHED_NORMAL" using v by (simp add: g fresh_slot_def)
    ultimately show ?thesis using that a slot(1) by (simp add: g)
  qed
qed



lemma prepared_valid: "prepared n s \<Longrightarrow> i < n \<Longrightarrow> valid_ref s (Proc i)"
  using sched_wfD(1) by (fastforce simp: prepared_def cpu_ok_def)

text \<open>Process \<open>n\<close> has been allocated with a priority, and nothing has happened to the ones before it.\<close>

definition task_set :: "nat \<Rightarrow> int \<Rightarrow> 'z sched_state_scheme \<Rightarrow> 'z sched_state_scheme \<Rightarrow> bool" where
  "task_set n prio s t \<longleftrightarrow> prepared (Suc n) t \<and> tasks_only s t \<and> (\<forall>x. x \<noteq> Proc n \<longrightarrow> get_proc t x = get_proc s x) \<and>
     p_policy (get_proc t (Proc n)) = (if prio \<le> 99 then SCHED_RR else SCHED_NORMAL) \<and>
     (prio > 99 \<longrightarrow> p_queue_level (get_proc t (Proc n)) = (prio - 100) div 10)"

lemma task_set_log: "task_set n prio s t \<Longrightarrow> task_set n prio s (kprintf f as t)"
  using tasks_only_trans [OF _ tasks_only_ops(1)] by (auto simp: task_set_def)

lemma prepared_task:
  fixes s :: "'z kernel_state_scheme"
  assumes "prepared n s" "n < MAX_PROCESSES"
  shows "\<exists>s1. process_alloc s = (Some (Proc n), s1) \<and>
    (\<forall>m name prio. task_set n (clamp_prio prio) s (sched_set_priority (Some (Proc n)) prio (name_proc m name (Proc n) s1)))"
proof -
  obtain s1 where s1: "process_alloc s = (Some (Proc n), s1)" "prepared (Suc n) s1" "tasks_only s s1"
    "p_policy (get_proc s1 (Proc n)) = SCHED_NORMAL" "\<And>x. x \<noteq> Proc n \<Longrightarrow> get_proc s1 x = get_proc s x"
    using prepared_alloc [OF assms] by metis
  have "task_set n (clamp_prio prio) s (sched_set_priority (Some (Proc n)) prio (name_proc m name (Proc n) s1))" for m name prio
  proof -
    let ?c = "clamp_prio prio"
    let ?u = "upd_proc (\<lambda>p. p\<lparr>p_name := copy_name m name\<rparr>) (Proc n) s1" let ?t = "upd_proc (set_prio ?c) (Proc n) ?u"
    have u: "prepared (Suc n) ?u" "get_proc ?u (Proc n) = (get_proc s1 (Proc n))\<lparr>p_name := copy_name m name\<rparr>"
      "\<And>x. x \<noteq> Proc n \<Longrightarrow> get_proc ?u x = get_proc s1 x"
      by (rule prepared_upd [OF s1(2)]; simp)+
    have t: "prepared (Suc n) ?t" "get_proc ?t (Proc n) = set_prio ?c (get_proc ?u (Proc n))"
      "\<And>x. x \<noteq> Proc n \<Longrightarrow> get_proc ?t x = get_proc ?u x"
      by (rule prepared_upd [OF u(1)]; simp add: set_prio_def)+
    have "tasks_only s ?t" by (rule tasks_only_trans [OF s1(3) tasks_only_trans [OF tasks_only_ops(2) tasks_only_ops(2)]])
    then show ?thesis
      unfolding task_set_def name_proc_def sched_set_priority_eq [OF prepared_valid [OF u(1) lessI]]
      using t u s1(4,5) by (auto simp: set_prio_def)
  qed
  then show ?thesis using s1(1) by blast
qed

lemma printed_task:
  fixes s :: "'z kernel_state_scheme"
  assumes "prepared n s" "n < MAX_PROCESSES" "clamp_prio prio = prio"
  shows "\<exists>s1. process_alloc s = (Some (Proc n), s1) \<and>
    task_set n prio s (print_proc f (Proc n) (sched_set_priority (Some (Proc n)) prio (name_proc m name (Proc n) s1)))"
  using prepared_task [OF assms(1,2)] task_set_log assms(3) unfolding print_proc_def by metis

text \<open>A process joins the queues.\<close>

lemma task_joins:
  assumes "sched_wf s" "i < MAX_PROCESSES" "Proc i \<notin> set (queued s)" "current_proc s = None"
    "p_policy (get_proc s (Proc i)) \<noteq> SCHED_IDLE"
  obtains t where "sched_add (Some (Proc i)) s = t" "sched_wf t" "set (queued t) = insert (Proc i) (set (queued s))" "current_proc t = None"
    "sched_view t = spec_add (prio_in s) (p_policy (get_proc s (Proc i))) (clamp_level (p_queue_level (get_proc s (Proc i)))) (Proc i) (sched_view s)"
    "\<And>x. x \<noteq> Proc i \<Longrightarrow> get_proc t x = get_proc s x" "tasks_only s t"
proof -
  let ?t = "sched_add (Some (Proc i)) s"
  note w = sched_wfD [OF assms(1)]
  have len: "length (proc_table s) = MAX_PROCESSES" using w(1) by (simp add: cpu_ok_def)
  note a = sched_add_queued [OF w(2) assms(2,3) len assms(5)]
  have "sched_wf ?t" using assms by (intro sched_step_keeps [OF sched_step.Add]) simp_all
  moreover have "set (queued ?t) = insert (Proc i) (set (queued s))" using a(2) by (metis set_mset_add_mset_insert set_mset_mset)
  moreover have "current_proc ?t = None" using a(4,5) assms(4) by (simp add: current_proc_def)
  ultimately show thesis
    using that [OF refl _ _ _ sched_add_view [OF assms(1-3,5)] _ tasks_only_sched_add] a(3) by simp
qed

lemma task_policy:
  assumes "prepared n s" "i < n" "pol \<noteq> SCHED_IDLE"
  obtains t where "sched_set_policy (Some (Proc i)) pol s = t" "prepared n t" "p_policy (get_proc t (Proc i)) = pol"
    "\<And>x. x \<noteq> Proc i \<Longrightarrow> get_proc t x = get_proc s x" "tasks_only s t"
proof -
  note u = prepared_upd [OF assms(1,2), of "\<lambda>p. p\<lparr>p_policy := pol\<rparr>", simplified]
  show thesis
    using that [OF _ u(1)] u assms(3) tasks_only_ops(2) [of s] by (simp add: sched_set_policy_def)
qed

lemma sched_view_log [simp]: "sched_view (kprintf f as s) = sched_view s"
  by (simp add: sched_view_def level_view_def kprintf_def cong: map_cong)

lemma prepared_view: "prepared n s \<Longrightarrow> sched_view s = ([], [[], [], [], []])"
  using queued_Nil_iff [of s] by (simp add: prepared_def sched_view_def upt_conv_Cons sched_wf_def queued_ok_def)

lemma tasks_join:
  assumes "prepared 3 s" "p_policy (get_proc s (Proc 0)) = SCHED_NORMAL" "p_queue_level (get_proc s (Proc 0)) = 0"
    "p_policy (get_proc s (Proc 1)) = SCHED_NORMAL" "p_queue_level (get_proc s (Proc 1)) = 1"
    "p_policy (get_proc s (Proc 2)) = SCHED_FIFO"
  defines "t \<equiv> sched_add (Some (Proc 2)) (sched_add (Some (Proc 1)) (sched_add (Some (Proc 0)) s))"
  shows "tasks_only s t \<and> sched_wf t \<and> sched_view t = ([Proc 2], [[Proc 0], [Proc 1], [], []])"
proof -
  have w: "sched_wf s" "queued s = []" "current_proc s = None" using assms(1) by (simp_all add: prepared_def)
  obtain u where u: "sched_add (Some (Proc 0)) s = u" "sched_wf u" "set (queued u) = {Proc 0}" "current_proc u = None"
    "sched_view u = ([], [[Proc 0], [], [], []])" "\<And>x. x \<noteq> Proc 0 \<Longrightarrow> get_proc u x = get_proc s x" "tasks_only s u"
    by (rule task_joins [OF w(1), of 0]) (simp_all add: w assms prepared_view [OF assms(1)] spec_add_def clamp_level_def)
  obtain v where v: "sched_add (Some (Proc 1)) u = v" "sched_wf v" "set (queued v) = {Proc 0, Proc 1}" "current_proc v = None"
    "sched_view v = ([], [[Proc 0], [Proc 1], [], []])" "\<And>x. x \<noteq> Proc 1 \<Longrightarrow> get_proc v x = get_proc u x" "tasks_only u v"
    by (rule task_joins [OF u(2), of 1]) (use assms(4,5) in \<open>auto simp: u spec_add_def clamp_level_def insert_commute\<close>)
  obtain t' where "sched_add (Some (Proc 2)) v = t'" "sched_wf t'"
    "sched_view t' = ([Proc 2], [[Proc 0], [Proc 1], [], []])" "tasks_only v t'"
    by (rule task_joins [OF v(2), of 2]) (simp_all add: v u assms spec_add_def insert_stable_snoc)
  with u(1,7) v(1,7) show ?thesis unfolding t_def using tasks_only_trans by metis
qed

text \<open>
  The test of the scheduler on an empty table: the three processes take the first three slots, the first
  two wait at the levels of their priorities and the third in the real-time queue.
\<close>

lemma test_scheduler_queues:
  fixes s :: "'z kernel_state_scheme"
  assumes "prepared 0 s"
  shows "tasks_only s (test_scheduler s) \<and> sched_wf (test_scheduler s) \<and>
    sched_view (test_scheduler s) = ([Proc 2], [[Proc 0], [Proc 1], [], []])"
proof -
  have c: "clamp_prio 100 = 100" "clamp_prio 110 = 110" "clamp_prio 50 = 50" by (simp_all add: clamp_prio_def)
  have m: "0 < MAX_PROCESSES" "1 < MAX_PROCESSES" "2 < MAX_PROCESSES" by simp_all
  let ?pr = "print_proc ''[TEST] Allocated process: %s (PID %lu, Priority: %d)\<newline>''"
  define t0 where "t0 = kprintf ''[TEST] Testing scheduler...\<newline>'' [] s"
  have p0: "prepared 0 t0" "tasks_only s t0" using assms(1) tasks_only_ops(1) by (simp_all add: t0_def)
  obtain s1 where a1: "process_alloc t0 = (Some (Proc 0), s1)"
    and t1: "task_set 0 100 t0 (?pr (Proc 0) (sched_set_priority (Some (Proc 0)) 100 (name_proc 5 ''test1'' (Proc 0) s1)))"
    using printed_task [OF p0(1) m(1) c(1)] by blast
  define u1 where "u1 = ?pr (Proc 0) (sched_set_priority (Some (Proc 0)) 100 (name_proc 5 ''test1'' (Proc 0) s1))"
  have p1: "prepared 1 u1" using t1 by (simp add: task_set_def u1_def)
  obtain s2 where a2: "process_alloc u1 = (Some (Proc 1), s2)"
    and t2: "task_set 1 110 u1 (?pr (Proc 1) (sched_set_priority (Some (Proc 1)) 110 (name_proc 5 ''test2'' (Proc 1) s2)))"
    using printed_task [OF p1 m(2) c(2)] by blast
  define u2 where "u2 = ?pr (Proc 1) (sched_set_priority (Some (Proc 1)) 110 (name_proc 5 ''test2'' (Proc 1) s2))"
  have p2: "prepared 2 u2" using t2 by (simp add: task_set_def u2_def numeral_2_eq_2)
  obtain s3 where a3: "process_alloc u2 = (Some (Proc 2), s3)"
    and t3: "task_set 2 50 u2 (sched_set_priority (Some (Proc 2)) 50 (name_proc 7 ''rt_test'' (Proc 2) s3))"
    using prepared_task [OF p2 m(3)] c(3) by metis
  define u3 where "u3 = sched_set_priority (Some (Proc 2)) 50 (name_proc 7 ''rt_test'' (Proc 2) s3)"
  note t = t1 [folded u1_def] t2 [folded u2_def] t3 [folded u3_def]
  have p3: "prepared 3 u3" using t3 by (simp add: task_set_def u3_def)
  obtain v where v: "sched_set_policy (Some (Proc 2)) SCHED_FIFO u3 = v" "prepared 3 v" "p_policy (get_proc v (Proc 2)) = SCHED_FIFO"
    "\<And>x. x \<noteq> Proc 2 \<Longrightarrow> get_proc v x = get_proc u3 x" "tasks_only u3 v"
    by (rule task_policy [OF p3, of 2 SCHED_FIFO]) simp_all
  define w where "w = print_proc ''[TEST] Allocated RT process: %s (PID %lu, Priority: %d, Policy: FIFO)\<newline>'' (Proc 2) v"
  have w: "prepared 3 w" "get_proc w = get_proc v" "tasks_only v w"
    using v(2) tasks_only_ops(1) by (simp_all add: w_def print_proc_def)
  define x where "x = sched_add (Some (Proc 2)) (sched_add (Some (Proc 1)) (sched_add (Some (Proc 0)) w))"
  have j: "tasks_only w x \<and> sched_wf x \<and> sched_view x = ([Proc 2], [[Proc 0], [Proc 1], [], []])"
    unfolding x_def using t v(3,4) w(2) by (intro tasks_join [OF w(1)]) (simp_all add: task_set_def)
  define y where "y = kprintf ''[TEST] Scheduler test PASSED\<newline>'' [] (sched_print_stats (kprintf ''[TEST] Added processes to scheduler\<newline>'' [] x))"
  have "log_only x y" by (simp add: y_def log_only_sched)
  then obtain l where y: "y = x\<lparr>klog := l\<rparr>" by (auto simp: log_only_def)
  have "sched_wf y = sched_wf x" "sched_view y = sched_view x"
    using sched_frame [of y x] by (simp_all add: y sched_view_def level_view_def cong: map_cong)
  moreover have "tasks_only x y" by (rule tasks_onlyI) (simp add: y)
  then have "tasks_only s y"
    using p0(2) t v(5) w(3) j tasks_only_trans unfolding task_set_def by metis
  moreover have "test_scheduler s = y"
    unfolding test_scheduler_def Let_def
    by (simp add: t0_def [symmetric] a1 a2 a3 u1_def [symmetric] u2_def [symmetric] u3_def [symmetric] v(1) w_def [symmetric] x_def [symmetric] y_def del: One_nat_def)
  ultimately show ?thesis using j by simp
qed

text \<open>The test of the file system leaves the table as it was, but for what it wrote to a free inode.\<close>

lemma test_filesystem_clean:
  fixes s :: "'z kernel_state_scheme"
  assumes "sfs_wf s" "find_inode ''testfile'' s = None" "free_inodes s \<noteq> {}"
  shows "\<exists>l b n. test_filesystem s = s\<lparr>klog := l, superblock := b, inodes := n\<rparr> \<and>
    sfs_wf (test_filesystem s) \<and> free_inodes (test_filesystem s) = free_inodes s"
proof -
  define u where "u = kprintf ''[TEST] Testing file system...\<newline>'' [] s"
  have pre: "sfs_wf u" "c_string ''testfile''" "length ''testfile'' \<le> 27" "find_inode ''testfile'' u = None" "free_inodes u \<noteq> {}"
    using assms by (simp_all add: u_def c_string_def)
  define i where "i = Min (free_inodes u)"
  define c where "c = created i VFS_FILE ''testfile'' u"
  note cd = create_then_delete [OF pre, where ty = VFS_FILE, folded i_def, folded c_def]
  define v where "v = kprintf ''[TEST] Created file 'testfile' with inode %d\<newline>'' [Num (of_nat i + 1)]
    (kprintf ''[SFS] Created file: %s (inode %u)\<newline>'' [Str ''testfile'', u32_arg (of_nat i + 1)] c)"
  have v: "find_inode ''testfile'' v = Some i" using cd by (simp add: v_def)
  have t: "test_filesystem s = kprintf ''[TEST] File system test PASSED\<newline>'' [] (kprintf ''[TEST] Deleted file 'testfile'\<newline>'' []
      (kprintf ''[SFS] Deleted file: %s\<newline>'' [Str ''testfile''] (deleted i v)))"
    using cd sfs_delete_deleted [OF v] unfolding test_filesystem_def Let_def u_def [symmetric]
    by (simp add: v_def [symmetric])
  have "test_filesystem s = s\<lparr>klog := klog (test_filesystem s), superblock := superblock (test_filesystem s), inodes := inodes (test_filesystem s)\<rparr>"
    unfolding t v_def c_def u_def by (simp add: kprintf_def deleted_def created_def set_inode_def Let_def)
  moreover have "sfs_wf (test_filesystem s)" "free_inodes (test_filesystem s) = free_inodes s"
    using cd by (simp_all add: t v_def u_def)
  ultimately show ?thesis by blast
qed


text \<open>What all tests together may change, and their outcome.\<close>

definition tests_only :: "'z kernel_state_scheme \<Rightarrow> 'z kernel_state_scheme \<Rightarrow> bool" where
  "tests_only s s' \<longleftrightarrow> s' = s\<lparr>klog := klog s', free_pages := free_pages s', num_free_pages := num_free_pages s', mem := mem s',
     proc_table := proc_table s', next_pid := next_pid s', idle_processes := idle_processes s', ready_queues := ready_queues s',
     rt_queue := rt_queue s', superblock := superblock s', inodes := inodes s'\<rparr>"

definition tests_passed :: "'z kernel_state_scheme \<Rightarrow> bool" where
  "tests_passed s \<longleftrightarrow> sched_wf s \<and> current_proc s = None \<and> sched_view s = ([Proc 2], [[Proc 0], [Proc 1], [], []]) \<and> sfs_wf s \<and> free_inodes s = {..<SFS_MAX_FILES}"

lemma tests_passed_frame:
  assumes "proc_table t = proc_table s" "idle_processes t = idle_processes s" "ready_queues t = ready_queues s"
    "rt_queue t = rt_queue s" "cpu_data t = cpu_data s" "current_cpu t = current_cpu s" "inodes t = inodes s" "superblock t = superblock s"
  shows "tests_passed t = tests_passed s"
proof -
  have "free_inodes t = free_inodes s" using assms(7) by (simp add: free_inodes_def)
  moreover from this have "sfs_wf t = sfs_wf s" using assms(7,8) by (simp add: sfs_wf_def)
  moreover have "sched_view t = sched_view s" using assms by (simp add: sched_view_def level_view_def cong: map_cong)
  ultimately show ?thesis using sched_frame(1,3) [of t s] assms by (simp add: tests_passed_def)
qed

lemma all_free_find: "free_inodes s = {..<SFS_MAX_FILES} \<Longrightarrow> find_inode name s = None"
  unfolding find_inode_def find_inode_loop_first first_index_iff by (auto simp: free_inodes_def)

lemma run_tests_pass:
  fixes s :: "'z kernel_state_scheme"
  assumes "mm_wf s" "3 \<le> length (free_list s)" "prepared 0 s" "sfs_wf s" "free_inodes s = {..<SFS_MAX_FILES}"
  shows "\<exists>s'. run_tests s = Some (Ret () s') \<and> tests_only s s' \<and> mm_wf s' \<and> mset (free_list s') = mset (free_list s) \<and> tests_passed s'"
proof -
  define s0 where "s0 = kprintf ''========================================\<newline>\<newline>'' [] (kprintf ''  Running System Tests\<newline>'' []
    (kprintf ''\<newline>========================================\<newline>'' [] s))"
  have "log_only s s0" by (simp add: s0_def)
  then obtain l0 where s0: "s0 = s\<lparr>klog := l0\<rparr>" by (auto simp: log_only_def)
  note f0 = log_frame [OF \<open>log_only s s0\<close>]
  obtain s1 where s1: "test_vm s0 = Some (Ret () (kprintf ''[TEST] Virtual memory test PASSED\<newline>'' [] s1))" "mm_only s0 s1" "mm_wf s1"
    "mset (free_list s1) = mset (free_list s0)"
    using test_vm_passes [of s0] assms(1,2) f0 by auto
  obtain l1 f n m where e1: "s1 = s0\<lparr>klog := l1, free_pages := f, num_free_pages := n, mem := m\<rparr>" using s1(2) by (auto simp: mm_only_def)
  define t1 where "t1 = kprintf ''\<newline>'' [] (kprintf ''[TEST] Virtual memory test PASSED\<newline>'' [] s1)"
  define u where "u = test_scheduler t1"
  have "prepared 0 t1 = prepared 0 s"
    using sched_frame [of t1 s] by (simp add: t1_def e1 s0 prepared_def kprintf_def in_use_def)
  then have ts: "tasks_only t1 u" "sched_wf u" "sched_view u = ([Proc 2], [[Proc 0], [Proc 1], [], []])"
    using test_scheduler_queues [of t1] assms(3) by (simp_all add: u_def)
  obtain l2 p i np q rt where e2: "u = t1\<lparr>klog := l2, proc_table := p, next_pid := np, idle_processes := i, ready_queues := q, rt_queue := rt\<rparr>"
    using ts(1) by (auto simp: tasks_only_def)
  define t2 where "t2 = kprintf ''\<newline>'' [] u"
  define w where "w = test_filesystem t2"
  have t2: "inodes t2 = inodes s" "superblock t2 = superblock s" by (simp_all add: t2_def e2 t1_def e1 s0 kprintf_def)
  then have "free_inodes t2 = free_inodes s" by (simp add: free_inodes_def)
  moreover from this have "sfs_wf t2 = sfs_wf s" using t2 by (simp add: sfs_wf_def)
  ultimately obtain l3 b ns where e3: "w = t2\<lparr>klog := l3, superblock := b, inodes := ns\<rparr>"
    and fs: "sfs_wf w" "free_inodes w = {..<SFS_MAX_FILES}"
    using test_filesystem_clean [of t2] assms(4,5) all_free_find [of t2] by (auto simp: lessThan_empty_iff w_def)
  define s' where "s' = kprintf ''========================================\<newline>\<newline>'' [] (kprintf ''  All Tests Completed\<newline>'' []
    (kprintf ''========================================\<newline>'' [] (kprintf ''\<newline>'' [] w)))"
  have "run_tests s = Some (Ret () s')"
    unfolding run_tests_def Let_def s0_def [symmetric] s1(1) by (simp add: t1_def [symmetric] u_def [symmetric] t2_def [symmetric] w_def [symmetric] s'_def)
  moreover have "tests_only s s'" by (simp add: tests_only_def s'_def e3 t2_def e2 t1_def e1 s0 kprintf_def)
  moreover have "free_list s' = free_list s1" "mm_wf s' = mm_wf s1"
    using pool_frame [of s' s1] by (simp_all add: s'_def e3 t2_def e2 t1_def kprintf_def)
  moreover have "sched_view t2 = sched_view s'" "sched_wf t2 = sched_wf s'"
    using sched_frame [of t2 s'] by (simp_all add: s'_def e3 kprintf_def sched_view_def level_view_def cong: map_cong)
  moreover have "sched_wf t2" using ts(2) by (simp add: t2_def)
  moreover have "current_proc s' = None"
    using assms(3) by (simp add: current_proc_def prepared_def s'_def e3 t2_def e2 t1_def e1 s0 kprintf_def)
  ultimately show ?thesis
    using s1(3,4) f0 ts(3) fs by (simp add: tests_passed_def t2_def) (simp add: s'_def)
qed


text \<open>The end of \<open>kernel_main\<close>: the memory test and the shell.\<close>

lemma shell_after_tests:
  assumes "shell_inv ops_at s" "tests_passed s" "''reboot'' \<notin> set (shell_lines [] (console_in s))"
  shows "\<exists>s'. run_shell pc ops_at (test_memory s) = Some (Ret () s') \<and> shell_inv ops_at s' \<and> tests_passed s' \<and> console_in s' = [] \<and>
    mset (free_list s') = mset (free_list s) \<and> csr_satp s' = csr_satp s \<and> mmio_out s' = mmio_out s"
proof -
  let ?m = "test_memory s"
  have w: "mm_wf s" "heap_wf s" using assms(1) by (simp_all add: shell_inv_def)
  note m = test_memory_keeps [OF w]
  have im: "served ops_at s ?m" using m assms(1) by (intro servedI [OF assms(1)]) (simp_all add: testdev_wf_def shell_inv_def)
  have ci: "console_in ?m = console_in s" using shell_frame_fields(1) m by blast
  have no: "reboots (shell_lines [] (console_in s)) = []" using assms(3) by (simp add: reboots_def)
  obtain s' where s': "run_shell pc ops_at ?m = Some (Ret () s')" "shell_inv ops_at s'" "shell_frame (?m\<lparr>console_in := []\<rparr>) s'"
    "mset (free_list s') = mset (free_list ?m)" "mmio_out s' = mmio_out ?m"
    using run_shell_serves [OF served_inv [OF im], of pc] assms(3) unfolding ci no append_Nil2 by blast
  have "shell_frame (s\<lparr>console_in := []\<rparr>) (?m\<lparr>console_in := []\<rparr>)"
    using m shell_frame_input [where s = s and i = "console_in s" and l = "klog s" and u = ?m and j = "[]"] by simp
  note f = shell_frame_trans [OF this s'(3)]
  have "tests_passed s' = tests_passed s"
    by (rule tests_passed_frame; subst f [unfolded shell_frame_def], simp)
  moreover have "csr_satp s' = csr_satp s" "console_in s' = []"
    by (subst f [unfolded shell_frame_def], simp)+
  ultimately show ?thesis using s' m assms(2) by simp
qed

lemma booted_facts:
  assumes "booted e ops s"
  shows "mm_wf s" "heap_wf s" "pt_wf s (kernel_pagetable s)" "sched_wf s" "queued s = []" "current_proc s = None"
    "find_device ''testdev'' s = Some 0" "dev_ops (devices s ! 0) = ops" "testdev_wf s" "sfs_wf s" "free_inodes s = {..<SFS_MAX_FILES}"
  using assms by (simp_all add: booted_def)

text \<open>The table the kernel installs, and a store to the reboot register under it.\<close>

lemma satp_root_sv39:
  assumes "managed s r" "csr_satp s = SATP_SV39 OR drop_bit 12 r"
  shows "satp_root s = r" "drop_bit 60 (csr_satp s) \<noteq> 0"
proof -
  have "r < 2 ^ 32" "r mod 2 ^ 12 = 0"
    using assms(1) by (auto simp: managed_def page_aligned_def mem_end_def word_less_nat_alt)
  then have "take_bit 32 r = r" "take_bit 12 r = 0" by (simp_all add: take_bit_eq_mod unat_mod word_less_nat_alt word_unat_eq_iff)
  then have hi: "n < 32" and lo: "12 \<le> n" if "bit r n" for n
    using that by (metis bit_take_bit_iff, metis bit_take_bit_iff bit_0_eq bot_apply not_le_imp_less bot_bool_def)
  have sv: "bit SATP_SV39 n \<longleftrightarrow> n = 63" for n using bit_INTERRUPT [of n] by (simp add: SATP_SV39_def)
  show "satp_root s = r"
  proof (rule bit_eqI)
    fix n
    show "bit (satp_root s) n = bit r n"
      using hi [of n] lo [of n] by (auto simp: satp_root_def assms(2) sv bit_simps)
  qed
  have "bit (csr_satp s) 63" by (simp add: assms(2) SATP_SV39_def bit_simps)
  then have "bit (drop_bit 60 (csr_satp s)) 3" by (simp add: bit_drop_bit_eq)
  then show "drop_bit 60 (csr_satp s) \<noteq> 0" by auto
qed

lemma booted_store_faults:
  assumes "booted e ops s" "\<forall>w < 2 ^ 27. translate (mem s) (kernel_pagetable s) w = kvm_entry w"
  shows "\<not> store_maps QEMU_VIRT_TEST s"
proof -
  have "managed s (kernel_pagetable s)" using pt_sepD(2) [OF booted_facts(3) [OF assms(1), unfolded pt_wf_def], of "[]"] by (simp add: pt_paths_def)
  moreover have "csr_satp s = SATP_SV39 OR drop_bit 12 (kernel_pagetable s)" using assms(1) by (simp add: booted_def)
  ultimately have r: "satp_root s = kernel_pagetable s" "drop_bit 60 (csr_satp s) \<noteq> 0" by (rule satp_root_sv39)+
  have "page_no QEMU_VIRT_TEST = 256" by (simp add: page_no_def)
  then have "translate (mem s) (kernel_pagetable s) (page_no QEMU_VIRT_TEST) = None" using assms(2) by (simp add: kvm_entry_def)
  then show ?thesis using r by (simp add: store_maps_def del: QEMU_VIRT_TEST_def)
qed

text \<open>
  C1: start-up on any loaded image whose process table is empty, with an input that has no line
  \<open>reboot\<close>. The initialisation returns, without a panic, with every component's invariant in place, paging
  switched on and the identity mapping of the RAM, the UART, the PLIC and the CLINT, and nothing else
  mapped, so neither the register the command \<open>reboot\<close> stores to: that store would fault. Then the tests pass: the page tables of
  the test are given back, its three processes wait in the queues of their policies and priorities, and
  the file it creates is gone. The shell serves all the input and waits for more, with every page that
  was free after the initialisation free again.
\<close>

theorem kernel_main_serves:
  fixes s :: "'z kernel_state_scheme"
  assumes "boot_image s" "\<forall>i. \<not> in_use s i" "ops \<noteq> NULL" "ops_at ops = testdev_ops"
    "''reboot'' \<notin> set (shell_lines [] (console_in s))"
  shows "\<exists>s1 s'. kernel_init trap_entry ops s = Ret () s1 \<and> booted trap_entry ops s1 \<and>
    (\<forall>x. unat x < 2 ^ 38 \<longrightarrow> va2pa (kernel_pagetable s1) x s1 =
       (if KERNBASE \<le> x \<and> x < PHYSTOP \<or> 0x0C000000 \<le> x \<and> x < 0x10001000 \<or> 0x02000000 \<le> x \<and> x < 0x02010000 then x else 0)) \<and>
    va2pa (kernel_pagetable s1) QEMU_VIRT_TEST s1 = 0 \<and> \<not> store_maps QEMU_VIRT_TEST s1 \<and>
    kernel_main pc ops_at trap_entry ops s = Some (Ret () s') \<and> tests_passed s' \<and> shell_inv ops_at s' \<and> console_in s' = [] \<and>
    mset (free_list s') = mset (free_list s1) \<and> csr_satp s' = csr_satp s1 \<and> mmio_out s' = mmio_out s"
proof -
  obtain s1 where s1: "kernel_init trap_entry ops s = Ret () s1" "booted trap_entry ops s1" "proc_table s1 = proc_table s"
    and tr: "\<forall>w < 2 ^ 27. translate (mem s1) (kernel_pagetable s1) w = kvm_entry w"
    and i1: "console_in s1 = console_in s" "mmio_out s1 = mmio_out s" and n: "pool_pages s \<le> length (free_list s1) + 101"
    using kernel_init_boots [OF assms(1)] by blast
  note b = booted_facts [OF s1(2)]
  obtain l where l: "show_system_info s1 = s1\<lparr>klog := l\<rparr>" using log_only_info [OF log_only_refl, of s1] by (auto simp: log_only_def)
  let ?u = "s1\<lparr>klog := l\<rparr>"
  have lu: "log_only s1 ?u" by (auto simp: log_only_def)
  note u = log_frame [OF lu]
  have "prepared 0 ?u" using sched_frame [of ?u s1] b(4-6) assms(2) s1(3) by (simp add: prepared_def in_use_def)
  moreover have "3 \<le> length (free_list ?u)" using n assms(1) by (simp add: u boot_image_def)
  moreover have "sfs_wf ?u" "free_inodes ?u = {..<SFS_MAX_FILES}" using b(10,11) by (simp_all add: sfs_wf_def free_inodes_def)
  ultimately obtain s2 where s2: "run_tests ?u = Some (Ret () s2)" "tests_only ?u s2" "mm_wf s2" "mset (free_list s2) = mset (free_list s1)" "tests_passed s2"
    using run_tests_pass [of ?u] b(1) u by auto
  have f2: "heap_current s2 = heap_current s1" "heap_start_sym s2 = heap_start_sym s1" "heap_end_sym s2 = heap_end_sym s1" "devices s2 = devices s1"
    "testdev_buffer s2 = testdev_buffer s1" "testdev_len s2 = testdev_len s1" "console_in s2 = console_in s1" "mmio_out s2 = mmio_out s1" "csr_satp s2 = csr_satp s1"
    by (subst s2(2) [unfolded tests_only_def], simp)+
  have h2: "heap_wf s2" using b(2) by (simp add: heap_wf_def f2)
  have i2: "shell_inv ops_at s2"
    using s2(3) h2 b(7-9) assms(3,4) by (simp add: shell_inv_def find_device_devices [OF f2(4)] testdev_wf_def f2)
  have "''reboot'' \<notin> set (shell_lines [] (console_in s2))" using assms(5) f2 i1 by simp
  from shell_after_tests [OF i2 s2(5) this, of pc] obtain s' where "run_shell pc ops_at (test_memory s2) = Some (Ret () s')" "shell_inv ops_at s'" "tests_passed s'" "console_in s' = []"
    "mset (free_list s') = mset (free_list s2)" "csr_satp s' = csr_satp s2" "mmio_out s' = mmio_out s2" by blast
  moreover from this(1) have "kernel_main pc ops_at trap_entry ops s = Some (Ret () s')"
    by (simp add: kernel_main_def s1(1) l s2(1))
  moreover have va: "va2pa (kernel_pagetable s1) x s1 = (if KERNBASE \<le> x \<and> x < PHYSTOP \<or> 0x0C000000 \<le> x \<and> x < 0x10001000 \<or>
      0x02000000 \<le> x \<and> x < 0x02010000 then x else 0)" if "unat x < 2 ^ 38" for x
    using tr page_no_less [OF that] by (intro kvm_entry_addr [OF b(3) that]) simp
  moreover have "va2pa (kernel_pagetable s1) QEMU_VIRT_TEST s1 = 0" using va [of QEMU_VIRT_TEST] by (simp add: KERNBASE_def)
  moreover have "\<not> store_maps QEMU_VIRT_TEST s1" by (rule booted_store_faults [OF s1(2) tr])
  ultimately show ?thesis using s1(1,2) s2(4) f2 i1 by metis
qed

section \<open>Witness\<close>

text \<open>The image as the loader leaves it, all static data zero, and an input.\<close>

definition loaded_kernel :: "string \<Rightarrow> kernel_state" where
  "loaded_kernel i =
     (let s = vm_state.extend (mm_state.extend sample_mm (vm_state.fields 0))
            (proc_state.fields (replicate 64 blank_process) 1 0 (replicate 8 blank_process));
          s = proc_state.extend s (sched_state.fields (replicate 4 empty_mlfq) empty_rt (replicate 8 blank_cpu) 1 0);
          s = sched_state.extend s (vfs_state.fields (replicate 16 \<lparr>dev_name = [], dev_ops = 0, dev_used = False\<rparr>) 1
            (\<lambda>_. \<lparr>f_inode = 0, f_offset = 0, f_flags = 0\<rparr>)
            (\<lambda>_. \<lparr>i_ino = 0, i_type = 0, i_size = 0, i_ref = 0, i_ops = 0, i_private = 0\<rparr>));
          s = vfs_state.extend s (testdev_state.fields (replicate 1024 (CHR 0x00)) 0);
          s = testdev_state.extend s (sfs_state.fields \<lparr>sb_magic = 0, sb_block_size = 0, sb_num_blocks = 0, sb_num_inodes = 0,
            sb_num_free_blocks = 0, sb_num_free_inodes = 0\<rparr> (replicate 64 blank_inode) 0)
      in sys_state.extend (sfs_state.extend s (sys_state.fields i (\<lambda>_. CHR 0x00))) (kernel_state.fields []))"

lemmas loaded_kernel_defs = loaded_kernel_def Let_def vm_state.defs mm_state.defs proc_state.defs sched_state.defs vfs_state.defs
  testdev_state.defs sfs_state.defs sys_state.defs kernel_state.defs

lemma loaded_kernel_image: "boot_image (loaded_kernel i)" "\<not> in_use (loaded_kernel i) j"
  "console_in (loaded_kernel i) = i" "mmio_out (loaded_kernel i) = []"
proof -
  have h: "heap_start_sym (loaded_kernel i) = heap_start_sym sample_mm" "heap_end_sym (loaded_kernel i) = heap_end_sym sample_mm"
    by (simp_all add: loaded_kernel_defs)
  have "linked (loaded_kernel i)" using sample_linked by (simp add: linked_def h)
  moreover have "104 \<le> pool_pages (loaded_kernel i)" by (simp add: pool_pages_def h) (simp add: sample_mm_def)
  moreover have "sched_boot (loaded_kernel i)"
    by (simp add: sched_boot_def loaded_kernel_defs empty_mlfq_def empty_rt_def list_all_iff)
  moreover have "dev_wf (loaded_kernel i)" by (simp add: dev_wf_def loaded_kernel_defs list_all_iff c_string_def)
  ultimately show "boot_image (loaded_kernel i)" unfolding boot_image_def by (simp add: loaded_kernel_defs)
  show "\<not> in_use (loaded_kernel i) j" by (simp add: in_use_def loaded_kernel_defs blank_process_def)
  show "console_in (loaded_kernel i) = i" "mmio_out (loaded_kernel i) = []" by (simp_all add: loaded_kernel_defs)
qed

theorem kernel_main_serves_witness:
  "\<exists>s'. kernel_main 0x80202000 (\<lambda>_. testdev_ops) 0x80200100 0x80201000 (loaded_kernel (''testdev'' @ [CHR 0x0A] @ ''ps'' @ [CHR 0x0D])) =
      Some (Ret () s') \<and> tests_passed s' \<and> console_in s' = []"
proof -
  let ?i = "''testdev'' @ [CHR 0x0A] @ ''ps'' @ [CHR 0x0D]"
  have "shell_lines [] ?i = [''testdev'', ''ps'']" by (simp add: line_end_def edit_key_def printable_def)
  then show ?thesis
    using kernel_main_serves [of "loaded_kernel ?i" "0x80201000" "\<lambda>_. testdev_ops" "0x80200100" "0x80202000"] loaded_kernel_image [of ?i]
    by auto
qed

end
