(* ===== verification/Asm.thy ===== *)
theory Asm
  imports Machine
begin

text \<open>
  The instructions of the kernel's assembly files (\<open>bootloader/boot.S\<close>, \<open>kernel/process/swtch.S\<close>): a hart with
  its registers, CSRs and memory, one step per instruction, and lemmas on blocks of stores and loads.
\<close>

section \<open>The hart\<close>

text \<open>Registers \<open>x0\<close> to \<open>x31\<close> by number, with the names of the calling convention.\<close>

type_synonym reg = "5 word"

abbreviation ZERO :: reg where "ZERO \<equiv> 0"
abbreviation RA :: reg where "RA \<equiv> 1"
abbreviation SP :: reg where "SP \<equiv> 2"
abbreviation GP :: reg where "GP \<equiv> 3"
abbreviation T0 :: reg where "T0 \<equiv> 5"
abbreviation T1 :: reg where "T1 \<equiv> 6"
abbreviation S0 :: reg where "S0 \<equiv> 8"
abbreviation S1 :: reg where "S1 \<equiv> 9"
abbreviation A0 :: reg where "A0 \<equiv> 10"
abbreviation A1 :: reg where "A1 \<equiv> 11"
abbreviation A2 :: reg where "A2 \<equiv> 12"
abbreviation S2 :: reg where "S2 \<equiv> 18"
abbreviation S3 :: reg where "S3 \<equiv> 19"
abbreviation S4 :: reg where "S4 \<equiv> 20"
abbreviation S5 :: reg where "S5 \<equiv> 21"
abbreviation S6 :: reg where "S6 \<equiv> 22"
abbreviation S7 :: reg where "S7 \<equiv> 23"
abbreviation S8 :: reg where "S8 \<equiv> 24"
abbreviation S9 :: reg where "S9 \<equiv> 25"
abbreviation S10 :: reg where "S10 \<equiv> 26"
abbreviation S11 :: reg where "S11 \<equiv> 27"

datatype csr = CSR_SSTATUS | CSR_SIE | CSR_STVEC | CSR_SSCRATCH | CSR_SEPC | CSR_SCAUSE | CSR_STVAL | CSR_SIP | CSR_SATP

text \<open>The numbers \<open>riscv.h\<close> gives them; bit 9 and bit 8 of a CSR number are the privilege it needs.\<close>

primrec csr_num :: "csr \<Rightarrow> nat" where
  "csr_num CSR_SSTATUS = 0x100"
| "csr_num CSR_SIE = 0x104"
| "csr_num CSR_STVEC = 0x105"
| "csr_num CSR_SSCRATCH = 0x140"
| "csr_num CSR_SEPC = 0x141"
| "csr_num CSR_SCAUSE = 0x142"
| "csr_num CSR_STVAL = 0x143"
| "csr_num CSR_SIP = 0x144"
| "csr_num CSR_SATP = 0x180"

lemma csr_num_supervisor: "csr_num c div 0x100 mod 4 = 1" "csr_num c = csr_num d \<longleftrightarrow> c = d"
  by (cases c; simp) (cases c; cases d; simp)

definition SSTATUS_SPIE :: u64 where [simp]: "SSTATUS_SPIE = 0x20"
definition SSTATUS_SPP :: u64 where [simp]: "SSTATUS_SPP = 0x100"

text \<open>
  Memory is accessed in doublewords at multiples of 8. \<open>hpc\<close> is where control goes when the code is left,
  \<open>huser\<close> whether that is in user mode.
\<close>

record hart =
  hregs :: "reg \<Rightarrow> u64"
  hcsr :: "csr \<Rightarrow> u64"
  hmem :: "addr \<Rightarrow> u64"
  hpc :: addr
  huser :: bool
  hfences :: nat

definition rd :: "reg \<Rightarrow> hart \<Rightarrow> u64" where
  "rd r h = (if r = ZERO then 0 else hregs h r)"

definition wr :: "reg \<Rightarrow> u64 \<Rightarrow> hart \<Rightarrow> hart" where
  "wr r v h = (if r = ZERO then h else h\<lparr>hregs := (hregs h)(r := v)\<rparr>)"

definition wr_csr :: "csr \<Rightarrow> u64 \<Rightarrow> hart \<Rightarrow> hart" where
  "wr_csr c v h = h\<lparr>hcsr := (hcsr h)(c := v)\<rparr>"

text \<open>
  \<open>sret\<close>: the previous mode and interrupt enable come back from the status register, the previous mode
  there becomes user mode with interrupts enabled, and control goes to \<open>sepc\<close>.
\<close>

definition sret :: "hart \<Rightarrow> hart" where
  "sret h =
     (let st = hcsr h CSR_SSTATUS;
          sie = (if st AND SSTATUS_SPIE \<noteq> 0 then SSTATUS_SIE else 0);
          st' = (st AND NOT SSTATUS_SPP AND NOT SSTATUS_SIE) OR SSTATUS_SPIE OR sie
      in (wr_csr CSR_SSTATUS st' h)\<lparr>hpc := hcsr h CSR_SEPC, huser := (st AND SSTATUS_SPP = 0)\<rparr>)"

section \<open>Instructions\<close>

datatype instr =
    LABEL string
  | CSRW csr reg
  | CSRR reg csr
  | CSRRW reg csr reg
  | LA reg string
  | LI reg u64
  | MV reg reg
  | ADDI reg reg u64
  | SD reg u64 reg
  | LD reg u64 reg
  | BEQ reg reg string
  | BEQZ reg string
  | JUMP string
  | CALL string
  | RET
  | SRET
  | WFI
  | SFENCE_VMA

definition goto :: "string \<Rightarrow> instr list \<Rightarrow> instr list" where
  "goto l prog = dropWhile (\<lambda>i. i \<noteq> LABEL l) prog"

text \<open>
  One step: the code still to run and the hart. \<open>syms\<close> gives the addresses of the linker's symbols and \<open>env\<close>
  what calling a C function does to the hart by the time it has returned (the link register written by the
  call included), \<open>None\<close> when it does not return. There is no step from a misaligned access, nor after the
  code has been left.
\<close>

fun astep ::
  "(string \<Rightarrow> hart \<Rightarrow> hart option) \<Rightarrow> (string \<Rightarrow> addr) \<Rightarrow> instr list \<Rightarrow> instr list \<times> hart \<Rightarrow> (instr list \<times> hart) option" where
  "astep env syms prog ([], h) = None"
| "astep env syms prog (i # rest, h) =
     (case i of
        LABEL l \<Rightarrow> Some (rest, h)
      | CSRW c r \<Rightarrow> Some (rest, wr_csr c (rd r h) h)
      | CSRR r c \<Rightarrow> Some (rest, wr r (hcsr h c) h)
      | CSRRW r c q \<Rightarrow> Some (rest, wr r (hcsr h c) (wr_csr c (rd q h) h))
      | LA r s \<Rightarrow> Some (rest, wr r (syms s) h)
      | LI r v \<Rightarrow> Some (rest, wr r v h)
      | MV r q \<Rightarrow> Some (rest, wr r (rd q h) h)
      | ADDI r q v \<Rightarrow> Some (rest, wr r (rd q h + v) h)
      | SD r off b \<Rightarrow>
          let a = rd b h + off in
          if 8 dvd unat a then Some (rest, h\<lparr>hmem := (hmem h)(a := rd r h)\<rparr>) else None
      | LD r off b \<Rightarrow>
          let a = rd b h + off in
          if 8 dvd unat a then Some (rest, wr r (hmem h a) h) else None
      | BEQ r q l \<Rightarrow> Some (if rd r h = rd q h then goto l prog else rest, h)
      | BEQZ r l \<Rightarrow> Some (if rd r h = 0 then goto l prog else rest, h)
      | JUMP l \<Rightarrow> Some (goto l prog, h)
      | CALL f \<Rightarrow> map_option (\<lambda>h. (rest, h)) (env f h)
      | RET \<Rightarrow> Some ([], h\<lparr>hpc := rd RA h\<rparr>)
      | SRET \<Rightarrow> Some ([], sret h)
      | WFI \<Rightarrow> Some (rest, h)
      | SFENCE_VMA \<Rightarrow> Some (rest, h\<lparr>hfences := hfences h + 1\<rparr>))"

fun asteps ::
  "nat \<Rightarrow> (string \<Rightarrow> hart \<Rightarrow> hart option) \<Rightarrow> (string \<Rightarrow> addr) \<Rightarrow> instr list \<Rightarrow> instr list \<times> hart \<Rightarrow> (instr list \<times> hart) option" where
  "asteps 0 env syms prog c = Some c"
| "asteps (Suc n) env syms prog c = Option.bind (astep env syms prog c) (asteps n env syms prog)"

definition reaches ::
  "(string \<Rightarrow> hart \<Rightarrow> hart option) \<Rightarrow> (string \<Rightarrow> addr) \<Rightarrow> instr list \<Rightarrow> instr list \<times> hart \<Rightarrow> instr list \<times> hart \<Rightarrow> bool" where
  "reaches env syms prog c c' \<longleftrightarrow> (\<exists>n. asteps n env syms prog c = Some c')"

section \<open>Running code\<close>

lemma reaches_refl: "reaches env syms prog c c"
  unfolding reaches_def by (rule exI [of _ 0]) simp

lemma reaches_step: "astep env syms prog c = Some d \<Longrightarrow> reaches env syms prog d e \<Longrightarrow> reaches env syms prog c e"
  unfolding reaches_def by (elim exE, rule_tac x = "Suc n" in exI) simp

lemma reaches_trans:
  assumes "reaches env syms prog c c1" "reaches env syms prog c1 c2"
  shows "reaches env syms prog c c2"
proof -
  have "asteps n env syms prog c = Some c1 \<Longrightarrow> reaches env syms prog c c2" for n
    by (induction n arbitrary: c) (auto simp: assms(2) intro: reaches_step split: Option.bind_splits)
  then show ?thesis using assms(1) by (auto simp: reaches_def)
qed

text \<open>Two states one run goes through are in order; so code that has been left is where the run ends.\<close>

lemma reaches_linear:
  assumes "reaches env syms prog c a" "reaches env syms prog c b"
  shows "reaches env syms prog a b \<or> reaches env syms prog b a"
proof -
  have "asteps n env syms prog c = Some a \<Longrightarrow> asteps m env syms prog c = Some b \<Longrightarrow> ?thesis" for n m
  proof (induction n arbitrary: c m)
    case 0
    then show ?case by (auto simp: reaches_def)
  next
    case (Suc n)
    then obtain c1 where c1: "astep env syms prog c = Some c1" "asteps n env syms prog c1 = Some a"
      by (auto split: Option.bind_splits)
    show ?case
    proof (cases m)
      case 0
      then have "c = b" using Suc.prems(2) by simp
      then show ?thesis using c1 by (metis reaches_def reaches_step)
    qed (use Suc c1 in auto)
  qed
  with assms show ?thesis by (auto simp: reaches_def)
qed

lemma asteps_add: "asteps (k + m) env syms prog c = Option.bind (asteps k env syms prog c) (asteps m env syms prog)"
  by (induction k arbitrary: c) (auto split: Option.bind_splits)

lemma reaches_prefix:
  assumes "asteps k env syms prog c = Some d" "reaches env syms prog c e"
  shows "reaches env syms prog d e \<or> (\<exists>n < k. asteps n env syms prog c = Some e)"
proof -
  obtain m where m: "asteps m env syms prog c = Some e" using assms(2) by (auto simp: reaches_def)
  show ?thesis
  proof (cases "m < k")
    case False
    then have "asteps (k + (m - k)) env syms prog c = Some e" using m by simp
    then show ?thesis by (auto simp: asteps_add assms(1) reaches_def)
  qed (use m in auto)
qed

lemma reaches_stuck: "astep env syms prog c = None \<Longrightarrow> reaches env syms prog c c' \<Longrightarrow> c' = c"
proof -
  assume stuck: "astep env syms prog c = None" and r: "reaches env syms prog c c'"
  then obtain n where "asteps n env syms prog c = Some c'" by (auto simp: reaches_def)
  with stuck show "c' = c" by (cases n) simp_all
qed

lemma reaches_end:
  assumes "reaches env syms prog c ([], h)" "reaches env syms prog c ([], h')"
  shows "h' = h"
  using reaches_linear [OF assms]
proof
  assume "reaches env syms prog ([], h) ([], h')"
  from reaches_stuck [OF _ this] show ?thesis by simp
next
  assume "reaches env syms prog ([], h') ([], h)"
  from reaches_stuck [OF _ this] show ?thesis by simp
qed

text \<open>Straight-line code runs by these rules, one per instruction.\<close>

lemma reaches_instr:
  "reaches env syms prog (rest, h) c \<Longrightarrow> reaches env syms prog (LABEL l # rest, h) c"
  "reaches env syms prog (rest, wr_csr k (rd r h) h) c \<Longrightarrow> reaches env syms prog (CSRW k r # rest, h) c"
  "reaches env syms prog (rest, wr r (hcsr h k) h) c \<Longrightarrow> reaches env syms prog (CSRR r k # rest, h) c"
  "reaches env syms prog (rest, wr r (hcsr h k) (wr_csr k (rd q h) h)) c \<Longrightarrow> reaches env syms prog (CSRRW r k q # rest, h) c"
  "reaches env syms prog (rest, wr r (syms s) h) c \<Longrightarrow> reaches env syms prog (LA r s # rest, h) c"
  "reaches env syms prog (rest, wr r v h) c \<Longrightarrow> reaches env syms prog (LI r v # rest, h) c"
  "reaches env syms prog (rest, wr r (rd q h) h) c \<Longrightarrow> reaches env syms prog (MV r q # rest, h) c"
  "reaches env syms prog (rest, wr r (rd q h + v) h) c \<Longrightarrow> reaches env syms prog (ADDI r q v # rest, h) c"
  "8 dvd unat (rd b h + off) \<Longrightarrow> reaches env syms prog (rest, h\<lparr>hmem := (hmem h)(rd b h + off := rd r h)\<rparr>) c \<Longrightarrow>
     reaches env syms prog (SD r off b # rest, h) c"
  "8 dvd unat (rd b h + off) \<Longrightarrow> reaches env syms prog (rest, wr r (hmem h (rd b h + off)) h) c \<Longrightarrow>
     reaches env syms prog (LD r off b # rest, h) c"
  "reaches env syms prog (goto l prog, h) c \<Longrightarrow> reaches env syms prog (JUMP l # rest, h) c"
  "env f h = Some g \<Longrightarrow> reaches env syms prog (rest, g) c \<Longrightarrow> reaches env syms prog (CALL f # rest, h) c"
  "reaches env syms prog ([], h\<lparr>hpc := rd RA h\<rparr>) c \<Longrightarrow> reaches env syms prog (RET # rest, h) c"
  "reaches env syms prog ([], sret h) c \<Longrightarrow> reaches env syms prog (SRET # rest, h) c"
  "reaches env syms prog (rest, h\<lparr>hfences := hfences h + 1\<rparr>) c \<Longrightarrow> reaches env syms prog (SFENCE_VMA # rest, h) c"
  by (rule reaches_step; simp)+

section \<open>Registers\<close>

lemma rd_wr [simp]: "rd r (wr q v h) = (if r = q \<and> r \<noteq> ZERO then v else rd r h)"
  by (simp add: rd_def wr_def)

lemma rd_upd [simp]:
  "rd r (wr_csr c v h) = rd r h" "rd r (h\<lparr>hmem := m\<rparr>) = rd r h" "rd r (h\<lparr>hpc := p\<rparr>) = rd r h" "rd r (h\<lparr>huser := u\<rparr>) = rd r h"
  "rd r (h\<lparr>hfences := n\<rparr>) = rd r h"
  by (simp_all add: rd_def wr_csr_def)

lemma wr_fields [simp]:
  "hcsr (wr r v h) = hcsr h" "hmem (wr r v h) = hmem h" "hpc (wr r v h) = hpc h" "huser (wr r v h) = huser h"
  "hfences (wr r v h) = hfences h"
  by (simp_all add: wr_def)

lemma wr_csr_fields [simp]:
  "hcsr (wr_csr c v h) = (hcsr h)(c := v)" "hregs (wr_csr c v h) = hregs h" "hmem (wr_csr c v h) = hmem h"
  "hpc (wr_csr c v h) = hpc h" "huser (wr_csr c v h) = huser h" "hfences (wr_csr c v h) = hfences h"
  by (simp_all add: wr_csr_def)

lemma sret_fields [simp]:
  "rd r (sret h) = rd r h" "hmem (sret h) = hmem h" "hpc (sret h) = hcsr h CSR_SEPC"
  "huser (sret h) \<longleftrightarrow> hcsr h CSR_SSTATUS AND SSTATUS_SPP = 0" "c \<noteq> CSR_SSTATUS \<Longrightarrow> hcsr (sret h) c = hcsr h c"
  by (simp_all add: sret_def Let_def)

section \<open>Blocks of stores and loads\<close>

lemma aligned_add: "8 dvd unat (a :: u64) \<Longrightarrow> 8 dvd unat b \<Longrightarrow> 8 dvd unat (a + b)"
  by (simp add: unat_word_ariths dvd_mod)

text \<open>A list of registers with the offsets of their places in memory.\<close>

definition save :: "(reg \<times> u64) list \<Rightarrow> reg \<Rightarrow> instr list" where
  "save xs b = map (\<lambda>(r, off). SD r off b) xs"

definition restore :: "(reg \<times> u64) list \<Rightarrow> reg \<Rightarrow> instr list" where
  "restore xs b = map (\<lambda>(r, off). LD r off b) xs"

fun saved :: "(reg \<times> u64) list \<Rightarrow> addr \<Rightarrow> (reg \<Rightarrow> u64) \<Rightarrow> (addr \<Rightarrow> u64) \<Rightarrow> (addr \<Rightarrow> u64)" where
  "saved [] a rs m = m"
| "saved ((r, off) # xs) a rs m = saved xs a rs (m(a + off := rs r))"

fun restored :: "(reg \<times> u64) list \<Rightarrow> addr \<Rightarrow> (addr \<Rightarrow> u64) \<Rightarrow> hart \<Rightarrow> hart" where
  "restored [] a m h = h"
| "restored ((r, off) # xs) a m h = restored xs a m (wr r (m (a + off)) h)"

lemma reaches_save:
  assumes "list_all (\<lambda>(r, off). 8 dvd unat (rd b h + off)) xs"
  shows "reaches env syms prog (save xs b @ rest, h) (rest, h\<lparr>hmem := saved xs (rd b h) (\<lambda>r. rd r h) (hmem h)\<rparr>)"
  using assms
proof (induction xs arbitrary: h)
  case (Cons x xs)
  obtain r off where x: "x = (r, off)" by (cases x)
  let ?h = "h\<lparr>hmem := (hmem h)(rd b h + off := rd r h)\<rparr>"
  have "reaches env syms prog (save xs b @ rest, ?h) (rest, ?h\<lparr>hmem := saved xs (rd b ?h) (\<lambda>r. rd r ?h) (hmem ?h)\<rparr>)"
    using Cons.prems by (intro Cons.IH) simp
  moreover have "astep env syms prog (save (x # xs) b @ rest, h) = Some (save xs b @ rest, ?h)"
    using Cons.prems by (simp add: x save_def)
  ultimately show ?case using reaches_step by (fastforce simp: x)
qed (simp add: save_def reaches_refl)

lemma reaches_restore:
  assumes "list_all (\<lambda>(r, off). 8 dvd unat (rd b h + off) \<and> r \<noteq> b) xs"
  shows "reaches env syms prog (restore xs b @ rest, h) (rest, restored xs (rd b h) (hmem h) h)"
  using assms
proof (induction xs arbitrary: h)
  case (Cons x xs)
  obtain r off where x: "x = (r, off)" by (cases x)
  let ?h = "wr r (hmem h (rd b h + off)) h"
  have b: "rd b ?h = rd b h" using Cons.prems by (auto simp: x)
  have al: "list_all (\<lambda>(r, off). 8 dvd unat (rd b ?h + off) \<and> r \<noteq> b) xs" using Cons.prems unfolding b by simp
  have "reaches env syms prog (restore xs b @ rest, ?h) (rest, restored xs (rd b ?h) (hmem ?h) ?h)"
    by (rule Cons.IH [OF al])
  moreover have "astep env syms prog (restore (x # xs) b @ rest, h) = Some (restore xs b @ rest, ?h)"
    using Cons.prems by (simp add: x restore_def)
  ultimately have "reaches env syms prog (restore (x # xs) b @ rest, h) (rest, restored xs (rd b ?h) (hmem ?h) ?h)"
    by (metis reaches_step)
  then show ?case by (simp only: x b restored.simps wr_fields)
qed (simp add: restore_def reaches_refl)

lemma saved_other: "a' \<notin> (\<lambda>x. a + snd x) ` set xs \<Longrightarrow> saved xs a rs m a' = m a'"
  by (induction xs a rs m rule: saved.induct) auto

lemma saved_at: "(r, off) \<in> set xs \<Longrightarrow> distinct (map snd xs) \<Longrightarrow> saved xs a rs m (a + off) = rs r"
proof (induction xs a rs m rule: saved.induct)
  case (2 q o' xs a rs m)
  show ?case
  proof (cases "(r, off) = (q, o')")
    case True
    then have "a + off \<notin> (\<lambda>x. a + snd x) ` set xs" using 2(3) by force
    then show ?thesis using True saved_other [of "a + off" a xs rs "m(a + o' := rs q)"] by simp
  next
    case False
    then have "(r, off) \<in> set xs" "distinct (map snd xs)" using 2(2,3) by auto
    from 2(1) [OF this] show ?thesis by (simp add: fun_upd_def)
  qed
qed simp

lemma restored_fields [simp]:
  "hcsr (restored xs a m h) = hcsr h" "hmem (restored xs a m h) = hmem h" "hpc (restored xs a m h) = hpc h"
  "huser (restored xs a m h) = huser h" "hfences (restored xs a m h) = hfences h"
  by (induction xs a m h rule: restored.induct) simp_all

lemma restored_other: "r \<notin> fst ` set xs \<Longrightarrow> rd r (restored xs a m h) = rd r h"
  by (induction xs a m h rule: restored.induct) auto

lemma restored_at:
  "(r, off) \<in> set xs \<Longrightarrow> distinct (map fst xs) \<Longrightarrow> r \<noteq> ZERO \<Longrightarrow> rd r (restored xs a m h) = m (a + off)"
proof (induction xs a m h rule: restored.induct)
  case (2 q o' xs a m h)
  show ?case
  proof (cases "(r, off) = (q, o')")
    case True
    then have "r \<notin> fst ` set xs" using 2(3) by auto
    then show ?thesis using True restored_other [of r xs a m "wr q (m (a + o')) h"] 2(4) by simp
  next
    case False
    then have "(r, off) \<in> set xs" "distinct (map fst xs)" using 2(2,3) by auto
    from 2(1) [OF this 2(4)] show ?thesis by simp
  qed
qed simp

end
