(* ===== verification/Entry.thy ===== *)
theory Entry
  imports Asm Sched_System
begin

text \<open>
  The assembly of the kernel: the context switch and the entry to and from user mode
  (\<open>kernel/process/swtch.S\<close>), the start of the kernel and its trap vector (\<open>bootloader/boot.S\<close>).
\<close>

section \<open>Code\<close>

definition swtch_code :: "instr list" where
  "swtch_code =
    [BEQZ A0 ''restore_new'',
     SD RA 0 A0, SD SP 8 A0, SD S0 16 A0, SD S1 24 A0, SD S2 32 A0, SD S3 40 A0, SD S4 48 A0,
     SD S5 56 A0, SD S6 64 A0, SD S7 72 A0, SD S8 80 A0, SD S9 88 A0, SD S10 96 A0, SD S11 104 A0,
     LABEL ''restore_new'',
     BEQZ A1 ''done'',
     LD RA 0 A1, LD SP 8 A1, LD S0 16 A1, LD S1 24 A1, LD S2 32 A1, LD S3 40 A1, LD S4 48 A1,
     LD S5 56 A1, LD S6 64 A1, LD S7 72 A1, LD S8 80 A1, LD S9 88 A1, LD S10 96 A1, LD S11 104 A1,
     LABEL ''done'',
     RET]"

definition switch_to_user_code :: "instr list" where
  "switch_to_user_code =
    [CSRW CSR_SATP A0, SFENCE_VMA,
     CSRW CSR_SSCRATCH A2,
     CSRW CSR_SEPC A1,
     LI T0 0x20, CSRW CSR_SSTATUS T0,
     SRET]"

definition trap_vector_user_code :: "instr list" where
  "trap_vector_user_code =
    [CSRRW SP CSR_SSCRATCH SP,
     ADDI SP SP (- 256),
     SD 1 0 SP, SD 3 16 SP, SD 4 24 SP, SD 5 32 SP, SD 6 40 SP, SD 7 48 SP,
     SD 8 56 SP, SD 9 64 SP, SD 10 72 SP, SD 11 80 SP, SD 12 88 SP, SD 13 96 SP,
     SD 14 104 SP, SD 15 112 SP, SD 16 120 SP, SD 17 128 SP, SD 18 136 SP, SD 19 144 SP,
     SD 20 152 SP, SD 21 160 SP, SD 22 168 SP, SD 23 176 SP, SD 24 184 SP, SD 25 192 SP,
     SD 26 200 SP, SD 27 208 SP, SD 28 216 SP, SD 29 224 SP, SD 30 232 SP, SD 31 240 SP,
     CSRR T0 CSR_SSCRATCH, SD T0 8 SP,
     MV A0 SP, CALL ''trap_handler'',
     LD 1 0 SP, LD 3 16 SP, LD 4 24 SP, LD 5 32 SP, LD 6 40 SP, LD 7 48 SP,
     LD 8 56 SP, LD 9 64 SP, LD 10 72 SP, LD 11 80 SP, LD 12 88 SP, LD 13 96 SP,
     LD 14 104 SP, LD 15 112 SP, LD 16 120 SP, LD 17 128 SP, LD 18 136 SP, LD 19 144 SP,
     LD 20 152 SP, LD 21 160 SP, LD 22 168 SP, LD 23 176 SP, LD 24 184 SP, LD 25 192 SP,
     LD 26 200 SP, LD 27 208 SP, LD 28 216 SP, LD 29 224 SP, LD 30 232 SP, LD 31 240 SP,
     LD T0 8 SP,
     ADDI SP SP 256,
     CSRW CSR_SSCRATCH SP, MV SP T0,
     SRET]"

definition start_code :: "instr list" where
  "start_code =
    [CSRW CSR_SIE ZERO, CSRW CSR_SIP ZERO,
     LA GP ''__global_pointer$'',
     LA SP ''__stack_top'',
     LA T0 ''__bss_start'', LA T1 ''__bss_end'',
     LABEL ''clear_bss'',
     BEQ T0 T1 ''clear_bss_done'',
     SD ZERO 0 T0, ADDI T0 T0 8, JUMP ''clear_bss'',
     LABEL ''clear_bss_done'',
     LA T0 ''trap_entry'', CSRW CSR_STVEC T0,
     CALL ''kernel_main'',
     LABEL ''halt'', WFI, JUMP ''halt'']"

definition trap_entry_code :: "instr list" where
  "trap_entry_code =
    [CSRW CSR_SSCRATCH SP,
     CALL ''trap_handler'',
     CSRR SP CSR_SSCRATCH,
     SRET]"

section \<open>The context switch\<close>

text \<open>The places of the registers in a \<open>context_t\<close>.\<close>

definition ctx_slots :: "(reg \<times> u64) list" where
  "ctx_slots = [(RA, 0), (SP, 8), (S0, 16), (S1, 24), (S2, 32), (S3, 40), (S4, 48), (S5, 56), (S6, 64), (S7, 72),
     (S8, 80), (S9, 88), (S10, 96), (S11, 104)]"

definition ctx_regs :: "hart \<Rightarrow> context_t" where
  "ctx_regs h = \<lparr>ctx_ra = rd RA h, ctx_sp = rd SP h, ctx_s0 = rd S0 h, ctx_s1 = rd S1 h, ctx_s2 = rd S2 h, ctx_s3 = rd S3 h,
     ctx_s4 = rd S4 h, ctx_s5 = rd S5 h, ctx_s6 = rd S6 h, ctx_s7 = rd S7 h, ctx_s8 = rd S8 h, ctx_s9 = rd S9 h,
     ctx_s10 = rd S10 h, ctx_s11 = rd S11 h\<rparr>"

definition ctx_at :: "(addr \<Rightarrow> u64) \<Rightarrow> addr \<Rightarrow> context_t" where
  "ctx_at m a = \<lparr>ctx_ra = m a, ctx_sp = m (a + 8), ctx_s0 = m (a + 16), ctx_s1 = m (a + 24), ctx_s2 = m (a + 32),
     ctx_s3 = m (a + 40), ctx_s4 = m (a + 48), ctx_s5 = m (a + 56), ctx_s6 = m (a + 64), ctx_s7 = m (a + 72),
     ctx_s8 = m (a + 80), ctx_s9 = m (a + 88), ctx_s10 = m (a + 96), ctx_s11 = m (a + 104)\<rparr>"

definition ctx_cells :: "addr \<Rightarrow> addr set" where
  "ctx_cells a = (\<lambda>x. a + snd x) ` set ctx_slots"

lemma ctx_slots_distinct: "distinct (map fst ctx_slots)" "distinct (map snd ctx_slots)"
  by (simp_all add: ctx_slots_def)

lemma slots_mem:
  "(RA, 0) \<in> set ctx_slots" "(SP, 8) \<in> set ctx_slots" "(S0, 16) \<in> set ctx_slots" "(S1, 24) \<in> set ctx_slots"
  "(S2, 32) \<in> set ctx_slots" "(S3, 40) \<in> set ctx_slots" "(S4, 48) \<in> set ctx_slots" "(S5, 56) \<in> set ctx_slots"
  "(S6, 64) \<in> set ctx_slots" "(S7, 72) \<in> set ctx_slots" "(S8, 80) \<in> set ctx_slots" "(S9, 88) \<in> set ctx_slots"
  "(S10, 96) \<in> set ctx_slots" "(S11, 104) \<in> set ctx_slots"
  "snd ` set ctx_slots = {0, 8, 16, 24, 32, 40, 48, 56, 64, 72, 80, 88, 96, 104}"
  by (simp_all add: ctx_slots_def)

lemma swtch_code_blocks:
  "swtch_code = BEQZ A0 ''restore_new'' # save ctx_slots A0 @
     LABEL ''restore_new'' # BEQZ A1 ''done'' # restore ctx_slots A1 @ [LABEL ''done'', RET]"
  by (simp add: swtch_code_def save_def restore_def ctx_slots_def)

lemma swtch_goto:
  "goto ''restore_new'' swtch_code = LABEL ''restore_new'' # BEQZ A1 ''done'' # restore ctx_slots A1 @ [LABEL ''done'', RET]"
  "goto ''done'' swtch_code = [LABEL ''done'', RET]"
  by (simp_all add: goto_def swtch_code_def restore_def ctx_slots_def)

lemma slots_aligned:
  assumes "8 dvd unat a"
  shows "list_all (\<lambda>(r, off). 8 dvd unat (a + off)) ctx_slots"
  using assms by (simp add: ctx_slots_def aligned_add)

text \<open>The hart after the code has run: the registers in the old context, then those of the new one.\<close>

definition swtched :: "hart \<Rightarrow> hart" where
  "swtched h =
     (let m = (if rd A0 h = 0 then hmem h else saved ctx_slots (rd A0 h) (\<lambda>r. rd r h) (hmem h));
          h1 = h\<lparr>hmem := m\<rparr>;
          h2 = (if rd A1 h = 0 then h1 else restored ctx_slots (rd A1 h) m h1)
      in h2\<lparr>hpc := rd RA h2\<rparr>)"

lemma swtch_runs:
  assumes "8 dvd unat (rd A0 h)" "8 dvd unat (rd A1 h)"
  shows "reaches env syms swtch_code (swtch_code, h) ([], swtched h)"
proof -
  let ?r = "reaches env syms swtch_code"
  let ?new = "LABEL ''restore_new'' # BEQZ A1 ''done'' # restore ctx_slots A1 @ [LABEL ''done'', RET]"
  define m where "m = (if rd A0 h = 0 then hmem h else saved ctx_slots (rd A0 h) (\<lambda>r. rd r h) (hmem h))"
  have 1: "?r (swtch_code, h) (?new, h\<lparr>hmem := m\<rparr>)"
  proof (cases "rd A0 h = 0")
    case True
    then have "astep env syms swtch_code (swtch_code, h) = Some (?new, h)"
      by (subst (2) swtch_code_blocks) (simp add: swtch_goto)
    then show ?thesis using True by (intro reaches_step [OF _ reaches_refl]) (simp add: m_def)
  next
    case False
    then have "astep env syms swtch_code (swtch_code, h) = Some (save ctx_slots A0 @ ?new, h)"
      by (subst (2) swtch_code_blocks) simp
    then show ?thesis
      using False reaches_step [OF _ reaches_save [OF slots_aligned [OF assms(1)]]] by (simp add: m_def)
  qed
  let ?h1 = "h\<lparr>hmem := m\<rparr>"
  define h2 where "h2 = (if rd A1 h = 0 then ?h1 else restored ctx_slots (rd A1 h) m ?h1)"
  have 2: "?r (?new, ?h1) ([LABEL ''done'', RET], h2)"
  proof -
    have l: "?r (BEQZ A1 ''done'' # restore ctx_slots A1 @ [LABEL ''done'', RET], ?h1) ([LABEL ''done'', RET], h2)"
    proof (cases "rd A1 h = 0")
      case True
      then show ?thesis by (intro reaches_step [OF _ reaches_refl]) (simp add: swtch_goto h2_def)
    next
      case False
      have "list_all (\<lambda>(r, off). 8 dvd unat (rd A1 ?h1 + off) \<and> r \<noteq> A1) ctx_slots"
        using assms(2) by (simp add: ctx_slots_def aligned_add)
      from reaches_restore [OF this, of env syms swtch_code "[LABEL ''done'', RET]"] False
      have "?r (restore ctx_slots A1 @ [LABEL ''done'', RET], ?h1) ([LABEL ''done'', RET], h2)" by (simp add: h2_def)
      then show ?thesis by (rule reaches_step [rotated]) (simp add: False)
    qed
    then show ?thesis by (rule reaches_instr)
  qed
  have 3: "?r ([LABEL ''done'', RET], h2) ([], h2\<lparr>hpc := rd RA h2\<rparr>)"
    by (intro reaches_instr reaches_refl)
  have "swtched h = h2\<lparr>hpc := rd RA h2\<rparr>" by (simp add: swtched_def Let_def m_def h2_def)
  then show ?thesis using reaches_trans [OF 1 reaches_trans [OF 2 3]] by simp
qed

lemma ctx_regs_pc: "ctx_regs (h\<lparr>hpc := p\<rparr>) = ctx_regs h"
  by (simp add: ctx_regs_def)

lemma ctx_at_saved:
  "ctx_at (saved ctx_slots a (\<lambda>r. rd r h) m) a = ctx_regs h"
  "ctx_cells a \<inter> ctx_cells b = {} \<Longrightarrow> ctx_at (saved ctx_slots a rs m) b = ctx_at m b"
proof -
  have s: "saved ctx_slots a (\<lambda>r. rd r h) m (a + off) = rd r h" if "(r, off) \<in> set ctx_slots" for r off
    by (rule saved_at [OF that ctx_slots_distinct(2)])
  show "ctx_at (saved ctx_slots a (\<lambda>r. rd r h) m) a = ctx_regs h"
    unfolding ctx_at_def ctx_regs_def
    using s [of RA 0] s [of SP 8] s [of S0 16] s [of S1 24] s [of S2 32] s [of S3 40] s [of S4 48] s [of S5 56] s [of S6 64] s [of S7 72]
      s [of S8 80] s [of S9 88] s [of S10 96] s [of S11 104] by (simp add: slots_mem)
  assume d: "ctx_cells a \<inter> ctx_cells b = {}"
  have o: "saved ctx_slots a rs m (b + off) = m (b + off)" if "off \<in> snd ` set ctx_slots" for off
    using d that by (intro saved_other) (auto simp: ctx_cells_def)
  have "saved ctx_slots a rs m b = m b" using o [of 0] by (simp add: slots_mem)
  then show "ctx_at (saved ctx_slots a rs m) b = ctx_at m b"
    unfolding ctx_at_def by (simp add: o slots_mem)
qed

lemma ctx_regs_restored: "ctx_regs (restored ctx_slots a m h) = ctx_at m a"
proof -
  have s: "rd r (restored ctx_slots a m h) = m (a + off)" if "(r, off) \<in> set ctx_slots" "r \<noteq> ZERO" for r off
    using that by (intro restored_at ctx_slots_distinct)
  show ?thesis unfolding ctx_regs_def ctx_at_def
    using s [of RA 0] s [of SP 8] s [of S0 16] s [of S1 24] s [of S2 32] s [of S3 40] s [of S4 48] s [of S5 56] s [of S6 64] s [of S7 72]
      s [of S8 80] s [of S9 88] s [of S10 96] s [of S11 104] by (simp add: slots_mem)
qed


text \<open>
  The scheduler's state and the hart agree: the callee-saved registers, and the context of every process
  at its address. The contexts are aligned and apart, as parts of the process structures.
\<close>

definition ctx_layout :: "(proc_ref \<Rightarrow> addr) \<Rightarrow> 'z sched_state_scheme \<Rightarrow> bool" where
  "ctx_layout c s \<longleftrightarrow> (\<forall>r. valid_ref s r \<longrightarrow> c r \<noteq> NULL \<and> 8 dvd unat (c r) \<and>
     (\<forall>q. valid_ref s q \<and> q \<noteq> r \<longrightarrow> ctx_cells (c r) \<inter> ctx_cells (c q) = {}))"

definition ctx_match :: "(proc_ref \<Rightarrow> addr) \<Rightarrow> hart \<Rightarrow> 'z sched_state_scheme \<Rightarrow> bool" where
  "ctx_match c h s \<longleftrightarrow> cpu_regs s = ctx_regs h \<and> (\<forall>r. valid_ref s r \<longrightarrow> p_context (get_proc s r) = ctx_at (hmem h) (c r))"

definition ctx_arg :: "(proc_ref \<Rightarrow> addr) \<Rightarrow> proc_ref option \<Rightarrow> addr" where
  "ctx_arg c p = (case p of None \<Rightarrow> NULL | Some r \<Rightarrow> c r)"

text \<open>Saving alone, then loading.\<close>

lemma match_saved:
  assumes "ctx_match c h s" "ctx_layout c s" "\<forall>r \<in> set_option old. valid_ref s r" "rd A0 h = ctx_arg c old"
  defines "s1 \<equiv> (case old of None \<Rightarrow> s | Some r \<Rightarrow> upd_proc (\<lambda>p. p\<lparr>p_context := cpu_regs s\<rparr>) r s)"
    and "m \<equiv> (if rd A0 h = 0 then hmem h else saved ctx_slots (rd A0 h) (\<lambda>r. rd r h) (hmem h))"
  shows "ctx_match c (h\<lparr>hmem := m\<rparr>) s1" "valid_ref s1 = valid_ref s" "cpu_regs s1 = cpu_regs s"
proof -
  have cr: "ctx_regs (h\<lparr>hmem := m\<rparr>) = ctx_regs h" by (simp add: ctx_regs_def)
  show v: "valid_ref s1 = valid_ref s" "cpu_regs s1 = cpu_regs s"
    by (auto simp: s1_def split: option.split)
  show "ctx_match c (h\<lparr>hmem := m\<rparr>) s1"
  proof (cases old)
    case None
    then show ?thesis using assms(1,4) cr by (simp add: ctx_match_def s1_def m_def ctx_arg_def)
  next
    case (Some r)
    then have r: "valid_ref s r" "rd A0 h = c r" "c r \<noteq> NULL"
      using assms(2-4) by (simp_all add: ctx_arg_def ctx_layout_def)
    have "p_context (get_proc s1 q) = ctx_at m (c q)" if q: "valid_ref s q" for q
    proof (cases "q = r")
      case True
      then show ?thesis using r assms(1) Some by (simp add: s1_def m_def ctx_at_saved ctx_match_def)
    next
      case False
      then have "ctx_cells (c r) \<inter> ctx_cells (c q) = {}" using assms(2) r(1) q by (simp add: ctx_layout_def)
      then show ?thesis using False r q assms(1) Some by (simp add: s1_def m_def ctx_at_saved ctx_match_def)
    qed
    then show ?thesis using v cr assms(1) by (simp add: ctx_match_def)
  qed
qed

text \<open>
  C14: the assembly of the context switch implements the switch of the scheduler's model: called with the
  addresses of two contexts, or null, it ends, with the hart in agreement with the model's state after
  \<open>swtch\<close>, and control at the return address of the context it has loaded. It changes no memory but the old
  context and no registers but the callee-saved ones.
\<close>

theorem swtch_code_refines:
  assumes "ctx_match c h s" "ctx_layout c s" "\<forall>r \<in> set_option old \<union> set_option new. valid_ref s r"
    "rd A0 h = ctx_arg c old" "rd A1 h = ctx_arg c new"
  shows "\<exists>h'. reaches env syms swtch_code (swtch_code, h) ([], h') \<and> ctx_match c h' (swtch old new s) \<and>
    hpc h' = ctx_ra (cpu_regs (swtch old new s)) \<and> (\<forall>a. old = None \<or> a \<notin> ctx_cells (ctx_arg c old) \<longrightarrow> hmem h' a = hmem h a) \<and>
    (\<forall>r. r \<notin> fst ` set ctx_slots \<longrightarrow> rd r h' = rd r h)"
proof -
  let ?m = "if rd A0 h = 0 then hmem h else saved ctx_slots (rd A0 h) (\<lambda>r. rd r h) (hmem h)"
  let ?h1 = "h\<lparr>hmem := ?m\<rparr>"
  let ?h2 = "if rd A1 h = 0 then ?h1 else restored ctx_slots (rd A1 h) ?m ?h1"
  have sw: "swtched h = ?h2\<lparr>hpc := rd RA ?h2\<rparr>" by (simp add: swtched_def Let_def)
  have a: "8 dvd unat (ctx_arg c p)" if "\<forall>r \<in> set_option p. valid_ref s r" for p
    using that assms(2) by (cases p) (simp_all add: ctx_arg_def ctx_layout_def)
  let ?s1 = "case old of None \<Rightarrow> s | Some r \<Rightarrow> upd_proc (\<lambda>p. p\<lparr>p_context := cpu_regs s\<rparr>) r s"
  have s1: "ctx_match c ?h1 ?s1" "valid_ref ?s1 = valid_ref s"
    using match_saved [OF assms(1,2) _ assms(4)] assms(3) by auto
  have "reaches env syms swtch_code (swtch_code, h) ([], swtched h)"
    using assms(3) by (intro swtch_runs) (simp_all add: assms(4,5) a)
  moreover have "ctx_match c (swtched h) (swtch old new s)"
  proof (cases new)
    case None
    then show ?thesis using s1 assms(5) by (simp add: sw swtch_def ctx_arg_def ctx_match_def ctx_regs_pc)
  next
    case (Some r)
    have r: "valid_ref ?s1 r" "rd A1 h = c r" "c r \<noteq> NULL" using assms(2,3,5) Some s1(2) by (simp_all add: ctx_arg_def ctx_layout_def)
    let ?s2 = "?s1\<lparr>cpu_regs := p_context (get_proc ?s1 r)\<rparr>"
    have g: "get_proc ?s2 = get_proc ?s1" "valid_ref ?s2 = valid_ref ?s1" by (rule get_proc_cong; simp)+
    have "ctx_regs (swtched h) = ctx_at ?m (c r)" using r by (simp add: sw ctx_regs_pc ctx_regs_restored)
    moreover have "swtch old new s = ?s2" by (simp add: swtch_def Some Let_def)
    moreover have "hmem (swtched h) = hmem ?h1" by (simp add: sw)
    ultimately show ?thesis using s1(1) r(1) g by (simp add: ctx_match_def)
  qed
  moreover have "hpc (swtched h) = ctx_ra (ctx_regs (swtched h))" by (simp add: sw ctx_regs_def)
  moreover have "hmem (swtched h) a = hmem h a" if "old = None \<or> a \<notin> ctx_cells (ctx_arg c old)" for a
    using that assms(4) saved_other [of a "rd A0 h" ctx_slots "\<lambda>r. rd r h" "hmem h"] by (auto simp: sw ctx_cells_def ctx_arg_def)
  moreover have "rd r (swtched h) = rd r h" if "r \<notin> fst ` set ctx_slots" for r
    using restored_other [OF that] by (simp add: sw)
  moreover from calculation(2) have "cpu_regs (swtch old new s) = ctx_regs (swtched h)" by (simp add: ctx_match_def)
  ultimately show ?thesis by (intro exI [of _ "swtched h"]) simp
qed

section \<open>Traps from user mode\<close>

text \<open>The trap frame: register \<open>x\<close>\<open>n\<close> at offset \<open>8 (n - 1)\<close>; all but \<open>sp\<close> are stored by the block.\<close>

definition slot :: "reg \<Rightarrow> u64" where
  "slot r = of_nat (8 * (unat r - 1))"

definition frame_slots :: "(reg \<times> u64) list" where
  "frame_slots = map (\<lambda>n. (of_nat n, slot (of_nat n))) (1 # [3..<32])"

definition vector_exit :: "instr list" where
  "vector_exit = restore frame_slots SP @ [LD T0 8 SP, ADDI SP SP 256, CSRW CSR_SSCRATCH SP, MV SP T0, SRET]"

lemma vector_blocks:
  "trap_vector_user_code = CSRRW SP CSR_SSCRATCH SP # ADDI SP SP (- 256) # save frame_slots SP @
     CSRR T0 CSR_SSCRATCH # SD T0 8 SP # MV A0 SP # CALL ''trap_handler'' # vector_exit"
  by (simp add: trap_vector_user_code_def save_def restore_def frame_slots_def slot_def vector_exit_def upt_conv_Cons)

lemma reg_less: "unat (r :: reg) < 32"
  using unsigned_less [of r] by simp

lemma unat_slot: "unat (slot r) = 8 * (unat r - 1)"
proof -
  have "8 * (unat r - 1) < 2 ^ 64" using reg_less [of r] by simp
  then show ?thesis unfolding slot_def by (simp only: unsigned_of_nat) (simp add: take_bit_nat_eq_self)
qed

lemma slot_eq_iff: "r \<noteq> 0 \<Longrightarrow> q \<noteq> 0 \<Longrightarrow> slot r = slot q \<longleftrightarrow> r = q"
proof -
  assume "r \<noteq> 0" "q \<noteq> 0"
  then have "unat r \<noteq> 0" "unat q \<noteq> 0" by (simp_all add: unat_eq_zero)
  then have "unat (slot r) = unat (slot q) \<longleftrightarrow> unat r = unat q" unfolding unat_slot by auto
  then show ?thesis by (metis unsigned_word_eqI)
qed

lemma frame_set: "set frame_slots = {(r, off). r \<noteq> 0 \<and> r \<noteq> SP \<and> off = slot r}"
proof -
  have n: "r \<noteq> 0 \<and> r \<noteq> SP \<longleftrightarrow> (\<exists>n \<in> {1} \<union> {3..<32}. r = of_nat n)" for r :: reg
  proof
    assume r: "r \<noteq> 0 \<and> r \<noteq> SP"
    have "unat r \<noteq> unat (0 :: reg)" "unat r \<noteq> unat (2 :: reg)" using r by (metis unsigned_word_eqI)+
    then have "unat r \<in> {1} \<union> {3..<32}" using reg_less [of r] by auto
    then show "\<exists>n \<in> {1} \<union> {3..<32}. r = of_nat n" by (intro bexI [of _ "unat r"]) simp_all
  next
    assume "\<exists>n \<in> {1} \<union> {3..<32}. r = of_nat n"
    then obtain n where n: "n \<in> {1} \<union> {3..<32}" "r = of_nat n" by blast
    have "n < 2 ^ 5" using n(1) by auto
    then have "unat r = n" unfolding n(2) by (simp only: unsigned_of_nat) (simp add: take_bit_nat_eq_self)
    then show "r \<noteq> 0 \<and> r \<noteq> SP" using n(1) by auto
  qed
  have "set frame_slots = (\<lambda>n. (of_nat n, slot (of_nat n))) ` ({1} \<union> {3..<32})"
    unfolding frame_slots_def set_map list.set set_upt by simp
  moreover have "(\<lambda>n. (of_nat n, slot (of_nat n))) ` N = {(r, off). (\<exists>n \<in> N. r = of_nat n) \<and> off = slot r}" for N by auto
  ultimately show ?thesis by (simp only: n [symmetric] conj_assoc)
qed

lemma frame_distinct: "distinct (map fst frame_slots)" "distinct (map snd frame_slots)" 
  by (simp_all add: frame_slots_def slot_def upt_conv_Cons)

lemma frame_aligned: "8 dvd unat a \<Longrightarrow> list_all (\<lambda>(r, off). 8 dvd unat (a + off)) frame_slots"
  by (auto simp: list_all_iff frame_set unat_slot intro!: aligned_add)


text \<open>
  Up to the call: the frame holds every register, \<open>sp\<close> included, and its address is the argument. The code
  has no jumps, so this holds whatever program it is part of.
\<close>

lemma vector_enters:
  fixes h :: hart
  defines "k \<equiv> hcsr h CSR_SSCRATCH - 256"
  assumes "8 dvd unat (hcsr h CSR_SSCRATCH)"
  shows "\<exists>x. reaches env syms prog (trap_vector_user_code, h) (CALL ''trap_handler'' # vector_exit, x) \<and>
    rd A0 x = k \<and> rd SP x = k \<and> (\<forall>r. r \<noteq> 0 \<longrightarrow> hmem x (k + slot r) = rd r h) \<and>
    (\<forall>a. a \<notin> (\<lambda>r. k + slot r) ` (- {0}) \<longrightarrow> hmem x a = hmem h a) \<and> hcsr x = (hcsr h)(CSR_SSCRATCH := rd SP h)"
proof -
  let ?r = "reaches env syms prog"
  let ?b3 = "CSRR T0 CSR_SSCRATCH # SD T0 8 SP # MV A0 SP # CALL ''trap_handler'' # vector_exit"
  define h1 where "h1 = wr SP k (wr SP (hcsr h CSR_SSCRATCH) (wr_csr CSR_SSCRATCH (rd SP h) h))"
  have k: "8 dvd unat k"
    using aligned_add [OF assms(2), of "- 256"] by (simp add: k_def)
  have 1: "?r (trap_vector_user_code, h) (save frame_slots SP @ ?b3, h1)"
    unfolding vector_blocks by (intro reaches_instr(4,8)) (simp add: h1_def k_def reaches_refl)
  have sp: "rd SP h1 = k" by (simp add: h1_def)
  define m where "m = saved frame_slots k (\<lambda>r. rd r h1) (hmem h1)"
  have 2: "?r (save frame_slots SP @ ?b3, h1) (?b3, h1\<lparr>hmem := m\<rparr>)"
    using reaches_save [of SP h1 frame_slots env syms prog ?b3] frame_aligned [OF k] by (simp add: sp m_def)
  define x where "x = wr A0 k ((wr T0 (rd SP h) (h1\<lparr>hmem := m\<rparr>))\<lparr>hmem := m(k + 8 := rd SP h)\<rparr>)"
  have 3: "?r (?b3, h1\<lparr>hmem := m\<rparr>) (CALL ''trap_handler'' # vector_exit, x)"
    using reaches_refl [of env syms prog "(CALL ''trap_handler'' # vector_exit, x)"]
    by (intro reaches_instr(3,7,9)) (simp_all add: x_def sp h1_def aligned_add k)
  have "?r (trap_vector_user_code, h) (CALL ''trap_handler'' # vector_exit, x)"
    by (rule reaches_trans [OF 1 reaches_trans [OF 2 3]])
  moreover have "rd A0 x = k" "rd SP x = k" "hcsr x = (hcsr h)(CSR_SSCRATCH := rd SP h)" by (simp_all add: x_def sp h1_def)
  moreover have "hmem x (k + slot r) = rd r h" if "r \<noteq> 0" for r
  proof (cases "r = SP")
    case True
    then show ?thesis by (simp add: x_def slot_def)
  next
    case False
    then have "m (k + slot r) = rd r h1" unfolding m_def using that by (intro saved_at frame_distinct) (simp add: frame_set)
    moreover have "slot r \<noteq> 8" using slot_eq_iff [of r SP] that False by (simp add: slot_def)
    ultimately show ?thesis using False by (simp add: x_def h1_def)
  qed
  moreover have "hmem x a = hmem h a" if "a \<notin> (\<lambda>r. k + slot r) ` (- {0})" for a
  proof -
    have n: "a \<noteq> k + slot r" if "r \<noteq> 0" for r using that \<open>a \<notin> _\<close> by blast
    then have "a \<notin> (\<lambda>x. k + snd x) ` set frame_slots" unfolding frame_set by fastforce
    then have "m a = hmem h1 a" unfolding m_def by (rule saved_other)
    moreover have "a \<noteq> k + slot SP" by (rule n) simp
    ultimately show ?thesis by (simp add: x_def h1_def slot_def)
  qed
  ultimately show ?thesis by blast
qed


lemma vector_exits:
  assumes "8 dvd unat (rd SP g)"
  shows "\<exists>h'. reaches env syms prog (vector_exit, g) ([], h') \<and>
    (\<forall>r. r \<noteq> 0 \<longrightarrow> rd r h' = (if r = SP \<or> r = T0 then hmem g (rd SP g + slot SP) else hmem g (rd SP g + slot r))) \<and>
    hmem h' = hmem g \<and> hcsr h' CSR_SSCRATCH = rd SP g + 256 \<and> hpc h' = hcsr g CSR_SEPC \<and>
    (huser h' \<longleftrightarrow> hcsr g CSR_SSTATUS AND SSTATUS_SPP = 0)"
proof -
  define k where "k = rd SP g"
  define h2 where "h2 = restored frame_slots k (hmem g) g"
  let ?b = "[LD T0 8 SP, ADDI SP SP 256, CSRW CSR_SSCRATCH SP, MV SP T0, SRET]"
  have 1: "reaches env syms prog (vector_exit, g) (?b, h2)"
    unfolding vector_exit_def h2_def k_def
    by (rule reaches_restore) (use frame_aligned [OF assms] in \<open>auto simp: list_all_iff frame_set\<close>)
  have sp: "rd SP h2 = k" unfolding h2_def by (subst restored_other) (auto simp: frame_set k_def)
  define h3 where "h3 = wr SP (k + 256) (wr T0 (hmem g (k + 8)) h2)"
  define h4 where "h4 = wr SP (hmem g (k + 8)) (wr_csr CSR_SSCRATCH (k + 256) h3)"
  have m: "hmem h2 = hmem g" by (simp add: h2_def)
  have "8 dvd unat (k + 8)" using assms by (simp add: k_def aligned_add)
  then have 2: "reaches env syms prog (?b, h2) ([], sret h4)"
    by (intro reaches_instr) (simp_all add: sp m h3_def h4_def reaches_refl)
  have "rd r (sret h4) = (if r = SP \<or> r = T0 then hmem g (k + slot SP) else hmem g (k + slot r))" if "r \<noteq> 0" for r
  proof (cases "r = SP \<or> r = T0")
    case True
    then show ?thesis by (auto simp: h4_def h3_def slot_def)
  next
    case False
    then have "rd r h2 = hmem g (k + slot r)"
      unfolding h2_def using that by (intro restored_at frame_distinct) (simp_all add: frame_set)
    with False show ?thesis by (simp add: h4_def h3_def)
  qed
  moreover have "hmem (sret h4) = hmem g" "hcsr (sret h4) CSR_SSCRATCH = k + 256" "hpc (sret h4) = hcsr g CSR_SEPC"
    "huser (sret h4) \<longleftrightarrow> hcsr g CSR_SSTATUS AND SSTATUS_SPP = 0"
    by (simp_all add: h4_def h3_def h2_def)
  ultimately show ?thesis using reaches_trans [OF 1 2] unfolding k_def by blast
qed


text \<open>A handler that, if it returns, does so on the same stack and with the frame there unchanged.\<close>

definition keeps_frame :: "(hart \<Rightarrow> hart option) \<Rightarrow> bool" where
  "keeps_frame f \<longleftrightarrow> (\<forall>x g. f x = Some g \<longrightarrow> rd SP g = rd SP x \<and>
     (\<forall>r. r \<noteq> 0 \<longrightarrow> hmem g (rd SP x + slot r) = hmem x (rd SP x + slot r)))"

text \<open>
  C27: the trap vector for user mode. With an aligned kernel stack in \<open>sscratch\<close>, the handler is called with
  the address of a frame on that stack that holds all 31 registers of the user. When the handler
  returns, control goes back to \<open>sepc\<close> in the mode the status register names, the kernel stack is in
  \<open>sscratch\<close> again, and every register has the user's value but \<open>t0\<close>: it has the user's stack pointer.
  No code of the kernel installs this vector; the property is of the routine as it stands.
\<close>

theorem trap_vector_user_restores:
  assumes "8 dvd unat (hcsr h CSR_SSCRATCH)" "keeps_frame (env ''trap_handler'')"
  shows "\<exists>x. reaches env syms prog (trap_vector_user_code, h) (CALL ''trap_handler'' # vector_exit, x) \<and>
    rd A0 x = hcsr h CSR_SSCRATCH - 256 \<and> (\<forall>r. r \<noteq> ZERO \<longrightarrow> hmem x (rd A0 x + slot r) = rd r h) \<and>
    hcsr x = (hcsr h)(CSR_SSCRATCH := rd SP h) \<and>
    (\<forall>g. env ''trap_handler'' x = Some g \<longrightarrow> (\<exists>h'. reaches env syms prog (trap_vector_user_code, h) ([], h') \<and>
      (\<forall>r. r \<noteq> T0 \<longrightarrow> rd r h' = rd r h) \<and> rd T0 h' = rd SP h \<and> hcsr h' CSR_SSCRATCH = hcsr h CSR_SSCRATCH \<and>
      hpc h' = hcsr g CSR_SEPC \<and> (huser h' \<longleftrightarrow> hcsr g CSR_SSTATUS AND SSTATUS_SPP = 0)))"
proof -
  define k where "k = hcsr h CSR_SSCRATCH - 256"
  obtain x where x: "reaches env syms prog (trap_vector_user_code, h) (CALL ''trap_handler'' # vector_exit, x)"
    "rd A0 x = k" "rd SP x = k" "\<And>r. r \<noteq> 0 \<Longrightarrow> hmem x (k + slot r) = rd r h"
    "hcsr x = (hcsr h)(CSR_SSCRATCH := rd SP h)"
    using vector_enters [OF assms(1), of env syms prog] unfolding k_def by blast
  have "\<exists>h'. reaches env syms prog (trap_vector_user_code, h) ([], h') \<and>
      (\<forall>r. r \<noteq> T0 \<longrightarrow> rd r h' = rd r h) \<and> rd T0 h' = rd SP h \<and> hcsr h' CSR_SSCRATCH = k + 256 \<and>
      hpc h' = hcsr g CSR_SEPC \<and> (huser h' \<longleftrightarrow> hcsr g CSR_SSTATUS AND SSTATUS_SPP = 0)"
    if e: "env ''trap_handler'' x = Some g" for g
  proof -
    have g: "rd SP g = k" "\<And>r. r \<noteq> 0 \<Longrightarrow> hmem g (k + slot r) = rd r h"
      using assms(2) e x(3,4) unfolding keeps_frame_def by metis+
    have "8 dvd unat (rd SP g)" using aligned_add [OF assms(1), of "- 256"] by (simp add: g(1) k_def)
    from vector_exits [OF this, of env syms prog] obtain h' where h': "reaches env syms prog (vector_exit, g) ([], h')"
      "\<And>r. r \<noteq> 0 \<Longrightarrow> rd r h' = (if r = SP \<or> r = T0 then rd SP h else rd r h)"
      "hcsr h' CSR_SSCRATCH = k + 256" "hpc h' = hcsr g CSR_SEPC" "huser h' \<longleftrightarrow> hcsr g CSR_SSTATUS AND SSTATUS_SPP = 0"
      using g by fastforce
    have "reaches env syms prog (trap_vector_user_code, h) ([], h')"
      by (rule reaches_trans [OF x(1)], rule reaches_instr(12) [of env, OF e h'(1)])
    moreover have "rd r h' = rd r h" if "r \<noteq> T0" for r using h'(2) [of r] that by (cases "r = ZERO") (auto simp: rd_def)
    moreover have "rd T0 h' = rd SP h" using h'(2) [of T0] by simp
    ultimately show ?thesis using h'(3-5) by blast
  qed
  then show ?thesis using x by (intro exI [of _ x]) (simp add: k_def)
qed

text \<open>
  C28: the first entry to user mode. \<open>switch_to_user\<close> continues at the given address in user mode, with the
  page table installed and interrupts enabled, but with the stack pointer of the kernel: the one it was given
  is in \<open>sscratch\<close>. The trap vector stays the one that was installed, and no stack of the kernel is left for
  it. If it is \<open>trap_entry\<close>, the one the kernel installs, then at the next trap, whatever state \<open>v\<close> the user has
  got into, the handler runs on the user's stack pointer. If it were \<open>trap_vector_user\<close>, which is written for user mode
  but which no code installs, the handler would run on the stack given to the user, with the frame stored
  there.
\<close>

theorem switch_to_user_no_kernel_stack:
  assumes "8 dvd unat (rd A2 h)"
  shows "\<exists>u. reaches env syms prog (switch_to_user_code, h) ([], u) \<and> hpc u = rd A1 h \<and> huser u \<and> hcsr u CSR_SATP = rd A0 h \<and>
    hcsr u CSR_SSTATUS AND SSTATUS_SIE \<noteq> 0 \<and> rd SP u = rd SP h \<and>
    hcsr u CSR_STVEC = hcsr h CSR_STVEC \<and> hcsr u CSR_SSCRATCH = rd A2 h \<and>
    (\<forall>v. hcsr v CSR_SSCRATCH = hcsr u CSR_SSCRATCH \<longrightarrow>
       (\<exists>x. reaches env syms prog (trap_entry_code, v) ([CALL ''trap_handler'', CSRR SP CSR_SSCRATCH, SRET], x) \<and>
          rd SP x = rd SP v \<and> hcsr x CSR_SSCRATCH = rd SP v) \<and>
       (\<exists>x. reaches env syms prog (trap_vector_user_code, v) (CALL ''trap_handler'' # vector_exit, x) \<and>
          rd SP x = rd A2 h - 256 \<and> (\<forall>r. r \<noteq> ZERO \<longrightarrow> hmem x (rd A2 h - 256 + slot r) = rd r v)))"
proof -
  define w where "w = wr T0 0x20 (wr_csr CSR_SEPC (rd A1 h) (wr_csr CSR_SSCRATCH (rd A2 h) ((wr_csr CSR_SATP (rd A0 h) h)\<lparr>hfences := hfences h + 1\<rparr>)))"
  define u where "u = sret (wr_csr CSR_SSTATUS 0x20 w)"
  have "reaches env syms prog (switch_to_user_code, h) ([], u)"
    unfolding switch_to_user_code_def using reaches_refl [of env syms prog "([], u)"]
    by (intro reaches_instr) (simp add: u_def w_def)
  moreover have "hpc u = rd A1 h" "huser u" "hcsr u CSR_SATP = rd A0 h" "hcsr u CSR_SSCRATCH = rd A2 h" "rd SP u = rd SP h"
    "hcsr u CSR_STVEC = hcsr h CSR_STVEC"
    by (simp_all add: u_def w_def)
  moreover have "hcsr u CSR_SSTATUS AND SSTATUS_SIE \<noteq> 0" by (simp add: u_def sret_def Let_def)
  moreover have "\<exists>x. reaches env syms prog (trap_entry_code, v) ([CALL ''trap_handler'', CSRR SP CSR_SSCRATCH, SRET], x) \<and>
       rd SP x = rd SP v \<and> hcsr x CSR_SSCRATCH = rd SP v" for v
    unfolding trap_entry_code_def
    by (rule exI [of _ "wr_csr CSR_SSCRATCH (rd SP v) v"], intro conjI reaches_instr(2) reaches_refl) simp_all
  moreover have "\<exists>x. reaches env syms prog (trap_vector_user_code, v) (CALL ''trap_handler'' # vector_exit, x) \<and>
       rd SP x = rd A2 h - 256 \<and> (\<forall>r. r \<noteq> ZERO \<longrightarrow> hmem x (rd A2 h - 256 + slot r) = rd r v)"
    if "hcsr v CSR_SSCRATCH = hcsr u CSR_SSCRATCH" for v
    using vector_enters [of v env syms prog] assms that calculation(5) by auto
  ultimately show ?thesis by blast
qed

section \<open>Traps from the kernel\<close>

text \<open>
  C29: the kernel's own trap vector. Of the interrupted code it saves only the stack pointer, in \<open>sscratch\<close>:
  after a handler that leaves \<open>sscratch\<close> alone, every other register has the value the handler left in it,
  and the stack pointer is that of the interrupted code even if the handler has switched to the stack of
  another process.
\<close>

theorem trap_entry_saves_sp_only:
  assumes "env ''trap_handler'' (wr_csr CSR_SSCRATCH (rd SP h) h) = Some g" "hcsr g CSR_SSCRATCH = rd SP h"
  shows "\<exists>h'. reaches env syms prog (trap_entry_code, h) ([], h') \<and> rd SP h' = rd SP h \<and> (\<forall>r. r \<noteq> SP \<longrightarrow> rd r h' = rd r g) \<and>
    hmem h' = hmem g \<and> hpc h' = hcsr g CSR_SEPC \<and> (huser h' \<longleftrightarrow> hcsr g CSR_SSTATUS AND SSTATUS_SPP = 0)"
proof -
  let ?h' = "sret (wr SP (hcsr g CSR_SSCRATCH) g)"
  have "reaches env syms prog (trap_entry_code, h) ([], ?h')"
    unfolding trap_entry_code_def
    by (intro reaches_instr(2,3,14) reaches_instr(12) [of env, OF assms(1)] reaches_refl)
  then show ?thesis using assms(2) by (intro exI [of _ ?h']) simp
qed


section \<open>The start of the kernel\<close>

definition start_tail :: "instr list" where
  "start_tail = [LABEL ''clear_bss_done'', LA T0 ''trap_entry'', CSRW CSR_STVEC T0, CALL ''kernel_main'',
     LABEL ''halt'', WFI, JUMP ''halt'']"

definition start_loop :: "instr list" where
  "start_loop = [LABEL ''clear_bss'', BEQ T0 T1 ''clear_bss_done'', SD ZERO 0 T0, ADDI T0 T0 8, JUMP ''clear_bss''] @ start_tail"

lemma start_goto: "goto ''clear_bss'' start_code = start_loop" "goto ''clear_bss_done'' start_code = start_tail"
  by (simp_all add: goto_def start_code_def start_loop_def start_tail_def)

text \<open>The doublewords from \<open>a\<close> up to \<open>b\<close>.\<close>

definition dwords :: "addr \<Rightarrow> addr \<Rightarrow> addr set" where
  "dwords a b = {x. 8 dvd unat (x - a) \<and> unat (x - a) < unat (b - a)}"

lemma unat_minus8:
  assumes "8 dvd unat (w :: u64)" "w \<noteq> 0"
  shows "unat (w - 8) + 8 = unat w"
proof -
  have "8 \<le> unat w" using assms by (intro dvd_imp_le) (simp_all add: unat_gt_0)
  then show ?thesis by (simp add: unat_sub word_le_nat_alt)
qed

lemma dwords_step:
  assumes "8 dvd unat (b - a)" "a \<noteq> b"
  shows "dwords a b = insert a (dwords (a + 8) b)" "unat (b - (a + 8)) + 8 = unat (b - a)"
proof -
  have d: "b - (a + 8) = b - a - 8" by simp
  show n: "unat (b - (a + 8)) + 8 = unat (b - a)" unfolding d using assms by (intro unat_minus8) simp_all
  have "8 dvd unat (x - a) \<and> unat (x - a) < unat (b - a) \<longleftrightarrow> 8 dvd unat (x - a - 8) \<and> unat (x - a - 8) < unat (b - (a + 8))"
    if "x \<noteq> a" for x
  proof
    assume l: "8 dvd unat (x - a) \<and> unat (x - a) < unat (b - a)"
    then have e: "unat (x - a - 8) + 8 = unat (x - a)" using that by (intro unat_minus8) simp_all
    with l have "8 dvd unat (x - a - 8)" by (metis dvd_add_triv_right_iff)
    then show "8 dvd unat (x - a - 8) \<and> unat (x - a - 8) < unat (b - (a + 8))" using e n l by simp
  next
    assume l: "8 dvd unat (x - a - 8) \<and> unat (x - a - 8) < unat (b - (a + 8))"
    then have "unat (x - a - 8) + unat (8 :: u64) < 2 ^ 64" using n unat_lt64 [of "b - a"] by simp
    then have "unat (x - a - 8 + 8) = unat (x - a - 8) + 8" by (simp only: unat_add_small) simp
    then show "8 dvd unat (x - a) \<and> unat (x - a) < unat (b - a)" using l n by simp
  qed
  moreover have "a \<in> dwords a b" using n by (simp add: dwords_def)
  ultimately have "x \<in> dwords a b \<longleftrightarrow> x \<in> insert a (dwords (a + 8) b)" for x
    by (cases "x = a") (simp_all add: dwords_def diff_diff_eq)
  then show "dwords a b = insert a (dwords (a + 8) b)" by blast
qed

lemma clear_runs:
  assumes "8 dvd unat (rd T1 h - rd T0 h)" "8 dvd unat (rd T0 h)"
  shows "reaches env syms start_code (start_loop, h)
    (start_tail, wr T0 (rd T1 h) (h\<lparr>hmem := (\<lambda>x. if x \<in> dwords (rd T0 h) (rd T1 h) then 0 else hmem h x)\<rparr>))"
  using assms
proof (induction "unat (rd T1 h - rd T0 h)" arbitrary: h rule: less_induct)
  case less
  show ?case
  proof (cases "rd T0 h = rd T1 h")
    case True
    then have "wr T0 (rd T1 h) (h\<lparr>hmem := (\<lambda>x. if x \<in> dwords (rd T0 h) (rd T1 h) then 0 else hmem h x)\<rparr>) = h"
      unfolding True [symmetric] by (simp add: dwords_def wr_def rd_def)
    then show ?thesis using True reaches_refl [of env syms start_code "(start_tail, h)"]
      unfolding start_loop_def by (auto intro!: reaches_instr(1) intro: reaches_step simp: start_goto)
  next
    case False
    let ?h = "wr T0 (rd T0 h + 8) (h\<lparr>hmem := (hmem h)(rd T0 h := 0)\<rparr>)"
    note d = dwords_step [OF less.prems(1) False]
    have m: "(\<lambda>x. if x \<in> dwords (rd T0 ?h) (rd T1 ?h) then 0 else hmem ?h x) =
        (\<lambda>x. if x \<in> dwords (rd T0 h) (rd T1 h) then 0 else hmem h x)"
      by (auto simp: d(1))
    have "8 dvd unat (rd T1 h - (rd T0 h + 8))" using d(2) less.prems(1) by (metis dvd_add_triv_right_iff)
    then have "reaches env syms start_code (start_loop, ?h)
      (start_tail, wr T0 (rd T1 ?h) (?h\<lparr>hmem := (\<lambda>x. if x \<in> dwords (rd T0 ?h) (rd T1 ?h) then 0 else hmem ?h x)\<rparr>))"
      using d(2) less.prems(2) by (intro less.hyps) (simp_all add: aligned_add)
    then have "reaches env syms start_code (start_loop, ?h)
      (start_tail, wr T0 (rd T1 h) (h\<lparr>hmem := (\<lambda>x. if x \<in> dwords (rd T0 h) (rd T1 h) then 0 else hmem h x)\<rparr>))"
      unfolding m by (simp add: wr_def rd_def)
    then have "reaches env syms start_code ([SD ZERO 0 T0, ADDI T0 T0 8, JUMP ''clear_bss''] @ start_tail, h)
      (start_tail, wr T0 (rd T1 h) (h\<lparr>hmem := (\<lambda>x. if x \<in> dwords (rd T0 h) (rd T1 h) then 0 else hmem h x)\<rparr>))"
      using less.prems(2) by (auto intro!: reaches_instr simp: start_goto rd_def)
    then show ?thesis unfolding start_loop_def using False by (auto intro!: reaches_instr(1) intro: reaches_step)
  qed
qed


text \<open>When the section is no whole number of doublewords, the loop steps over its end.\<close>

definition clearing :: "instr list \<times> hart \<Rightarrow> bool" where
  "clearing c \<longleftrightarrow> (\<exists>n < 5. fst c = drop n start_loop) \<and> \<not> 8 dvd unat (rd T1 (snd c) - rd T0 (snd c))"

lemma clearing_step:
  assumes "clearing c" "astep env syms start_code c = Some d"
  shows "clearing d"
proof -
  obtain n h where c: "c = (drop n start_loop, h)" and n: "n < 5" and nd: "\<not> 8 dvd unat (rd T1 h - rd T0 h)"
    using assms(1) by (cases c) (auto simp: clearing_def)
  have ne: "rd T0 h \<noteq> rd T1 h" using nd by auto
  have nd8: "\<not> 8 dvd unat (rd T1 h - (rd T0 h + 8))"
    using nd aligned_add [of "rd T1 h - (rd T0 h + 8)" 8] by auto
  have next_in: "\<exists>k < 5. drop (Suc n) start_loop = drop k start_loop" if "n < 4" using that by (intro exI [of _ "Suc n"]) simp
  have loop: "\<exists>k < 5. start_loop = drop k start_loop" by (intro exI [of _ 0]) simp
  consider "n = 0" | "n = 1" | "n = 2" | "n = 3" | "n = 4" using n by linarith
  then show ?thesis
    by cases (use assms(2) ne nd nd8 next_in loop in
      \<open>auto simp: c clearing_def start_loop_def start_goto Let_def split: if_splits\<close>)
qed

lemma clearing_forever: "clearing c \<Longrightarrow> reaches env syms start_code c d \<Longrightarrow> clearing d"
proof -
  have "asteps n env syms start_code c = Some d \<Longrightarrow> clearing c \<Longrightarrow> clearing d" for n
    by (induction n arbitrary: c) (auto intro: clearing_step split: Option.bind_splits)
  then show "clearing c \<Longrightarrow> reaches env syms start_code c d \<Longrightarrow> clearing d" by (auto simp: reaches_def)
qed


text \<open>
  C2: the start of the kernel, with the section of zero data at an aligned address. If the section is a
  whole number of doublewords, \<open>kernel_main\<close> is called with exactly that section cleared, on the kernel's
  stack, with interrupts disabled and the trap vector installed; otherwise the loop that clears it never
  ends and \<open>kernel_main\<close> is never called.
\<close>

theorem start_clears_bss:
  fixes h :: hart
  assumes "8 dvd unat (syms ''__bss_start'')"
  shows "if 8 dvd unat (syms ''__bss_end'' - syms ''__bss_start'')
    then \<exists>rest h'. reaches env syms start_code (start_code, h) (CALL ''kernel_main'' # rest, h') \<and>
      (\<forall>a. hmem h' a = (if a \<in> dwords (syms ''__bss_start'') (syms ''__bss_end'') then 0 else hmem h a)) \<and>
      rd SP h' = syms ''__stack_top'' \<and> rd GP h' = syms ''__global_pointer$'' \<and> hcsr h' CSR_SIE = 0 \<and>
      hcsr h' CSR_STVEC = syms ''trap_entry''
    else \<forall>c. reaches env syms start_code (start_code, h) c \<longrightarrow> fst c \<noteq> [] \<and> hd (fst c) \<noteq> CALL ''kernel_main''"
proof -
  define h0 where "h0 = wr T1 (syms ''__bss_end'') (wr T0 (syms ''__bss_start'') (wr SP (syms ''__stack_top'')
    (wr GP (syms ''__global_pointer$'') (wr_csr CSR_SIP 0 (wr_csr CSR_SIE 0 h)))))"
  have t: "rd T0 h0 = syms ''__bss_start''" "rd T1 h0 = syms ''__bss_end''" by (simp_all add: h0_def)
  have pre: "start_code = [CSRW CSR_SIE ZERO, CSRW CSR_SIP ZERO, LA GP ''__global_pointer$'', LA SP ''__stack_top'',
      LA T0 ''__bss_start'', LA T1 ''__bss_end''] @ start_loop"
    by (simp add: start_code_def start_loop_def start_tail_def)
  have 1: "reaches env syms start_code (start_code, h) (start_loop, h0)"
    unfolding pre append.simps
    by (intro reaches_instr(2,5)) (simp add: h0_def rd_def reaches_refl)
  show ?thesis
  proof (cases "8 dvd unat (syms ''__bss_end'' - syms ''__bss_start'')")
    case True
    define h1 where "h1 = wr T0 (rd T1 h0)
      (h0\<lparr>hmem := (\<lambda>x. if x \<in> dwords (rd T0 h0) (rd T1 h0) then 0 else hmem h0 x)\<rparr>)"
    define h2 where "h2 = wr_csr CSR_STVEC (syms ''trap_entry'') (wr T0 (syms ''trap_entry'') h1)"
    have 2: "reaches env syms start_code (start_loop, h0) (start_tail, h1)"
      unfolding h1_def using True assms(1) by (intro clear_runs) (simp_all add: t)
    have 3: "reaches env syms start_code (start_tail, h1) (CALL ''kernel_main'' # [LABEL ''halt'', WFI, JUMP ''halt''], h2)"
      unfolding start_tail_def by (intro reaches_instr(1,2,5)) (simp add: h2_def reaches_refl)
    have "hmem h2 a = (if a \<in> dwords (syms ''__bss_start'') (syms ''__bss_end'') then 0 else hmem h a)" for a
      by (simp add: h2_def h1_def t) (simp add: h0_def)
    moreover have "rd SP h2 = syms ''__stack_top''" "rd GP h2 = syms ''__global_pointer$''" "hcsr h2 CSR_SIE = 0"
      "hcsr h2 CSR_STVEC = syms ''trap_entry''" by (simp_all add: h2_def h1_def h0_def)
    ultimately show ?thesis unfolding if_P [OF True]
      by (intro exI [of _ "[LABEL ''halt'', WFI, JUMP ''halt'']"] exI [of _ h2] conjI allI reaches_trans [OF 1 reaches_trans [OF 2 3]])
  next
    case False
    then have cl: "clearing (start_loop, h0)" by (auto simp: clearing_def t intro: exI [of _ 0])
    have six: "asteps 6 env syms start_code (start_code, h) = Some (start_loop, h0)"
      by (simp add: pre h0_def rd_def numeral_eq_Suc)
    have "fst c \<noteq> [] \<and> hd (fst c) \<noteq> CALL ''kernel_main''" if c: "reaches env syms start_code (start_code, h) c" for c
      using reaches_prefix [OF six c]
    proof
      assume "reaches env syms start_code (start_loop, h0) c"
      from clearing_forever [OF cl this] obtain n where "n < 5" "fst c = drop n start_loop" by (auto simp: clearing_def)
      then show ?thesis by (auto simp: start_loop_def less_Suc_eq numeral_eq_Suc)
    next
      assume "\<exists>n<6. asteps n env syms start_code (start_code, h) = Some c"
      then show ?thesis by (auto simp: start_code_def less_Suc_eq numeral_eq_Suc)
    qed
    then show ?thesis unfolding if_not_P [OF False] by blast
  qed
qed

section \<open>Witnesses\<close>

text \<open>A hart with zeroed memory whose registers hold their own numbers, but for the ones a witness needs.\<close>

definition sample_hart :: "(reg \<times> u64) list \<Rightarrow> u64 \<Rightarrow> hart" where
  "sample_hart rs scratch = fold (\<lambda>(r, v). wr r v) rs
     \<lparr>hregs = (\<lambda>r. ucast r), hcsr = (\<lambda>_. 0)(CSR_SSCRATCH := scratch, CSR_SEPC := 0x1000), hmem = (\<lambda>_. 0),
      hpc = 0x80200000, huser = False, hfences = 0\<rparr>"

text \<open>A handler that changes registers but keeps the stack, as compiled C code does.\<close>

definition sample_env :: "string \<Rightarrow> hart \<Rightarrow> hart option" where
  "sample_env f h = Some (wr A0 7 (wr RA 0x80200100 h))"

text \<open>Contexts at multiples of 1024, those of the processes and of the idle processes.\<close>

primrec sample_block :: "proc_ref \<Rightarrow> nat" where
  "sample_block (Proc i) = 0x200C00 + i"
| "sample_block (Idle i) = 0x201000 + i"

definition sample_ctx :: "proc_ref \<Rightarrow> addr" where
  "sample_ctx r = of_nat (0x400 * sample_block r)"

lemma sample_cell:
  assumes "sample_block r < 0x202000" "a \<in> ctx_cells (sample_ctx r)"
  shows "unat a div 0x400 = sample_block r"
proof -
  obtain off where o: "off \<in> snd ` set ctx_slots" "a = sample_ctx r + off" using assms(2) by (auto simp: ctx_cells_def)
  have l: "unat off < 0x400" using o(1) by (auto simp: slots_mem)
  have c: "unat (sample_ctx r) = 0x400 * sample_block r"
    unfolding sample_ctx_def by (rule unat_of_nat_small) (use assms(1) in simp)
  have "unat a = 0x400 * sample_block r + unat off"
    unfolding o(2) using assms(1) l by (subst unat_add_small) (simp_all add: c)
  then show ?thesis using l by simp
qed

lemma sample_valid: "valid_ref sample_sched r \<Longrightarrow> sample_block r < 0x202000"
  by (cases r) (simp_all add: sample_sched_fields)

lemma sample_layout: "ctx_layout sample_ctx sample_sched"
proof -
  have "ctx_cells (sample_ctx r) \<inter> ctx_cells (sample_ctx q) = {}"
    if "valid_ref sample_sched r" "valid_ref sample_sched q" "q \<noteq> r" for r q
  proof -
    have "sample_block r \<noteq> sample_block q" using that by (cases r; cases q) (auto simp: sample_sched_fields)
    then show ?thesis using sample_cell [OF sample_valid [OF that(1)]] sample_cell [OF sample_valid [OF that(2)]]
      by (metis disjoint_iff)
  qed
  moreover have "sample_ctx r \<noteq> NULL \<and> 8 dvd unat (sample_ctx r)" if "valid_ref sample_sched r" for r
  proof -
    have c: "unat (sample_ctx r) = 0x400 * sample_block r"
      unfolding sample_ctx_def by (rule unat_of_nat_small) (use sample_valid [OF that] in simp)
    have "0 < sample_block r" by (cases r) simp_all
    then have "unat (sample_ctx r) \<noteq> 0" unfolding c by simp
    moreover have "8 dvd unat (sample_ctx r)" unfolding c by (simp add: dvd_mult2)
    ultimately show ?thesis by (simp add: unat_eq_zero)
  qed
  ultimately show ?thesis unfolding ctx_layout_def by blast
qed

theorem trap_vector_user_restores_witness:
  "\<exists>h'. reaches sample_env (\<lambda>_. 0) trap_vector_user_code (trap_vector_user_code, sample_hart [(SP, 0x7000)] 0x80500000) ([], h') \<and>
     rd SP h' = 0x7000 \<and> rd A0 h' = 10 \<and> rd RA h' = 1 \<and> rd T0 h' = 0x7000 \<and> hpc h' = 0x1000 \<and> huser h'"
proof -
  define h where "h = sample_hart [(SP, 0x7000)] 0x80500000"
  have f: "rd SP h = 0x7000" "rd A0 h = 10" "rd RA h = 1" "hcsr h CSR_SEPC = 0x1000" "hcsr h CSR_SSTATUS = 0"
    "hcsr h CSR_SSCRATCH = 0x80500000" by (simp_all add: h_def sample_hart_def rd_def wr_def)
  have k: "keeps_frame (sample_env ''trap_handler'')" by (auto simp: keeps_frame_def sample_env_def)
  have s: "8 dvd unat (hcsr h CSR_SSCRATCH)" by (simp add: f)
  from trap_vector_user_restores [OF s, of sample_env, OF k, of "\<lambda>_. 0" trap_vector_user_code] obtain x where
    x: "hcsr x = (hcsr h)(CSR_SSCRATCH := rd SP h)"
      "\<forall>g. sample_env ''trap_handler'' x = Some g \<longrightarrow>
        (\<exists>h'. reaches sample_env (\<lambda>_. 0) trap_vector_user_code (trap_vector_user_code, h) ([], h') \<and>
          (\<forall>r. r \<noteq> T0 \<longrightarrow> rd r h' = rd r h) \<and> rd T0 h' = rd SP h \<and> hcsr h' CSR_SSCRATCH = hcsr h CSR_SSCRATCH \<and>
          hpc h' = hcsr g CSR_SEPC \<and> (huser h' \<longleftrightarrow> hcsr g CSR_SSTATUS AND SSTATUS_SPP = 0))"
    by (elim exE conjE) (rule that)
  from x(2) [rule_format, OF sample_env_def] obtain h' where
    h': "reaches sample_env (\<lambda>_. 0) trap_vector_user_code (trap_vector_user_code, h) ([], h')"
      "\<forall>r. r \<noteq> T0 \<longrightarrow> rd r h' = rd r h" "rd T0 h' = rd SP h" "hpc h' = 0x1000" "huser h'"
    by (auto simp: x(1) f)
  then show ?thesis unfolding h_def [symmetric] by (intro exI [of _ h']) (simp add: f)
qed

theorem trap_entry_saves_sp_only_witness:
  "\<exists>h'. reaches sample_env (\<lambda>_. 0) trap_entry_code (trap_entry_code, sample_hart [(SP, 0x80500000)] 0) ([], h') \<and>
     rd SP h' = 0x80500000 \<and> rd A0 h' = 7 \<and> rd A0 (sample_hart [(SP, 0x80500000)] 0) = 10 \<and> rd RA h' = 0x80200100 \<and> hpc h' = 0x1000"
proof -
  define h where "h = sample_hart [(SP, 0x80500000)] 0"
  have f: "rd SP h = 0x80500000" "rd A0 h = 10" "hcsr h CSR_SEPC = 0x1000" by (simp_all add: h_def sample_hart_def rd_def wr_def)
  define g where "g = wr A0 7 (wr RA 0x80200100 (wr_csr CSR_SSCRATCH (rd SP h) h))"
  have g: "sample_env ''trap_handler'' (wr_csr CSR_SSCRATCH (rd SP h) h) = Some g" "hcsr g CSR_SSCRATCH = rd SP h"
    by (simp_all add: sample_env_def g_def)
  from trap_entry_saves_sp_only [of sample_env, OF g, of "\<lambda>_. 0" trap_entry_code] obtain h' where
    h': "reaches sample_env (\<lambda>_. 0) trap_entry_code (trap_entry_code, h) ([], h')" "rd SP h' = rd SP h"
      "\<forall>r. r \<noteq> SP \<longrightarrow> rd r h' = rd r g" "hpc h' = hcsr g CSR_SEPC" by blast
  moreover have "rd A0 h' = 7" "rd RA h' = 0x80200100" using h'(3) by (simp_all add: g_def)
  moreover have "hcsr g CSR_SEPC = 0x1000" by (simp add: g_def f)
  ultimately show ?thesis unfolding h_def [symmetric] using f by (intro exI [of _ h']) simp
qed

theorem switch_to_user_no_kernel_stack_witness:
  "\<exists>u. reaches sample_env (\<lambda>_. 0) switch_to_user_code (switch_to_user_code, sample_hart [(SP, 0x80500000), (A1, 0x1000), (A2, 0x7000)] 0) ([], u) \<and>
     hpc u = 0x1000 \<and> huser u \<and> rd SP u = 0x80500000 \<and>
     (\<exists>x. reaches sample_env (\<lambda>_. 0) switch_to_user_code (trap_entry_code, wr SP 0x1234 u)
        ([CALL ''trap_handler'', CSRR SP CSR_SSCRATCH, SRET], x) \<and> rd SP x = 0x1234)"
proof -
  define h where "h = sample_hart [(SP, 0x80500000), (A1, 0x1000), (A2, 0x7000)] 0"
  have f: "rd SP h = 0x80500000" "rd A1 h = 0x1000" "rd A2 h = 0x7000" by (simp_all add: h_def sample_hart_def)
  have a: "8 dvd unat (rd A2 h)" by (simp add: f)
  obtain u where u: "reaches sample_env (\<lambda>_. 0) switch_to_user_code (switch_to_user_code, h) ([], u)" "hpc u = rd A1 h" "huser u" "rd SP u = rd SP h"
    and t: "\<forall>v. hcsr v CSR_SSCRATCH = hcsr u CSR_SSCRATCH \<longrightarrow>
       (\<exists>x. reaches sample_env (\<lambda>_. 0) switch_to_user_code (trap_entry_code, v) ([CALL ''trap_handler'', CSRR SP CSR_SSCRATCH, SRET], x) \<and>
          rd SP x = rd SP v \<and> hcsr x CSR_SSCRATCH = rd SP v) \<and>
       (\<exists>x. reaches sample_env (\<lambda>_. 0) switch_to_user_code (trap_vector_user_code, v) (CALL ''trap_handler'' # vector_exit, x) \<and>
          rd SP x = rd A2 h - 256 \<and> (\<forall>r. r \<noteq> ZERO \<longrightarrow> hmem x (rd A2 h - 256 + slot r) = rd r v))"
    using switch_to_user_no_kernel_stack [OF a, of sample_env "\<lambda>_. 0" switch_to_user_code] by (elim exE conjE) (rule that)
  have "hcsr (wr SP 0x1234 u) CSR_SSCRATCH = hcsr u CSR_SSCRATCH" by simp
  from t [rule_format, OF this, THEN conjunct1] obtain x where
    x: "reaches sample_env (\<lambda>_. 0) switch_to_user_code (trap_entry_code, wr SP 0x1234 u) ([CALL ''trap_handler'', CSRR SP CSR_SSCRATCH, SRET], x)"
      "rd SP x = rd SP (wr SP 0x1234 u)" by (elim exE conjE) (rule that)
  have "rd SP x = 0x1234" using x(2) by simp
  then show ?thesis unfolding h_def [symmetric] using u x(1) f by (intro exI [of _ u]) auto
qed

text \<open>Process 1 has been running and process 2, which stopped at \<open>0x80201234\<close>, is switched to.\<close>

theorem swtch_code_refines_witness:
  "\<exists>h'. reaches sample_env (\<lambda>_. 0) swtch_code (swtch_code, (sample_hart [(A0, sample_ctx (Proc 1)), (A1, sample_ctx (Proc 2))] 0)
      \<lparr>hmem := (\<lambda>_. 0)(sample_ctx (Proc 2) := 0x80201234)\<rparr>) ([], h') \<and>
    hpc h' = 0x80201234 \<and> rd S0 h' = 0 \<and> ctx_s0 (ctx_at (hmem h') (sample_ctx (Proc 1))) = 8"
proof -
  define h where "h = (sample_hart [(A0, sample_ctx (Proc 1)), (A1, sample_ctx (Proc 2))] 0)
    \<lparr>hmem := (\<lambda>_. 0)(sample_ctx (Proc 2) := 0x80201234)\<rparr>"
  define s where "s = upd_proc (\<lambda>p. p\<lparr>p_context := zero_context\<lparr>ctx_ra := 0x80201234\<rparr>\<rparr>) (Proc 2)
    (sample_sched\<lparr>cpu_regs := ctx_regs h\<rparr>)"
  have v: "valid_ref s = valid_ref sample_sched" by (simp add: s_def fun_eq_iff)
  have layout: "ctx_layout sample_ctx s" using sample_layout by (simp add: ctx_layout_def v)
  have in2: "sample_ctx (Proc 2) \<in> ctx_cells (sample_ctx (Proc 2))" by (simp add: ctx_cells_def ctx_slots_def)
  have "p_context (get_proc s r) = ctx_at (hmem h) (sample_ctx r)" if r: "valid_ref s r" for r
  proof (cases "r = Proc 2")
    case True
    then show ?thesis by (simp add: s_def h_def ctx_at_def zero_context_def sample_sched_fields)
  next
    case False
    have "ctx_cells (sample_ctx r) \<inter> ctx_cells (sample_ctx (Proc 2)) = {}"
      using layout r False by (simp add: ctx_layout_def v sample_sched_fields)
    then have "a \<noteq> sample_ctx (Proc 2)" if "a \<in> ctx_cells (sample_ctx r)" for a using in2 that by blast
    then have "hmem h (sample_ctx r + off) = 0" if "off \<in> snd ` set ctx_slots" for off
      using that by (auto simp: h_def ctx_cells_def)
    note z = this [unfolded slots_mem]
    have "ctx_at (hmem h) (sample_ctx r) = zero_context"
      using z [of 0] by (simp add: ctx_at_def z zero_context_def)
    moreover have "p_context (get_proc s r) = zero_context"
    proof -
      have "get_proc s r = get_proc sample_sched r" using False by (simp add: s_def)
      also have "\<dots> = blank_process" using r by (cases r) (simp_all add: v sample_sched_fields get_proc.simps)
      finally show ?thesis by (simp add: blank_process_def)
    qed
    ultimately show ?thesis by simp
  qed
  then have m: "ctx_match sample_ctx h s" by (simp add: ctx_match_def s_def)
  have ar: "\<forall>r \<in> set_option (Some (Proc 1)) \<union> set_option (Some (Proc 2)). valid_ref s r" "rd A0 h = ctx_arg sample_ctx (Some (Proc 1))"
    "rd A1 h = ctx_arg sample_ctx (Some (Proc 2))" by (simp_all add: v sample_sched_fields h_def sample_hart_def ctx_arg_def)
  from swtch_code_refines [OF m layout ar, of sample_env "\<lambda>_. 0"] obtain h' where
    h': "reaches sample_env (\<lambda>_. 0) swtch_code (swtch_code, h) ([], h')" "ctx_match sample_ctx h' (swtch (Some (Proc 1)) (Some (Proc 2)) s)"
      "hpc h' = ctx_ra (cpu_regs (swtch (Some (Proc 1)) (Some (Proc 2)) s))" by (elim exE conjE) (rule that)
  let ?s = "swtch (Some (Proc 1)) (Some (Proc 2)) s"
  have n: "p_context (get_proc s (Proc 2)) = zero_context\<lparr>ctx_ra := 0x80201234\<rparr>" "cpu_regs s = ctx_regs h" "valid_ref s (Proc 1)"
    by (simp_all add: s_def sample_sched_fields)
  have c: "cpu_regs ?s = zero_context\<lparr>ctx_ra := 0x80201234\<rparr>" by (simp add: swtch_def n)
  have g: "get_proc ?s = get_proc (upd_proc (\<lambda>p. p\<lparr>p_context := cpu_regs s\<rparr>) (Proc 1) s)" by (simp add: swtch_def)
  have "p_context (get_proc ?s (Proc 1)) = ctx_regs h" unfolding g using n by simp
  moreover have "valid_ref ?s (Proc 1)" using n(3) by (simp add: swtch_def)
  ultimately have r: "ctx_at (hmem h') (sample_ctx (Proc 1)) = ctx_regs h" "ctx_regs h' = zero_context\<lparr>ctx_ra := 0x80201234\<rparr>"
    using h'(2) c by (simp_all add: ctx_match_def)
  have "rd S0 h = 8" by (simp add: h_def sample_hart_def rd_def wr_def)
  then have old: "ctx_s0 (ctx_at (hmem h') (sample_ctx (Proc 1))) = 8" unfolding r(1) by (simp add: ctx_regs_def)
  have "rd S0 h' = ctx_s0 (ctx_regs h')" by (simp add: ctx_regs_def)
  then have "rd S0 h' = 0" unfolding r(2) by (simp add: zero_context_def)
  moreover have "hpc h' = 0x80201234" unfolding h'(3) c by simp
  ultimately show ?thesis unfolding h_def [symmetric] using h'(1) old by blast
qed

definition sample_syms :: "addr \<Rightarrow> string \<Rightarrow> addr" where
  "sample_syms e l = (if l = ''__bss_end'' then e else 0x80250000)"

theorem start_clears_bss_witness:
  "(\<exists>rest h'. reaches sample_env (sample_syms 0x80250010) start_code (start_code, (sample_hart [] 0)\<lparr>hmem := (\<lambda>_. 1)\<rparr>)
      (CALL ''kernel_main'' # rest, h') \<and> hmem h' 0x80250008 = 0 \<and> hmem h' 0x80250010 = 1) \<and>
   (\<nexists>c. reaches sample_env (sample_syms 0x80250014) start_code (start_code, sample_hart [] 0) c \<and>
      (fst c = [] \<or> hd (fst c) = CALL ''kernel_main''))"
proof
  let ?h = "(sample_hart [] 0)\<lparr>hmem := (\<lambda>_. 1)\<rparr>"
  have y: "sample_syms e ''__bss_start'' = 0x80250000" "sample_syms e ''__bss_end'' = e" for e by (simp_all add: sample_syms_def)
  have a: "8 dvd unat (sample_syms e ''__bss_start'')" for e by (simp add: y)
  have d: "8 dvd unat (sample_syms 0x80250010 ''__bss_end'' - sample_syms 0x80250010 ''__bss_start'')" by (simp add: y)
  obtain rest h' where h': "reaches sample_env (sample_syms 0x80250010) start_code (start_code, ?h) (CALL ''kernel_main'' # rest, h')"
    "\<forall>a. hmem h' a = (if a \<in> dwords 0x80250000 0x80250010 then 0 else hmem ?h a)"
    using start_clears_bss [where env = sample_env and syms = "sample_syms 0x80250010" and h = ?h, OF a, unfolded if_P [OF d], unfolded y]
    by (elim exE conjE) (rule that)
  have "hmem h' 0x80250008 = 0 \<and> hmem h' 0x80250010 = 1" unfolding h'(2) [rule_format] by (simp add: dwords_def)
  then show "\<exists>rest h'. reaches sample_env (sample_syms 0x80250010) start_code (start_code, ?h) (CALL ''kernel_main'' # rest, h') \<and>
      hmem h' 0x80250008 = 0 \<and> hmem h' 0x80250010 = 1" using h'(1) by blast
  have "\<not> 8 dvd unat (sample_syms 0x80250014 ''__bss_end'' - sample_syms 0x80250014 ''__bss_start'')" by (simp add: y)
  then have "\<forall>c. reaches sample_env (sample_syms 0x80250014) start_code (start_code, sample_hart [] 0) c \<longrightarrow>
      fst c \<noteq> [] \<and> hd (fst c) \<noteq> CALL ''kernel_main''"
    using start_clears_bss [where env = sample_env and syms = "sample_syms 0x80250014" and h = "sample_hart [] 0", OF a] by presburger
  then show "\<nexists>c. reaches sample_env (sample_syms 0x80250014) start_code (start_code, sample_hart [] 0) c \<and>
      (fst c = [] \<or> hd (fst c) = CALL ''kernel_main'')" by blast
qed

end
