(* ===== verification/Spec2Isabelle.thy ===== *)
theory Spec2Isabelle
  imports Boot Entry
begin

text \<open>
  A verification of the RISC-V 64-bit embedded kernel: its memory manager, virtual memory, processes and
  scheduler, console, file systems, drivers, traps, system calls, shell, start-up and assembly, as executable
  functions on explicit states, with the theorems that make them correct.

  \<^bold>\<open>The program.\<close> \<open>kernel_main\<close> (\<open>kernel/main.c\<close>) is entered by the boot code (\<open>bootloader/boot.S\<close>) on one hart. It sets up the
  page pool and the heap (\<open>kernel/mm/mm.c\<close>), builds the kernel's SV39 page table from pages of the pool and
  switches paging on (\<open>kernel/mm/vm.c\<close>), installs the trap vector (\<open>kernel/trap/trap.c\<close>), initialises the
  scheduler (\<open>kernel/process/scheduler.c\<close>), the virtual file system (\<open>kernel/fs/vfs.c\<close>), the simple file
  system, whose data area comes from the heap (\<open>kernel/fs/simplefs.c\<close>), and the test device, which registers
  itself with the virtual file system (\<open>drivers/testdev/testdev.c\<close>). It runs its tests and enters the shell,
  which reads lines from the UART and opens the test device through the virtual file system. The
  scheduler works on the process table (\<open>kernel/process/process.c\<close>), switches contexts in assembly
  (\<open>kernel/process/swtch.S\<close>) and is driven by timer interrupts.
  Everything prints through \<open>printf\<close> (\<open>kernel/printf.c\<close>), which sends characters to the UART
  (\<open>drivers/uart/uart.c\<close>).

  \<^bold>\<open>States.\<close> The globals of each source file are the fields of a record that extends the record of the
  files it depends on: \<open>machine\<close> (console log, supervisor CSRs, callee-saved registers), \<open>mm_state\<close>,
  \<open>vm_state\<close>, \<open>proc_state\<close>, \<open>sched_state\<close>, \<open>vfs_state\<close>, \<open>testdev_state\<close>, \<open>sfs_state\<close>, \<open>sys_state\<close>,
  \<open>kernel_state\<close>. An operation is a function on the schemes of the record it needs, so it applies to every
  later state. Memory that the code accesses as 64-bit cells (free pages, page tables) is a function from
  addresses to words; structures on the heap of the virtual file system are functions from addresses to
  records. Pointers to processes are references into the process table or the array of idle processes.
  Machine integers are words of their width, with the wrap-around of the code; C \<open>int\<close> results are \<open>int\<close>.
  A call of \<open>printf\<close> is logged with its format and arguments; what the log shows on the console is
  \<open>log_out\<close> in \<open>Printf\<close>. Code that may panic returns an \<open>outcome\<close>, either \<open>Ret\<close> with a value and a state or
  \<open>Panic\<close> with the message and the state; code that may leave defined C, or wait forever, returns an
  option or a fault.

  \<^bold>\<open>Theories\<close>, with the source under \<open>src/\<close> each one models:
  \<^item> \<open>Prelude\<close>: integer types (\<open>kernel/types.h\<close>), outcomes, lemmas on words, pages and their cells, scans of
    arrays, C strings; the collections \<open>state_updates\<close> and \<open>wf_pres\<close>.
  \<^item> \<open>Machine\<close>: \<open>kernel/riscv.h\<close>, the contexts of \<open>kernel/process/process.h\<close>, the log and \<open>panic\<close>.
  \<^item> \<open>Mm\<close>: \<open>kernel/mm/mm.c\<close>. The locale \<open>page_pool\<close> is what clients of the page allocator rely on and
    \<open>bump_heap\<close> what clients of \<open>kmalloc\<close> rely on; both are interpreted on the model's operations.
  \<^item> \<open>Page_Tables\<close>: the entries of \<open>kernel/mm/vm.h\<close> and the tree of tables in memory, with the abstract
    translation \<open>translate\<close> from page numbers to leaf entries.
  \<^item> \<open>Vm\<close>, \<open>Vm_Kernel\<close>: \<open>kernel/mm/vm.c\<close>, with its lemmas on single ranges in the first and on whole tables in the
    second.
  \<^item> \<open>Process\<close>: \<open>kernel/process/process.c\<close>.
  \<^item> \<open>Queues\<close>: the ring buffers and the sorted real-time array of \<open>kernel/process/scheduler.c\<close>. The locale
    \<open>bounded_queue\<close> is extended to \<open>fifo_queue\<close> and \<open>prio_queue\<close>, interpreted on the two kinds of queue.
  \<^item> \<open>Scheduler\<close>: the rest of \<open>kernel/process/scheduler.c\<close>, and \<open>swtch\<close> of \<open>kernel/process/swtch.S\<close>, with the
    invariant; \<open>Sched_System\<close>: the step relation \<open>sched_step\<close> of the running system and the properties.
  \<^item> \<open>Uart\<close>, \<open>Printf\<close>: \<open>drivers/uart/uart.c\<close> over a device that answers each read of a register, and
    \<open>kernel/printf.c\<close> as the characters it sends.
  \<^item> \<open>Elf\<close>: \<open>kernel/process/elf.c\<close> on a memory of bytes.
  \<^item> \<open>Vfs\<close>, \<open>Testdev\<close>, \<open>Simplefs\<close>: \<open>kernel/fs/vfs.c\<close>, \<open>drivers/testdev/testdev.c\<close>, \<open>kernel/fs/simplefs.c\<close>. The locale
    \<open>byte_device\<close> is the contract of a seekable device, interpreted on the test device.
  \<^item> \<open>Plic\<close>: \<open>drivers/plic/plic.c\<close> and \<open>drivers/rtc/rtc.c\<close>.
  \<^item> \<open>Trap\<close>, \<open>Syscall\<close>: \<open>kernel/trap/trap.c\<close>, \<open>kernel/syscall/syscall.c\<close>.
  \<^item> \<open>Shell\<close>: \<open>kernel/main.c\<close>, with the line editor's properties; \<open>Shell_Service\<close>: what its commands change, and
    what the shell makes of every input; \<open>Boot\<close>: the start-up sequence as a whole.
  \<^item> \<open>Asm\<close>: a hart (registers, supervisor CSRs, memory in doublewords, mode) and \<open>astep\<close>, one step per
    instruction the assembly files use; \<open>Entry\<close>: \<open>_start\<close> and \<open>trap_entry\<close> of \<open>bootloader/boot.S\<close>, and \<open>swtch\<close>,
    \<open>switch_to_user\<close> and \<open>trap_vector_user\<close> of \<open>kernel/process/swtch.S\<close>, as the lists of their instructions.

  \<^bold>\<open>What is shown.\<close> Each claim is stated in the text before its theorem.
  \<^item> Composition: on a loaded image \<open>kernel_main\<close> returns from the initialisation and the tests and reaches
    the prompt with the invariants of all components; the shell serves every input and gives back
    every page, up to a line \<open>reboot\<close> when the register it stores to is not mapped, where the kernel panics.
  \<^item> Memory: the pool is built exactly, pages are handed out once, cleared, and come back,
    heap blocks are aligned and disjoint. Page tables: \<open>mappages\<close> and \<open>unmappages\<close> change exactly the
    translations of their range, keep every other tree, and refuse what they cannot map; the
    kernel's table is the identity on its ranges; freeing a table gives back all its pages.
  \<^item> Scheduler: the invariant on every reachable state, refinement of lists of processes, no
    process is lost, slices, demotion and the ticks that boost the waiting processes, the queues refine a FIFO and a stable
    priority queue, priorities are clamped. A process takes the first free slot under
    a new identifier, and inherits what the slot's last owner left in the fields nobody resets.
  \<^item> Gaps of the scheduler: a FIFO process that yields is lost, the idle process is never
    preempted, a hundredth tick that preempts or finds no process boosts nobody.
  \<^item> Console: the line editor and what the terminal shows, \<open>printf\<close> equals an independent
    reading of formats as directives, with its overflows, numbers read back, the \<open>%lu\<close> conversion, output is sent.
  \<^item> Files and devices: sessions on the test device read back what they wrote, reads behind the data
    leave the buffer, the registry, file creation and deletion with the count of inodes,
    long names, sizes near the end of 32 bits; the interrupt controller.
  \<^item> Traps and calls: the dispatch on the cause, the console calls, what the ELF loader checks
    and what it trusts.
  \<^item> Assembly: the instructions of \<open>swtch\<close> implement \<open>swtch\<close> of the scheduler's model, given the places of the
    contexts in memory; \<open>_start\<close> calls \<open>kernel_main\<close> with the zero data cleared exactly if its size is a multiple
    of 8, and otherwise never; the trap vector for user mode gives the handler all registers and the
    user back all but \<open>t0\<close>. Gaps: no code installs that vector, \<open>switch_to_user\<close> leaves no stack of the kernel
    for the next trap, and \<open>trap_entry\<close> saves no register but the stack pointer.

  \<^bold>\<open>Bounds and fuel.\<close> \<open>vm_free\<close> has a depth; \<open>Vm_Kernel\<close> shows that the depth 3 of SV39 is enough. \<open>scheduler\<close> has a
  number of turns; \<open>scheduler_first_turn\<close> shows that the first one leaves it. Polling the UART, the shell's
  outer loop and the search for the end of a string in memory are \<open>partial_function\<close>s, where not returning
  is \<open>None\<close>; \<open>Uart\<close> shows that polling ends when the device becomes ready, and \<open>Shell_Service\<close> that the loop
  comes to wait for input, or to the panic of a \<open>reboot\<close> that faults.
  All other loops are total functions, with a termination proof where the recursion is not structural.

  \<^bold>\<open>Parameters and hypotheses.\<close> The addresses of the trap vector, of the device's table of operations and of
  the store instruction of \<open>reboot\<close>, and the table of operations at an address, are arguments, as only the linker knows them. \<open>linked\<close> states
  the alignment and the distance of the heap symbols that \<open>scripts/kernel.ld\<close> defines; \<open>boot_image\<close> adds the
  sizes of the static arrays. What the UART answers is an argument of \<open>Uart\<close>. 32-bit variadic arguments
  reach \<open>printf\<close> sign-extended, as the calling convention of the architecture passes them (\<open>u32_arg\<close>).
  One memory access is checked against the page table that is installed, the store of the command \<open>reboot\<close>
  (\<open>store_device\<close>), as its address lies outside what \<open>kvminit\<close> maps; the others that the kernel makes go to
  the memory and the UART, and the theorem on start-up states that these are mapped one to one. The steps of
  \<open>sched_step\<close> add processes, and change their policy or priority, only while they do not wait, as the callers
  of these functions do. Interrupts are not interleaved with other code; \<open>trap_handler\<close> is modelled as a function of the state
  it finds. In \<open>Entry\<close> the addresses of the linker's symbols (\<open>syms\<close>) and what compiled C functions do to the
  hart (\<open>env\<close>) are arguments; \<open>keeps_frame\<close> is the part of the calling convention the trap vector relies on,
  and \<open>ctx_layout\<close> states that the contexts are aligned and apart in memory.

  \<^bold>\<open>Not modelled.\<close> The linker script, the makefile, the device tree and the documents are not programs of the
  kernel; what the code relies on of them is stated as hypotheses. Of the headers, the constants that no
  code uses and the prototypes have no counterpart; \<open>wfi\<close> changes nothing in this model. Caches, the
  translation look-aside buffer beyond the count of fences, and the timing of the devices are below it.
\<close>

end
